(* ===== verification/Prelude.thy ===== *)
theory Prelude
  imports Main "HOL-Library.Word"
begin

unbundle bit_operations_syntax

text \<open>
  What every component theory shares: the machine types of the Rust code, the checked, saturating
  and panicking forms of its 64-bit arithmetic, the result of a call that returns, fails or panics,
  and byte slices.

  A \<open>usize\<close> or \<open>u64\<close> value is a \<open>nat\<close>; the width appears where the code can reach it,
  in \<open>checked_add\<close> and its siblings. The crates are built for 64-bit targets, so the two types have
  the same range and \<open>usize::try_from\<close> of a \<open>u64\<close> is the identity.
  The workspace keeps overflow checks in release builds, so a plain \<open>+\<close> or \<open>-\<close> that leaves
  the range panics: \<open>plus_or_panic\<close> and \<open>minus_or_panic\<close>.
\<close>

section \<open>Machine types\<close>

type_synonym u8 = "8 word"
type_synonym u16 = "16 word"
type_synonym u32 = "32 word"
type_synonym bytes = "u8 list"
type_synonym usize = nat
type_synonym u64 = nat

section \<open>Results\<close>

text \<open>
  A call returns (\<open>Ok\<close>), returns an error (\<open>Err\<close>), or panics. \<open>let_ok m f\<close> is Rust's
  \<open>let x = m?; f x\<close>; a panic of \<open>m\<close> is a panic of the whole.
\<close>

datatype ('e, 'a) outcome = Ok 'a | Err 'e | Panic

fun let_ok :: "('e, 'a) outcome \<Rightarrow> ('a \<Rightarrow> ('e, 'b) outcome) \<Rightarrow> ('e, 'b) outcome" where
  "let_ok (Ok a) f = f a"
| "let_ok (Err e) f = Err e"
| "let_ok Panic f = Panic"

definition ok_or :: "'a option \<Rightarrow> 'e \<Rightarrow> ('e, 'a) outcome" where
  "ok_or v e = (case v of None \<Rightarrow> Err e | Some a \<Rightarrow> Ok a)"

definition expect :: "'a option \<Rightarrow> ('e, 'a) outcome" where
  "expect v = (case v of None \<Rightarrow> Panic | Some a \<Rightarrow> Ok a)"

definition assert_that :: "bool \<Rightarrow> ('e, unit) outcome" where
  "assert_that b = (if b then Ok () else Panic)"

definition ensure :: "bool \<Rightarrow> 'e \<Rightarrow> ('e, unit) outcome" where
  "ensure b e = (if b then Ok () else Err e)"

text \<open>\<open>for x in xs { body }\<close> with the loop state threaded through.\<close>

fun for_each :: "('x \<Rightarrow> 's \<Rightarrow> ('e, 's) outcome) \<Rightarrow> 'x list \<Rightarrow> 's \<Rightarrow> ('e, 's) outcome" where
  "for_each body [] s = Ok s"
| "for_each body (x # xs) s = let_ok (body x s) (\<lambda>s'. for_each body xs s')"

named_theorems outcome_iff \<open>when a composed call returns, fails or panics\<close>

lemma let_ok_Ok_iff [outcome_iff]: "let_ok m f = Ok b \<longleftrightarrow> (\<exists>a. m = Ok a \<and> f a = Ok b)"
  by (cases m) auto

lemma let_ok_Err_iff [outcome_iff]:
  "let_ok m f = Err e \<longleftrightarrow> m = Err e \<or> (\<exists>a. m = Ok a \<and> f a = Err e)"
  by (cases m) auto

lemma let_ok_Panic_iff [outcome_iff]:
  "let_ok m f = Panic \<longleftrightarrow> m = Panic \<or> (\<exists>a. m = Ok a \<and> f a = Panic)"
  by (cases m) auto

lemma ok_or_iff [outcome_iff]:
  "ok_or v e = Ok a \<longleftrightarrow> v = Some a"
  "ok_or v e = Err e' \<longleftrightarrow> v = None \<and> e' = e"
  "ok_or v e \<noteq> Panic"
  by (auto simp: ok_or_def split: option.splits)

lemma expect_iff [outcome_iff]:
  "expect v = Ok a \<longleftrightarrow> v = Some a"
  "expect v = Panic \<longleftrightarrow> v = None"
  "expect v \<noteq> Err e"
  by (auto simp: expect_def split: option.splits)

lemma assert_that_iff [outcome_iff]:
  "assert_that b = Ok u \<longleftrightarrow> b"
  "assert_that b = Panic \<longleftrightarrow> \<not> b"
  "assert_that b \<noteq> Err e"
  by (auto simp: assert_that_def)

lemma ensure_iff [outcome_iff]:
  "ensure b e = Ok u \<longleftrightarrow> b"
  "ensure b e = Err e' \<longleftrightarrow> \<not> b \<and> e' = e"
  "ensure b e \<noteq> Panic"
  by (auto simp: ensure_def)

lemma let_ok_Ok_right [simp]: "let_ok m Ok = m"
  by (cases m) simp_all

lemma ok_or_simps [simp]: "ok_or (Some a) e = Ok a" "ok_or None e = Err e"
  by (simp_all add: ok_or_def)

lemma expect_simps [simp]: "expect (Some a) = Ok a" "expect None = Panic"
  by (simp_all add: expect_def)

lemma assert_that_True [simp]: "assert_that True = Ok ()"
  by (simp add: assert_that_def)

lemma ensure_simps [simp]: "ensure True e = Ok ()" "ensure False e = Err e"
  by (simp_all add: ensure_def)

lemma let_ok_cong [fundef_cong]:
  assumes "m = m'" and "\<And>a. m' = Ok a \<Longrightarrow> f a = f' a"
  shows "let_ok m f = let_ok m' f'"
  using assms by (cases m') auto

lemma for_each_append:
  "for_each body (xs @ ys) s = let_ok (for_each body xs s) (for_each body ys)"
proof (induction xs arbitrary: s)
  case Nil
  then show ?case by simp
next
  case (Cons x xs)
  then show ?case by (cases "body x s") auto
qed

text \<open>A loop invariant holds of the final state, and a body that never panics makes no panic.\<close>

lemma for_each_invariant:
  assumes "for_each body xs s = Ok s'" and "I s"
    and "\<And>x t t'. x \<in> set xs \<Longrightarrow> I t \<Longrightarrow> body x t = Ok t' \<Longrightarrow> I t'"
  shows "I s'"
  using assms
proof (induction xs arbitrary: s)
  case Nil
  then show ?case by simp
next
  case (Cons x xs)
  from Cons.prems(1) obtain t where t: "body x s = Ok t" and rest: "for_each body xs t = Ok s'"
    by (auto simp: outcome_iff)
  have "I t"
    using Cons.prems(2) t by (rule Cons.prems(3) [rotated]) simp
  show ?case
    using rest \<open>I t\<close>
  proof (rule Cons.IH)
    fix y u u'
    assume "y \<in> set xs" and "I u" and "body y u = Ok u'"
    then show "I u'"
      by (intro Cons.prems(3) [of y u u']) simp_all
  qed
qed

section \<open>64-bit arithmetic\<close>

definition usize_max :: usize where
  "usize_max = 18446744073709551615"

definition checked_add :: "usize \<Rightarrow> usize \<Rightarrow> usize option" where
  "checked_add a b = (if a + b \<le> usize_max then Some (a + b) else None)"

definition checked_sub :: "usize \<Rightarrow> usize \<Rightarrow> usize option" where
  "checked_sub a b = (if b \<le> a then Some (a - b) else None)"

definition checked_mul :: "usize \<Rightarrow> usize \<Rightarrow> usize option" where
  "checked_mul a b = (if a * b \<le> usize_max then Some (a * b) else None)"

definition saturating_add :: "usize \<Rightarrow> usize \<Rightarrow> usize" where
  "saturating_add a b = min (a + b) usize_max"

definition saturating_sub :: "usize \<Rightarrow> usize \<Rightarrow> usize" where
  "saturating_sub a b = a - b"

definition saturating_mul :: "usize \<Rightarrow> usize \<Rightarrow> usize" where
  "saturating_mul a b = min (a * b) usize_max"

definition plus_or_panic :: "usize \<Rightarrow> usize \<Rightarrow> ('e, usize) outcome" where
  "plus_or_panic a b = expect (checked_add a b)"

definition minus_or_panic :: "usize \<Rightarrow> usize \<Rightarrow> ('e, usize) outcome" where
  "minus_or_panic a b = expect (checked_sub a b)"

named_theorems checked_iff \<open>when checked arithmetic succeeds\<close>

lemma checked_add_iff [checked_iff]:
  "checked_add a b = Some c \<longleftrightarrow> a + b \<le> usize_max \<and> c = a + b"
  "checked_add a b = None \<longleftrightarrow> usize_max < a + b"
  by (auto simp: checked_add_def)

lemma checked_sub_iff [checked_iff]:
  "checked_sub a b = Some c \<longleftrightarrow> b \<le> a \<and> c = a - b"
  "checked_sub a b = None \<longleftrightarrow> a < b"
  by (auto simp: checked_sub_def)

lemma checked_mul_iff [checked_iff]:
  "checked_mul a b = Some c \<longleftrightarrow> a * b \<le> usize_max \<and> c = a * b"
  "checked_mul a b = None \<longleftrightarrow> usize_max < a * b"
  by (auto simp: checked_mul_def)

lemma plus_or_panic_iff [outcome_iff]:
  "plus_or_panic a b = Ok c \<longleftrightarrow> a + b \<le> usize_max \<and> c = a + b"
  "plus_or_panic a b = Panic \<longleftrightarrow> usize_max < a + b"
  "plus_or_panic a b \<noteq> Err e"
  by (auto simp: plus_or_panic_def outcome_iff checked_iff)

lemma minus_or_panic_Ok [simp]: "b \<le> a \<Longrightarrow> minus_or_panic a b = Ok (a - b)"
  by (simp add: minus_or_panic_def checked_sub_def)

lemma plus_or_panic_Ok [simp]: "a + b \<le> usize_max \<Longrightarrow> plus_or_panic a b = Ok (a + b)"
  by (simp add: plus_or_panic_def checked_add_def)

lemma minus_or_panic_iff [outcome_iff]:
  "minus_or_panic a b = Ok c \<longleftrightarrow> b \<le> a \<and> c = a - b"
  "minus_or_panic a b = Panic \<longleftrightarrow> a < b"
  "minus_or_panic a b \<noteq> Err e"
  by (auto simp: minus_or_panic_def outcome_iff checked_iff)

section \<open>Least and greatest elements\<close>

lemma foldl_min_bounds:
  fixes x :: nat
  shows "foldl min x xs \<le> x" "y \<in> set xs \<Longrightarrow> foldl min x xs \<le> y" "foldl min x xs \<in> insert x (set xs)"
proof -
  show le: "foldl min x xs \<le> x" for x :: nat and xs
  proof (induction xs arbitrary: x)
    case (Cons z xs)
    show ?case
      using Cons [of "min x z"] by simp
  qed simp
  show "y \<in> set xs \<Longrightarrow> foldl min x xs \<le> y"
  proof (induction xs arbitrary: x)
    case (Cons z xs)
    then show ?case
      using le [of "min x z" xs] by auto
  qed simp
  show "foldl min x xs \<in> insert x (set xs)"
  proof (induction xs arbitrary: x)
    case (Cons z xs)
    show ?case
      using Cons [of "min x z"] by (auto simp: min_def split: if_splits)
  qed simp
qed

lemma foldl_max_bounds:
  fixes x :: nat
  shows "x \<le> foldl max x xs" "y \<in> set xs \<Longrightarrow> y \<le> foldl max x xs" "foldl max x xs \<in> insert x (set xs)"
proof -
  show le: "x \<le> foldl max x xs" for x :: nat and xs
  proof (induction xs arbitrary: x)
    case (Cons z xs)
    show ?case
      using Cons [of "max x z"] by simp
  qed simp
  show "y \<in> set xs \<Longrightarrow> y \<le> foldl max x xs"
  proof (induction xs arbitrary: x)
    case (Cons z xs)
    then show ?case
      using le [of "max x z" xs] by auto
  qed simp
  show "foldl max x xs \<in> insert x (set xs)"
  proof (induction xs arbitrary: x)
    case (Cons z xs)
    show ?case
      using Cons [of "max x z"] by (auto simp: max_def split: if_splits)
  qed simp
qed

section \<open>Byte slices\<close>

text \<open>
  \<open>slice_of xs a b\<close> is \<open>&xs[a..b]\<close> where the range is valid; \<open>get_range\<close> is
  \<open>xs.get(a..b)\<close> and \<open>copy_at\<close> is \<open>copy_from_slice\<close> into \<open>xs[i..i + ys.len()]\<close>.
\<close>

definition slice_of :: "'a list \<Rightarrow> nat \<Rightarrow> nat \<Rightarrow> 'a list" where
  "slice_of xs a b = take (b - a) (drop a xs)"

definition get_range :: "'a list \<Rightarrow> nat \<Rightarrow> nat \<Rightarrow> 'a list option" where
  "get_range xs a b = (if a \<le> b \<and> b \<le> length xs then Some (slice_of xs a b) else None)"

definition get_index :: "'a list \<Rightarrow> nat \<Rightarrow> 'a option" where
  "get_index xs i = (if i < length xs then Some (xs ! i) else None)"

definition copy_at :: "'a list \<Rightarrow> nat \<Rightarrow> 'a list \<Rightarrow> 'a list" where
  "copy_at xs i ys = take i xs @ ys @ drop (i + length ys) xs"

definition write_range :: "'a list \<Rightarrow> nat \<Rightarrow> 'a list \<Rightarrow> 'a list option" where
  "write_range xs i ys = (if i + length ys \<le> length xs then Some (copy_at xs i ys) else None)"

text \<open>\<open>xs.get(i..)\<close> and \<open>xs.split_at(n)\<close>, the latter \<open>None\<close> where Rust panics.\<close>

definition get_from :: "'a list \<Rightarrow> nat \<Rightarrow> 'a list option" where
  "get_from xs i = (if i \<le> length xs then Some (drop i xs) else None)"

definition split_at :: "'a list \<Rightarrow> nat \<Rightarrow> ('a list \<times> 'a list) option" where
  "split_at xs n = (if n \<le> length xs then Some (take n xs, drop n xs) else None)"

lemma length_slice_of [simp]: "length (slice_of xs a b) = min (b - a) (length xs - a)"
  by (simp add: slice_of_def)

lemma nth_slice_of: "a + i < b \<Longrightarrow> b \<le> length xs \<Longrightarrow> slice_of xs a b ! i = xs ! (a + i)"
  by (simp add: slice_of_def)

lemma slice_of_empty [simp]: "b \<le> a \<Longrightarrow> slice_of xs a b = []"
  by (simp add: slice_of_def)

lemma slice_of_full [simp]: "slice_of xs 0 (length xs) = xs"
  by (simp add: slice_of_def)

lemma slice_of_append_slice:
  "a \<le> b \<Longrightarrow> b \<le> c \<Longrightarrow> slice_of xs a b @ slice_of xs b c = slice_of xs a c"
  using take_add [of "b - a" "c - b" "drop a xs"] by (simp add: slice_of_def)

lemma get_range_iff [checked_iff]:
  "get_range xs a b = Some ys \<longleftrightarrow> a \<le> b \<and> b \<le> length xs \<and> ys = slice_of xs a b"
  "get_range xs a b = None \<longleftrightarrow> \<not> (a \<le> b \<and> b \<le> length xs)"
  by (auto simp: get_range_def)

lemma get_index_iff [checked_iff]:
  "get_index xs i = Some x \<longleftrightarrow> i < length xs \<and> x = xs ! i"
  "get_index xs i = None \<longleftrightarrow> length xs \<le> i"
  by (auto simp: get_index_def)

lemma length_copy_at [simp]:
  "i + length ys \<le> length xs \<Longrightarrow> length (copy_at xs i ys) = length xs"
  by (simp add: copy_at_def)

lemma nth_copy_at:
  assumes "i + length ys \<le> length xs" and "j < length xs"
  shows "copy_at xs i ys ! j = (if i \<le> j \<and> j < i + length ys then ys ! (j - i) else xs ! j)"
  using assms by (auto simp: copy_at_def nth_append min_def)

lemma write_range_iff [checked_iff]:
  "write_range xs i ys = Some zs \<longleftrightarrow> i + length ys \<le> length xs \<and> zs = copy_at xs i ys"
  "write_range xs i ys = None \<longleftrightarrow> length xs < i + length ys"
  by (auto simp: write_range_def)


section \<open>Big-endian integers\<close>

definition be_nat :: "bytes \<Rightarrow> nat" where
  "be_nat bs = foldl (\<lambda>acc b. acc * 256 + unat b) 0 bs"

fun be_bytes :: "nat \<Rightarrow> nat \<Rightarrow> bytes" where
  "be_bytes 0 n = []"
| "be_bytes (Suc k) n = be_bytes k (n div 256) @ [of_nat (n mod 256)]"

lemma be_nat_simps [simp]:
  "be_nat [] = 0" "be_nat (bs @ [b]) = be_nat bs * 256 + unat b"
  by (simp_all add: be_nat_def)

lemma be_nat_append: "be_nat (xs @ ys) = be_nat xs * 256 ^ length ys + be_nat ys"
proof (induction ys rule: rev_induct)
  case Nil
  then show ?case by simp
next
  case (snoc y ys)
  then show ?case
    using be_nat_simps(2) [of "xs @ ys" y] by (simp add: algebra_simps)
qed

lemma be_nat_Cons: "be_nat (b # bs) = unat b * 256 ^ length bs + be_nat bs"
  using be_nat_append [of "[b]" bs] be_nat_simps(2) [of "[]" b] by simp

lemma unat_u8_less [simp]: "unat (b :: u8) < 256"
  using unsigned_less [of b] by simp

lemma be_nat_less: "be_nat bs < 256 ^ length bs"
proof (induction bs rule: rev_induct)
  case Nil
  then show ?case by simp
next
  case (snoc b bs)
  then have "be_nat bs * 256 + unat b < (be_nat bs + 1) * 256"
    by simp
  also have "\<dots> \<le> 256 ^ length bs * 256"
    using snoc by (intro mult_right_mono) simp_all
  finally show ?case by simp
qed

lemma length_be_bytes [simp]: "length (be_bytes k n) = k"
  by (induction k arbitrary: n) auto

lemma unat_of_nat_byte: "n < 256 \<Longrightarrow> unat (of_nat n :: u8) = n"
  by (simp add: unat_of_nat)

lemma be_nat_be_bytes: "n < 256 ^ k \<Longrightarrow> be_nat (be_bytes k n) = n"
proof (induction k arbitrary: n)
  case 0
  then show ?case by simp
next
  case (Suc k)
  then have "n div 256 < 256 ^ k"
    by (simp add: less_mult_imp_div_less mult.commute)
  with Suc.IH show ?case
    by (simp add: unat_of_nat)
qed

lemma be_bytes_be_nat: "be_bytes (length bs) (be_nat bs) = bs"
proof (induction bs rule: rev_induct)
  case Nil
  then show ?case by simp
next
  case (snoc b bs)
  have "(be_nat bs * 256 + unat b) div 256 = be_nat bs"
    by simp
  with snoc show ?case
    by (simp add: word_eq_iff_unsigned unat_of_nat)
qed

end
