(* ===== verification/Checksum.thy ===== *)
theory Checksum
  imports Prelude
begin

text \<open>
  The Internet checksum (\<open>protocol/common/checksum.rs\<close>). The code sums 64-bit chunks into a
  128-bit accumulator and folds at the end; the reference is RFC 1071's 16-bit ones'-complement sum,
  one word at a time. The two agree on every split of the data into parts.
\<close>

section \<open>The accumulator\<close>

record checksum_accumulator =
  acc_sum :: nat
  acc_pending_high_byte :: "u8 option"

definition checksum_default :: checksum_accumulator where
  "checksum_default = \<lparr>acc_sum = 0, acc_pending_high_byte = None\<rparr>"

text \<open>\<open>as_chunks::<8>()\<close> and \<open>as_chunks::<2>()\<close> with their remainders.\<close>

function sum_chunks8 :: "nat \<Rightarrow> bytes \<Rightarrow> nat \<times> bytes" where
  "sum_chunks8 s bs =
     (if length bs < 8 then (s, bs) else sum_chunks8 (s + be_nat (take 8 bs)) (drop 8 bs))"
  by pat_completeness auto
termination
  by (relation "measure (\<lambda>(s, bs). length bs)") auto

declare sum_chunks8.simps [simp del]

fun sum_chunks2 :: "nat \<Rightarrow> bytes \<Rightarrow> nat \<times> bytes" where
  "sum_chunks2 s (a # b # bs) = sum_chunks2 (s + be_nat [a, b]) bs"
| "sum_chunks2 s bs = (s, bs)"

definition checksum_add_aligned :: "nat \<Rightarrow> bytes \<Rightarrow> checksum_accumulator" where
  "checksum_add_aligned s bs =
     (let (s8, remainder8) = sum_chunks8 s bs;
          (s2, remainder) = sum_chunks2 s8 remainder8
      in \<lparr>acc_sum = s2,
          acc_pending_high_byte = (case remainder of [] \<Rightarrow> None | high # _ \<Rightarrow> Some high)\<rparr>)"

definition checksum_add :: "checksum_accumulator \<Rightarrow> bytes \<Rightarrow> checksum_accumulator" where
  "checksum_add acc bs =
     (case acc_pending_high_byte acc of
        Some high \<Rightarrow>
          (case bs of
             [] \<Rightarrow> acc
           | low # remaining \<Rightarrow> checksum_add_aligned (acc_sum acc + be_nat [high, low]) remaining)
      | None \<Rightarrow> checksum_add_aligned (acc_sum acc) bs)"

lemma fold_step_less:
  assumes "s div 2 ^ 16 \<noteq> (0 :: nat)"
  shows "s mod 2 ^ 16 + s div 2 ^ 16 < s"
proof -
  have "s = s div 2 ^ 16 * 2 ^ 16 + s mod 2 ^ 16"
    by (rule div_mult_mod_eq [symmetric])
  moreover have "s div 2 ^ 16 < s div 2 ^ 16 * 2 ^ 16"
    using assms by simp
  ultimately show ?thesis
    by linarith
qed

function fold_checksum_loop :: "nat \<Rightarrow> nat" where
  "fold_checksum_loop s =
     (if s div 2 ^ 16 \<noteq> 0 then fold_checksum_loop (s mod 2 ^ 16 + s div 2 ^ 16) else s)"
  by pat_completeness auto
termination
proof (relation "measure id")
  show "wf (measure id)"
    by simp
  fix s :: nat
  assume "s div 2 ^ 16 \<noteq> 0"
  then show "(s mod 2 ^ 16 + s div 2 ^ 16, s) \<in> measure id"
    using fold_step_less by simp
qed

declare fold_checksum_loop.simps [simp del]

definition fold_checksum :: "nat \<Rightarrow> u16" where
  "fold_checksum s =
     (let s1 = s mod 2 ^ 64 + s div 2 ^ 64;
          s2 = s1 mod 2 ^ 32 + s1 div 2 ^ 32
      in NOT (of_nat (fold_checksum_loop s2)))"

definition checksum_finish :: "checksum_accumulator \<Rightarrow> u16" where
  "checksum_finish acc =
     fold_checksum
       (acc_sum acc + (case acc_pending_high_byte acc of None \<Rightarrow> 0 | Some high \<Rightarrow> unat high * 2 ^ 8))"

definition checksum_parts :: "bytes list \<Rightarrow> u16" where
  "checksum_parts parts = checksum_finish (foldl checksum_add checksum_default parts)"

section \<open>The reference: RFC 1071\<close>

fun words16 :: "bytes \<Rightarrow> u16 list" where
  "words16 [] = []"
| "words16 [a] = [of_nat (be_nat [a, 0])]"
| "words16 (a # b # bs) = of_nat (be_nat [a, b]) # words16 bs"

text \<open>16-bit addition with end-around carry.\<close>

definition ones_add :: "u16 \<Rightarrow> u16 \<Rightarrow> u16" where
  "ones_add a b =
     (let t = unat a + unat b in of_nat (t mod 2 ^ 16 + t div 2 ^ 16))"

definition rfc1071 :: "bytes \<Rightarrow> u16" where
  "rfc1071 bs = NOT (foldl ones_add 0 (words16 bs))"

section \<open>Ones'-complement residues\<close>

text \<open>
  Every intermediate sum is determined up to a residue modulo \<open>2\<^sup>1\<^sup>6 - 1\<close> and whether it is zero;
  \<open>norm16\<close> picks the representative a 16-bit ones'-complement sum has.
\<close>

definition norm16 :: "nat \<Rightarrow> nat" where
  "norm16 s = (if s = 0 then 0 else (s - 1) mod 65535 + 1)"

definition same16 :: "nat \<Rightarrow> nat \<Rightarrow> bool" where
  "same16 s t \<longleftrightarrow> s mod 65535 = t mod 65535 \<and> (s = 0 \<longleftrightarrow> t = 0)"

lemma same16_refl [simp]: "same16 s s"
  by (simp add: same16_def)

lemma same16_trans: "same16 s t \<Longrightarrow> same16 t u \<Longrightarrow> same16 s u"
  by (simp add: same16_def)

lemma same16_add: "same16 s s' \<Longrightarrow> same16 t t' \<Longrightarrow> same16 (s + t) (s' + t')"
  by (auto simp: same16_def) (metis mod_add_cong)

lemma norm16_mod: "norm16 s mod 65535 = s mod 65535"
proof (cases "s = 0")
  case False
  then have "((s - 1) mod 65535 + 1) mod 65535 = ((s - 1) + 1) mod 65535"
    by (simp add: mod_Suc_eq)
  with False show ?thesis
    by (simp add: norm16_def)
qed (simp add: norm16_def)

lemma norm16_same: "same16 (norm16 s) s"
  using norm16_mod [of s] by (auto simp: same16_def norm16_def)

lemma norm16_le: "norm16 s \<le> 65535"
  using mod_less_divisor [of 65535 "s - 1"] by (simp add: norm16_def Suc_leI del: mod_less_divisor)

lemma norm16_cong: "same16 s t \<Longrightarrow> norm16 s = norm16 t"
  by (cases s; cases t) (auto simp: same16_def norm16_def mod_Suc split: if_splits)

lemma norm16_small: "s \<le> 65535 \<Longrightarrow> norm16 s = s"
  by (auto simp: norm16_def)

lemma norm16_unique: "same16 s t \<Longrightarrow> s \<le> 65535 \<Longrightarrow> s = norm16 t"
  using norm16_cong norm16_small by metis

text \<open>Folding the upper half onto the lower one keeps the residue: \<open>2\<^sup>1\<^sup>6 \<equiv> 1\<close>.\<close>

lemma fold_step_same:
  assumes "2 ^ k mod 65535 = (1 :: nat)"
  shows "same16 (s mod 2 ^ k + s div 2 ^ k) s"
proof -
  have "s mod 65535 = (s div 2 ^ k * 2 ^ k + s mod 2 ^ k) mod 65535"
    by (simp only: div_mult_mod_eq)
  also have "\<dots> = (s div 2 ^ k + s mod 2 ^ k) mod 65535"
    by (metis assms mod_add_left_eq mod_mult_right_eq mult.right_neutral)
  finally show ?thesis
    by (auto simp: same16_def add.commute)
qed

lemma fold_checksum_loop_norm: "fold_checksum_loop s = norm16 s"
proof (induction s rule: fold_checksum_loop.induct)
  case (1 s)
  show ?case
  proof (cases "s div 2 ^ 16 \<noteq> 0")
    case True
    have "norm16 (s mod 2 ^ 16 + s div 2 ^ 16) = norm16 s"
      using fold_step_same [of 16 s] by (intro norm16_cong) simp
    with True 1 show ?thesis
      by (simp add: fold_checksum_loop.simps [of s])
  next
    case False
    then have "s \<le> 65535"
      by (simp add: div_eq_0_iff)
    with False show ?thesis
      using norm16_unique [of s s] by (simp add: fold_checksum_loop.simps [of s])
  qed
qed

lemma fold_checksum_norm: "fold_checksum s = NOT (of_nat (norm16 s))"
proof -
  have "same16 (s mod 2 ^ 64 + s div 2 ^ 64) s" for s
    using fold_step_same [of 64 s] by simp
  moreover have "same16 (s mod 2 ^ 32 + s div 2 ^ 32) s" for s
    using fold_step_same [of 32 s] by simp
  ultimately show ?thesis
    unfolding fold_checksum_def fold_checksum_loop_norm Let_def
    by (metis norm16_cong)
qed

section \<open>Both sums compute the same residue\<close>

definition word_sum :: "bytes \<Rightarrow> nat" where
  "word_sum bs = (\<Sum>w\<leftarrow>words16 bs. unat w)"

lemma unat_be_pair: "unat (of_nat (be_nat [a, b]) :: u16) = be_nat [a, b]"
proof -
  have "be_nat [a, b] < 2 ^ 16"
    using be_nat_less [of "[a, b]"] by simp
  then show ?thesis
    by (simp add: unat_of_nat)
qed

lemma word_sum_simps [simp]:
  "word_sum [] = 0"
  "word_sum [a] = unat a * 256"
  "word_sum (a # b # bs) = be_nat [a, b] + word_sum bs"
proof -
  show "word_sum [] = 0"
    by (simp add: word_sum_def)
  show "word_sum [a] = unat a * 256"
    using unat_be_pair [of a 0] by (simp add: word_sum_def be_nat_Cons)
  show "word_sum (a # b # bs) = be_nat [a, b] + word_sum bs"
    by (simp only: word_sum_def words16.simps list.map sum_list.Cons unat_be_pair)
qed

lemma word_sum_append: "even (length xs) \<Longrightarrow> word_sum (xs @ ys) = word_sum xs + word_sum ys"
  by (induction xs rule: words16.induct) auto

lemma pow_256_mod: "even k \<Longrightarrow> 256 ^ k mod 65535 = (1 :: nat)"
proof -
  assume "even k"
  then obtain j where "k = 2 * j"
    by (elim evenE)
  then have "256 ^ k = (65536 :: nat) ^ j"
    by (simp add: power_mult)
  then show ?thesis
    using power_mod [of "65536 :: nat" 65535 j] by simp
qed

lemma be_nat_same: "even (length bs) \<Longrightarrow> same16 (be_nat bs) (word_sum bs)"
proof (induction bs rule: words16.induct)
  case (3 a b bs)
  have eq: "be_nat (a # b # bs) = be_nat [a, b] * 256 ^ length bs + be_nat bs"
    using be_nat_append [of "[a, b]" bs] by simp
  have "256 ^ length bs mod 65535 = (1 :: nat)"
    using 3 pow_256_mod by simp
  then have "(be_nat [a, b] * 256 ^ length bs) mod 65535 = be_nat [a, b] mod 65535"
    using mod_mult_right_eq [of "be_nat [a, b]" "256 ^ length bs" 65535] by simp
  then have "same16 (be_nat [a, b] * 256 ^ length bs) (be_nat [a, b])"
    by (auto simp: same16_def)
  then show ?case
    using 3 by (simp only: eq word_sum_simps) (auto intro!: same16_add)
qed auto

lemma sum_chunks8_consumes:
  "sum_chunks8 s bs = (s', r) \<Longrightarrow>
     \<exists>c. bs = c @ r \<and> even (length c) \<and> same16 s' (s + word_sum c)"
proof (induction s bs rule: sum_chunks8.induct)
  case (1 s bs)
  show ?case
  proof (cases "length bs < 8")
    case True
    with 1 show ?thesis
      by (intro exI [of _ "[]"]) (simp add: sum_chunks8.simps [of s bs])
  next
    case False
    let ?t = "take 8 bs"
    obtain c where c: "drop 8 bs = c @ r" "even (length c)" "same16 s' (s + be_nat ?t + word_sum c)"
      using 1 False by (auto simp: sum_chunks8.simps [of s bs])
    have "same16 (be_nat ?t) (word_sum ?t)"
      using False by (intro be_nat_same) simp
    then have "same16 (s + be_nat ?t + word_sum c) (s + (word_sum ?t + word_sum c))"
      by (simp add: add.assoc same16_add)
    then have "same16 s' (s + word_sum (?t @ c))"
      using c(3) False by (auto simp: word_sum_append intro: same16_trans)
    moreover have "bs = (?t @ c) @ r"
      using c(1) append_take_drop_id [of 8 bs] by simp
    moreover have "even (length (?t @ c))"
      using c(2) False by simp
    ultimately show ?thesis
      by blast
  qed
qed

lemma sum_chunks2_consumes:
  "sum_chunks2 s bs = (s', r) \<Longrightarrow>
     \<exists>c. bs = c @ r \<and> even (length c) \<and> s' = s + word_sum c \<and> length r \<le> 1"
proof (induction s bs rule: sum_chunks2.induct)
  case (1 s a b bs)
  then obtain c where "bs = c @ r" "even (length c)" "s' = s + be_nat [a, b] + word_sum c" "length r \<le> 1"
    by auto
  then show ?case
    by (intro exI [of _ "a # b # c"]) simp
qed auto

text \<open>\<open>acc_holds acc d\<close>: the accumulator has consumed the data \<open>d\<close>.\<close>

definition acc_holds :: "checksum_accumulator \<Rightarrow> bytes \<Rightarrow> bool" where
  "acc_holds acc d \<longleftrightarrow>
     (if even (length d)
      then acc_pending_high_byte acc = None \<and> same16 (acc_sum acc) (word_sum d)
      else acc_pending_high_byte acc = Some (last d) \<and> same16 (acc_sum acc) (word_sum (butlast d)))"

lemma word_sum_odd: "odd (length d) \<Longrightarrow> word_sum d = word_sum (butlast d) + unat (last d) * 256"
proof -
  assume o: "odd (length d)"
  then have ne: "d \<noteq> []"
    by auto
  then have "word_sum d = word_sum (butlast d @ [last d])"
    by simp
  also have "\<dots> = word_sum (butlast d) + word_sum [last d]"
    using o by (intro word_sum_append) (simp add: ne)
  finally show ?thesis
    by simp
qed

lemma checksum_add_aligned_holds:
  assumes "same16 s (word_sum d)" and "even (length d)"
  shows "acc_holds (checksum_add_aligned s bs) (d @ bs)"
proof -
  obtain s8 r8 where c8: "sum_chunks8 s bs = (s8, r8)"
    by fastforce
  obtain s2 r where c2: "sum_chunks2 s8 r8 = (s2, r)"
    by fastforce
  obtain c c' where c: "bs = c @ r8" "even (length c)" "same16 s8 (s + word_sum c)"
    and c': "r8 = c' @ r" "even (length c')" "s2 = s8 + word_sum c'" "length r \<le> 1"
    using sum_chunks8_consumes [OF c8] sum_chunks2_consumes [OF c2] by blast
  let ?e = "d @ c @ c'"
  have "same16 (s + word_sum c) (word_sum d + word_sum c)"
    using assms(1) by (simp add: same16_add)
  then have "same16 s2 (word_sum ?e)"
    using assms(2) c c' same16_trans [OF c(3)] by (auto simp: word_sum_append add.assoc [symmetric] intro!: same16_add)
  moreover have "even (length ?e)" and split: "d @ bs = ?e @ r"
    using assms(2) c c' by simp_all
  moreover have "r = [] \<or> (\<exists>h. r = [h])"
    using c'(4) by (cases r) auto
  ultimately show ?thesis
    unfolding split acc_holds_def by (auto simp: checksum_add_aligned_def c8 c2 butlast_append)
qed

lemma checksum_add_holds:
  assumes "acc_holds acc d"
  shows "acc_holds (checksum_add acc bs) (d @ bs)"
proof (cases "even (length d)")
  case True
  with assms show ?thesis
    by (auto simp: checksum_add_def acc_holds_def [of acc] intro: checksum_add_aligned_holds)
next
  case False
  then have p: "acc_pending_high_byte acc = Some (last d)"
    and s: "same16 (acc_sum acc) (word_sum (butlast d))" and ne: "d \<noteq> []"
    using assms by (auto simp: acc_holds_def)
  show ?thesis
  proof (cases bs)
    case Nil
    with assms p show ?thesis
      by (simp add: checksum_add_def)
  next
    case (Cons low rest)
    have "word_sum (d @ [low]) = word_sum (butlast d @ [last d, low])"
      using ne by (metis append_Cons append_assoc append_butlast_last_id append_Nil)
    also have "\<dots> = word_sum (butlast d) + be_nat [last d, low]"
      using False ne by (subst word_sum_append) auto
    finally have "same16 (acc_sum acc + be_nat [last d, low]) (word_sum (d @ [low]))"
      using s by (simp add: same16_add)
    then have "acc_holds (checksum_add_aligned (acc_sum acc + be_nat [last d, low]) rest)
        ((d @ [low]) @ rest)"
      using False by (intro checksum_add_aligned_holds) simp_all
    then show ?thesis
      using p Cons by (simp add: checksum_add_def)
  qed
qed

lemma foldl_checksum_add_holds:
  "acc_holds acc d \<Longrightarrow> acc_holds (foldl checksum_add acc parts) (d @ concat parts)"
proof (induction parts arbitrary: acc d)
  case (Cons p ps)
  from Cons.IH [OF checksum_add_holds [OF Cons.prems]] show ?case
    by simp
qed simp

lemma checksum_finish_holds: "acc_holds acc d \<Longrightarrow> checksum_finish acc = NOT (of_nat (norm16 (word_sum d)))"
proof (cases "even (length d)")
  case True
  moreover assume "acc_holds acc d"
  ultimately show ?thesis
    using norm16_cong [of "acc_sum acc" "word_sum d"]
    by (simp add: acc_holds_def checksum_finish_def fold_checksum_norm)
next
  case False
  moreover assume "acc_holds acc d"
  ultimately have "same16 (acc_sum acc + unat (last d) * 256) (word_sum d)"
    and "acc_pending_high_byte acc = Some (last d)"
    using word_sum_odd [of d] by (auto simp: acc_holds_def intro!: same16_add)
  then show ?thesis
    using norm16_cong [of "acc_sum acc + unat (last d) * 256" "word_sum d"]
    by (simp add: checksum_finish_def fold_checksum_norm)
qed

lemma checksum_parts_norm: "checksum_parts parts = NOT (of_nat (norm16 (word_sum (concat parts))))"
proof -
  have "acc_holds checksum_default []"
    by (simp add: acc_holds_def checksum_default_def)
  from checksum_finish_holds [OF foldl_checksum_add_holds [OF this, of parts]] show ?thesis
    by (simp add: checksum_parts_def)
qed

section \<open>RFC 1071's sum\<close>

lemma unat_of_nat_u16: "n \<le> 65535 \<Longrightarrow> unat (of_nat n :: u16) = n"
  by (simp add: unat_of_nat)

lemma unat_ones_add: "unat (ones_add a b) = norm16 (unat a + unat b)"
proof -
  let ?t = "unat a + unat b"
  have "unat a < 2 ^ 16" "unat b < 2 ^ 16"
    using unsigned_less [of a] unsigned_less [of b] by simp_all
  then have le: "?t mod 2 ^ 16 + ?t div 2 ^ 16 \<le> 65535"
    by (cases "?t < 2 ^ 16") (simp_all add: le_div_geq le_mod_geq)
  then have eq: "?t mod 2 ^ 16 + ?t div 2 ^ 16 = norm16 ?t"
    using fold_step_same [of 16 ?t] by (intro norm16_unique) simp_all
  show ?thesis
    unfolding ones_add_def Let_def eq by (rule unat_of_nat_u16 [OF norm16_le])
qed

lemma unat_foldl_ones_add:
  "unat (foldl ones_add a ws) = norm16 (unat a + (\<Sum>w\<leftarrow>ws. unat w))"
proof (induction ws arbitrary: a)
  case Nil
  have "unat a < 2 ^ 16"
    using unsigned_less [of a] by simp
  then show ?case
    by (simp add: norm16_small)
next
  case (Cons w ws)
  have "norm16 (norm16 (unat a + unat w) + (\<Sum>w\<leftarrow>ws. unat w)) = norm16 (unat a + unat w + (\<Sum>w\<leftarrow>ws. unat w))"
    by (intro norm16_cong same16_add norm16_same) simp
  with Cons show ?case
    by (simp add: unat_ones_add add.assoc)
qed

lemma checksum_parts_rfc1071: "checksum_parts parts = rfc1071 (concat parts)"
proof -
  have "of_nat (norm16 (word_sum (concat parts))) = foldl ones_add 0 (words16 (concat parts))"
    using unat_foldl_ones_add [of 0 "words16 (concat parts)"]
    by (simp add: word_sum_def) (metis of_nat_unat ucast_id)
  then show ?thesis
    by (simp add: checksum_parts_norm rfc1071_def)
qed

section \<open>A stored checksum verifies\<close>

lemma unat_not_u16: "unat (NOT w :: u16) = 65535 - unat w"
proof -
  have "NOT w = -1 - w"
    by (simp add: not_eq_complement)
  moreover have "unat (-1 - w) = unat (-1 :: u16) - unat w"
    by (rule unat_sub) simp
  moreover have "unat (-1 :: u16) = 65535"
    by (simp add: unsigned_minus_1_eq_mask mask_eq_exp_minus_1)
  ultimately show ?thesis
    by simp
qed

lemma word_sum_field:
  assumes "even (length p)" and "length c = 2"
  shows "word_sum (p @ c @ r) = word_sum (p @ [0, 0] @ r) + be_nat c"
proof -
  obtain a b where c: "c = [a, b]"
    using assms(2) by (auto simp: numeral_2_eq_2 length_Suc_conv)
  show ?thesis
    using assms(1) unfolding c by (simp add: word_sum_append be_nat_Cons)
qed

text \<open>
  Writing the checksum of a header computed with a zero checksum field into that field makes the
  checksum of the header zero, which is what receivers (and \<open>transform::fragment\<close>) test.
\<close>

lemma checksum_field_verifies:
  assumes "even (length p)"
  shows "checksum_parts [p @ be_bytes 2 (unat (checksum_parts [p @ [0, 0] @ r])) @ r] = 0"
proof -
  let ?w = "word_sum (p @ [0, 0] @ r)"
  let ?c = "NOT (of_nat (norm16 ?w)) :: u16"
  have c: "unat ?c = 65535 - norm16 ?w"
    using unat_of_nat_u16 [OF norm16_le, of ?w] by (simp add: unat_not_u16)
  have "be_nat (be_bytes 2 (unat ?c)) = unat ?c"
    using unsigned_less [of ?c] by (intro be_nat_be_bytes) simp
  then have "word_sum (p @ be_bytes 2 (unat ?c) @ r) = ?w + (65535 - norm16 ?w)"
    using assms c by (simp add: word_sum_field)
  moreover have "same16 65535 (?w + (65535 - norm16 ?w))"
  proof -
    have "(?w + (65535 - norm16 ?w)) mod 65535 = (norm16 ?w + (65535 - norm16 ?w)) mod 65535"
      by (rule mod_add_cong) (simp_all only: norm16_mod)
    also have "\<dots> = 0"
      using norm16_le [of ?w] by simp
    finally show ?thesis
      by (auto simp: same16_def norm16_def)
  qed
  ultimately have "norm16 (word_sum (p @ be_bytes 2 (unat ?c) @ r)) = 65535"
    using norm16_unique [of 65535 "?w + (65535 - norm16 ?w)"] by simp
  then show ?thesis
    by (simp add: checksum_parts_norm)
qed

section \<open>Properties\<close>

text \<open>
  C22. The checksum the code computes over any list of parts, with 64-bit chunks added into one wide
  sum and a byte carried over between odd parts, is the one's-complement sum of the 16-bit words of
  their concatenation, as RFC 1071 defines it.
\<close>
theorem checksum_parts_equals_rfc1071: "checksum_parts parts = rfc1071 (concat parts)"
  by (rule checksum_parts_rfc1071)

end
