(* ===== verification/Keys.thy ===== *)
theory Keys
  imports Checksum "HOL-Library.Product_Lexorder"
begin

text \<open>
  Addresses and the keys that name flows and datagrams (\<open>analysis/stream.rs\<close>, \<open>analysis/scope.rs\<close>,
  \<open>analysis/reassembly/ip/model.rs\<close>), with the lexicographic order Rust derives for them, and the
  transport checksum over the pseudo-header of an address pair.
\<close>

section \<open>Addresses\<close>

datatype ip_addr = V4 u32 | V6 "128 word"

fun octets :: "ip_addr \<Rightarrow> bytes" where
  "octets (V4 a) = be_bytes 4 (unat a)"
| "octets (V6 a) = be_bytes 16 (unat a)"

fun ip_addr_rank :: "ip_addr \<Rightarrow> nat \<times> nat" where
  "ip_addr_rank (V4 a) = (0, unat a)"
| "ip_addr_rank (V6 a) = (1, unat a)"

lemma ip_addr_rank_inject [simp]: "ip_addr_rank a = ip_addr_rank b \<longleftrightarrow> a = b"
  by (cases a; cases b) (auto dest: unsigned_word_eqI)

instantiation ip_addr :: linorder
begin

definition less_eq_ip_addr :: "ip_addr \<Rightarrow> ip_addr \<Rightarrow> bool" where
  "less_eq_ip_addr a b \<longleftrightarrow> ip_addr_rank a \<le> ip_addr_rank b"

definition less_ip_addr :: "ip_addr \<Rightarrow> ip_addr \<Rightarrow> bool" where
  "less_ip_addr a b \<longleftrightarrow> ip_addr_rank a < ip_addr_rank b"

instance
  by standard (auto simp: less_eq_ip_addr_def less_ip_addr_def order.strict_iff_order intro: order_antisym)

end

section \<open>Flow keys\<close>

type_synonym scope_id = u32

datatype flow_key =
  FlowKey (source: ip_addr) (source_port: u16) (destination: ip_addr) (destination_port: u16)

definition flow_key_reverse :: "flow_key \<Rightarrow> flow_key" where
  "flow_key_reverse k =
     FlowKey (destination k) (destination_port k) (source k) (source_port k)"

datatype scoped_flow_key = ScopedFlowKey (scope: scope_id) (flow: flow_key)

definition scoped_flow_key_reverse :: "scoped_flow_key \<Rightarrow> scoped_flow_key" where
  "scoped_flow_key_reverse k = ScopedFlowKey (scope k) (flow_key_reverse (flow k))"

definition flow_key_rank :: "flow_key \<Rightarrow> ip_addr \<times> u16 \<times> ip_addr \<times> u16" where
  "flow_key_rank k = (source k, source_port k, destination k, destination_port k)"

definition scoped_flow_key_rank :: "scoped_flow_key \<Rightarrow> scope_id \<times> ip_addr \<times> u16 \<times> ip_addr \<times> u16" where
  "scoped_flow_key_rank k = (scope k, flow_key_rank (flow k))"

lemma flow_key_rank_inject [simp]: "flow_key_rank a = flow_key_rank b \<longleftrightarrow> a = b"
  by (cases a; cases b) (auto simp: flow_key_rank_def)

lemma scoped_flow_key_rank_inject [simp]: "scoped_flow_key_rank a = scoped_flow_key_rank b \<longleftrightarrow> a = b"
  by (cases a; cases b) (auto simp: scoped_flow_key_rank_def)

instantiation scoped_flow_key :: linorder
begin

definition less_eq_scoped_flow_key :: "scoped_flow_key \<Rightarrow> scoped_flow_key \<Rightarrow> bool" where
  "less_eq_scoped_flow_key a b \<longleftrightarrow> scoped_flow_key_rank a \<le> scoped_flow_key_rank b"

definition less_scoped_flow_key :: "scoped_flow_key \<Rightarrow> scoped_flow_key \<Rightarrow> bool" where
  "less_scoped_flow_key a b \<longleftrightarrow> scoped_flow_key_rank a < scoped_flow_key_rank b"

instance
  by standard (auto simp: less_eq_scoped_flow_key_def less_scoped_flow_key_def order.strict_iff_order intro: order_antisym)

end

lemma scoped_flow_key_reverse_reverse [simp]: "scoped_flow_key_reverse (scoped_flow_key_reverse k) = k"
  by (cases k) (auto simp: scoped_flow_key_reverse_def flow_key_reverse_def)

section \<open>Datagram keys\<close>

datatype family = Ipv4 | Ipv6

datatype ipv4_datagram_key =
  Ipv4DatagramKey (v4_scope: scope_id) (v4_source: u32) (v4_destination: u32)
    (v4_identification: u16) (v4_protocol: u8)

datatype ipv6_datagram_key =
  Ipv6DatagramKey (v6_scope: scope_id) (v6_source: "128 word") (v6_destination: "128 word")
    (v6_identification: u32)

datatype datagram_key = KeyV4 ipv4_datagram_key | KeyV6 ipv6_datagram_key

fun datagram_key_family :: "datagram_key \<Rightarrow> family" where
  "datagram_key_family (KeyV4 _) = Ipv4"
| "datagram_key_family (KeyV6 _) = Ipv6"

fun datagram_key_rank :: "datagram_key \<Rightarrow> nat \<times> scope_id \<times> nat \<times> nat \<times> nat \<times> nat" where
  "datagram_key_rank (KeyV4 k) =
     (0, v4_scope k, unat (v4_source k), unat (v4_destination k),
      unat (v4_identification k), unat (v4_protocol k))"
| "datagram_key_rank (KeyV6 k) =
     (1, v6_scope k, unat (v6_source k), unat (v6_destination k), unat (v6_identification k), 0)"

lemma datagram_key_rank_inject [simp]: "datagram_key_rank a = datagram_key_rank b \<longleftrightarrow> a = b"
  by (cases a; cases b) (auto dest!: unsigned_word_eqI intro: ipv4_datagram_key.expand ipv6_datagram_key.expand)

instantiation datagram_key :: linorder
begin

definition less_eq_datagram_key :: "datagram_key \<Rightarrow> datagram_key \<Rightarrow> bool" where
  "less_eq_datagram_key a b \<longleftrightarrow> datagram_key_rank a \<le> datagram_key_rank b"

definition less_datagram_key :: "datagram_key \<Rightarrow> datagram_key \<Rightarrow> bool" where
  "less_datagram_key a b \<longleftrightarrow> datagram_key_rank a < datagram_key_rank b"

instance
  by standard (auto simp: less_eq_datagram_key_def less_datagram_key_def order.strict_iff_order intro: order_antisym)

end

section \<open>The transport checksum\<close>

datatype checksum_error = SegmentLengthOverflow | Ipv4SegmentLength | Ipv6SegmentLength | MixedVersions

definition total_length :: "bytes list \<Rightarrow> usize option" where
  "total_length parts =
     foldl (\<lambda>total part. Option.bind total (\<lambda>t. checked_add t (length part))) (Some 0) parts"

definition transport_checksum_parts ::
    "ip_addr \<Rightarrow> ip_addr \<Rightarrow> u8 \<Rightarrow> bytes list \<Rightarrow> (checksum_error, u16) outcome" where
  "transport_checksum_parts src dst protocol_number parts =
     let_ok (ok_or (total_length parts) SegmentLengthOverflow) (\<lambda>transport_length.
     let_ok
       (case (src, dst) of
          (V4 _, V4 _) \<Rightarrow>
            let_ok (ensure (transport_length \<le> 65535) Ipv4SegmentLength) (\<lambda>_.
              Ok [octets src, octets dst, [0, protocol_number], be_bytes 2 transport_length])
        | (V6 _, V6 _) \<Rightarrow>
            let_ok (ensure (transport_length \<le> 4294967295) Ipv6SegmentLength) (\<lambda>_.
              Ok [octets src, octets dst, be_bytes 4 transport_length, [0, 0, 0, protocol_number]])
        | _ \<Rightarrow> Err MixedVersions) (\<lambda>pseudo.
     Ok (checksum_finish (foldl checksum_add (foldl checksum_add checksum_default pseudo) parts))))"

lemma total_length_fold:
  assumes "a \<le> usize_max"
  shows "foldl (\<lambda>total part. Option.bind total (\<lambda>t. checked_add t (length part))) (Some a) parts =
     (if a + length (concat parts) \<le> usize_max then Some (a + length (concat parts)) else None)"
  using assms
proof (induction parts arbitrary: a)
  case (Cons p ps)
  have none: "foldl (\<lambda>total part. Option.bind total (\<lambda>t. checked_add t (length part))) None ps = None"
    by (induction ps) auto
  show ?case
  proof (cases "a + length p \<le> usize_max")
    case True
    with Cons.IH [of "a + length p"] show ?thesis
      by (simp add: checked_add_def add.assoc)
  next
    case False
    with none show ?thesis
      by (simp add: checked_add_def)
  qed
qed simp

lemma total_length_eq:
  "total_length parts = (if length (concat parts) \<le> usize_max then Some (length (concat parts)) else None)"
  by (simp add: total_length_def total_length_fold)

text \<open>
  The checksum is RFC 1071 over the pseudo-header followed by the segment, and it is refused exactly
  when the address families differ or the segment does not fit the pseudo-header's length field.
\<close>

lemma transport_checksum_v4:
  assumes "length (concat parts) \<le> 65535"
  shows "transport_checksum_parts (V4 s) (V4 d) p parts =
    Ok (rfc1071 (be_bytes 4 (unat s) @ be_bytes 4 (unat d) @ [0, p]
      @ be_bytes 2 (length (concat parts)) @ concat parts))"
proof -
  have "length (concat parts) \<le> usize_max"
    using assms by (simp add: usize_max_def)
  then show ?thesis
    using assms checksum_parts_rfc1071 [of
      "[octets (V4 s), octets (V4 d), [0, p], be_bytes 2 (length (concat parts))] @ parts"]
    by (simp add: transport_checksum_parts_def total_length_eq checksum_parts_def del: be_bytes.simps)
qed

end
