(* ===== verification/Ordered_Map.thy ===== *)
theory Ordered_Map
  imports Prelude
begin

text \<open>
  The maps of the Rust code. \<open>BTreeMap\<close> is a list of entries in strictly increasing key order with
  the operations the reassemblers call on it; \<open>HashMap\<close> has the same model: the TCP engine sorts
  the keys it collects before it uses them, and where the IP engine visits all entries the order is a
  parameter. The locale
  \<open>finite_map\<close> is the contract both engines rely on: what a lookup returns after an update and how
  an aggregate over all entries (the retained bytes, the memory charge) moves when one entry does.
\<close>

section \<open>The model\<close>

type_synonym ('k, 'v) btree = "('k \<times> 'v) list"

definition btree_ok :: "('k::linorder, 'v) btree \<Rightarrow> bool" where
  "btree_ok m \<longleftrightarrow> sorted_wrt (<) (map fst m)"

definition bt_get :: "('k, 'v) btree \<Rightarrow> 'k \<Rightarrow> 'v option" where
  "bt_get m = map_of m"

fun bt_insert :: "'k::linorder \<Rightarrow> 'v \<Rightarrow> ('k, 'v) btree \<Rightarrow> ('k, 'v) btree" where
  "bt_insert k v [] = [(k, v)]"
| "bt_insert k v ((k', v') # m) =
     (if k < k' then (k, v) # (k', v') # m
      else if k = k' then (k, v) # m
      else (k', v') # bt_insert k v m)"

definition bt_remove :: "'k \<Rightarrow> ('k, 'v) btree \<Rightarrow> ('k, 'v) btree" where
  "bt_remove k m = filter (\<lambda>e. fst e \<noteq> k) m"

text \<open>\<open>range(..k).next_back()\<close>, \<open>range(k..)\<close>, \<open>range(a..=b)\<close>, first and last entry.\<close>

definition bt_last_before :: "('k::linorder, 'v) btree \<Rightarrow> 'k \<Rightarrow> ('k \<times> 'v) option" where
  "bt_last_before m k =
     (case filter (\<lambda>e. fst e < k) m of [] \<Rightarrow> None | es \<Rightarrow> Some (last es))"

definition bt_from :: "('k::linorder, 'v) btree \<Rightarrow> 'k \<Rightarrow> ('k \<times> 'v) list" where
  "bt_from m k = filter (\<lambda>e. k \<le> fst e) m"

definition bt_between :: "('k::linorder, 'v) btree \<Rightarrow> 'k \<Rightarrow> 'k \<Rightarrow> ('k \<times> 'v) list" where
  "bt_between m a b = filter (\<lambda>e. a \<le> fst e \<and> fst e \<le> b) m"

definition bt_first :: "('k, 'v) btree \<Rightarrow> ('k \<times> 'v) option" where
  "bt_first m = (case m of [] \<Rightarrow> None | e # _ \<Rightarrow> Some e)"

definition bt_last :: "('k, 'v) btree \<Rightarrow> ('k \<times> 'v) option" where
  "bt_last m = (case m of [] \<Rightarrow> None | _ \<Rightarrow> Some (last m))"

text \<open>An aggregate over all entries of a map.\<close>

definition map_total :: "('v \<Rightarrow> nat) \<Rightarrow> ('k \<Rightarrow> 'v option) \<Rightarrow> nat" where
  "map_total f m = (\<Sum>k\<in>dom m. f (the (m k)))"

section \<open>The contract\<close>

locale finite_map =
  fixes emp :: "'m"
    and get :: "'m \<Rightarrow> 'k \<Rightarrow> 'v option"
    and put :: "'k \<Rightarrow> 'v \<Rightarrow> 'm \<Rightarrow> 'm"
    and del :: "'k \<Rightarrow> 'm \<Rightarrow> 'm"
    and count :: "'m \<Rightarrow> nat"
    and ok :: "'m \<Rightarrow> bool"
  assumes get_emp: "get emp k = None"
    and get_put: "ok m \<Longrightarrow> get (put k v m) = (get m)(k \<mapsto> v)"
    and get_del: "ok m \<Longrightarrow> get (del k m) = (get m)(k := None)"
    and finite_dom: "finite (dom (get m))"
    and count_dom: "ok m \<Longrightarrow> count m = card (dom (get m))"
    and ok_emp: "ok emp"
    and ok_put: "ok m \<Longrightarrow> ok (put k v m)"
    and ok_del: "ok m \<Longrightarrow> ok (del k m)"
begin

lemmas map_laws = get_emp get_put get_del ok_emp ok_put ok_del

lemma total_emp: "map_total f (get emp) = 0"
proof -
  have "dom (get emp) = {}"
    by (auto simp: get_emp)
  then show ?thesis
    by (simp add: map_total_def)
qed

lemma total_del:
  assumes "ok m"
  shows "map_total f (get m) = map_total f (get (del k m)) + (case get m k of None \<Rightarrow> 0 | Some v \<Rightarrow> f v)"
proof (cases "get m k")
  case None
  then have "(get m)(k := None) = get m"
    by auto
  with None assms show ?thesis
    by (simp add: get_del)
next
  case (Some v)
  have "map_total f (get m) = f v + (\<Sum>j\<in>dom (get m) - {k}. f (the (get m j)))"
    using Some sum.remove [OF finite_dom [of m], of k "\<lambda>j. f (the (get m j))"]
    by (auto simp: map_total_def)
  moreover have "map_total f (get (del k m)) = (\<Sum>j\<in>dom (get m) - {k}. f (the (get m j)))"
    using assms by (auto simp: map_total_def get_del intro!: sum.cong)
  ultimately show ?thesis
    using Some by simp
qed

lemma total_put:
  assumes "ok m"
  shows "map_total f (get (put k v m)) = map_total f (get (del k m)) + f v"
proof -
  have "get (del k (put k v m)) = get (del k m)"
    using assms by (auto simp: get_del get_put ok_put fun_eq_iff)
  then show ?thesis
    using assms total_del [OF ok_put [OF assms], of f k v k] by (simp add: get_put)
qed

lemma count_del:
  assumes "ok m"
  shows "count (del k m) = (if get m k = None then count m else count m - 1)"
proof -
  have "dom ((get m)(k := None)) = dom (get m) - {k}"
    by auto
  then show ?thesis
    using assms finite_dom [of m]
    by (auto simp: count_dom ok_del get_del card_Diff_singleton_if dom_def)
qed

lemma count_put:
  assumes "ok m"
  shows "count (put k v m) = (if get m k = None then count m + 1 else count m)"
  using assms finite_dom [of m]
  by (auto simp: count_dom ok_put get_put card_insert_if domIff)

lemma count_pos: "ok m \<Longrightarrow> get m k = Some v \<Longrightarrow> 0 < count m"
  using finite_dom [of m] by (auto simp: count_dom card_gt_0_iff)

end

section \<open>The model meets the contract\<close>

lemma btree_ok_Nil [simp]: "btree_ok []"
  by (simp add: btree_ok_def)

lemma btree_ok_Cons:
  "btree_ok ((k, v) # m) \<longleftrightarrow> (\<forall>k'\<in>fst ` set m. k < k') \<and> btree_ok m"
  by (auto simp: btree_ok_def)

lemma btree_ok_append:
  "btree_ok (m @ m') \<longleftrightarrow> btree_ok m \<and> btree_ok m' \<and> (\<forall>k\<in>fst ` set m. \<forall>k'\<in>fst ` set m'. k < k')"
  by (auto simp: btree_ok_def sorted_wrt_append)

lemma btree_ok_distinct: "btree_ok m \<Longrightarrow> distinct (map fst m)"
  by (auto simp: btree_ok_def strict_sorted_iff)

lemma btree_ok_filter: "btree_ok m \<Longrightarrow> btree_ok (filter P m)"
proof (induction m)
  case Nil
  then show ?case by simp
next
  case (Cons e m)
  then show ?case by (cases e) (auto simp: btree_ok_Cons)
qed

lemma set_keys_bt_insert: "fst ` set (bt_insert k v m) = insert k (fst ` set m)"
  by (induction k v m rule: bt_insert.induct) auto

lemma btree_ok_bt_insert: "btree_ok m \<Longrightarrow> btree_ok (bt_insert k v m)"
  by (induction k v m rule: bt_insert.induct) (auto simp: btree_ok_Cons set_keys_bt_insert)

lemma map_of_bt_insert: "btree_ok m \<Longrightarrow> map_of (bt_insert k v m) = (map_of m)(k \<mapsto> v)"
  by (induction k v m rule: bt_insert.induct) (auto simp: btree_ok_Cons fun_eq_iff)

lemma map_of_bt_remove: "map_of (bt_remove k m) = (map_of m)(k := None)"
  by (induction m) (auto simp: bt_remove_def)

lemma bt_get_mem_iff: "btree_ok m \<Longrightarrow> bt_get m k = Some v \<longleftrightarrow> (k, v) \<in> set m"
  by (simp add: bt_get_def btree_ok_distinct)

lemma bt_insert_twice: "bt_insert k v (bt_insert k w m) = bt_insert k v m"
  by (induction k w m rule: bt_insert.induct) auto

lemma bt_insert_same:
  assumes "btree_ok m" and "bt_get m k = Some v"
  shows "bt_insert k v m = m"
  using assms by (induction k v m rule: bt_insert.induct) (force simp: btree_ok_Cons bt_get_def dest!: map_of_SomeD)+

lemma dom_bt_get: "dom (bt_get m) = fst ` set m"
  by (simp add: bt_get_def dom_map_of_conv_image_fst)

interpretation btree: finite_map
  "[] :: ('k::linorder, 'v) btree" bt_get bt_insert bt_remove length btree_ok
proof
  fix m :: "('k, 'v) btree" and k :: 'k and v :: 'v
  show "bt_get [] k = None"
    by (simp add: bt_get_def)
  show "finite (dom (bt_get m))"
    by (simp add: dom_bt_get)
  show "btree_ok []"
    by simp
  assume ok: "btree_ok m"
  show "bt_get (bt_insert k v m) = (bt_get m)(k \<mapsto> v)"
    using ok by (simp add: bt_get_def map_of_bt_insert)
  show "bt_get (bt_remove k m) = (bt_get m)(k := None)"
    by (simp add: bt_get_def map_of_bt_remove)
  show "length m = card (dom (bt_get m))"
    using btree_ok_distinct [OF ok] by (metis dom_bt_get distinct_card length_map set_map)
  show "btree_ok (bt_insert k v m)"
    using ok by (rule btree_ok_bt_insert)
  show "btree_ok (bt_remove k m)"
    using ok by (simp add: bt_remove_def btree_ok_filter)
qed

lemma map_total_bt_get:
  assumes "btree_ok m"
  shows "map_total f (bt_get m) = (\<Sum>(k, v)\<leftarrow>m. f v)"
  using assms
proof (induction m)
  case Nil
  then show ?case
    by (simp add: map_total_def dom_bt_get)
next
  case (Cons e m)
  obtain k v where e: "e = (k, v)"
    by fastforce
  have "bt_remove k ((k, v) # m) = m"
    using Cons.prems e by (auto simp: bt_remove_def btree_ok_Cons filter_id_conv)
  then show ?case
    using Cons btree.total_del [of "(k, v) # m" f k] e
    by (simp add: btree_ok_Cons) (simp add: bt_get_def)
qed

section \<open>Order queries\<close>

lemma bt_last_before_None: "bt_last_before m k = None \<longleftrightarrow> (\<forall>e\<in>set m. k \<le> fst e)"
proof -
  have "bt_last_before m k = None \<longleftrightarrow> filter (\<lambda>e. fst e < k) m = []"
    by (simp add: bt_last_before_def split: list.splits)
  then show ?thesis
    by (auto simp: filter_empty_conv not_less)
qed

lemma bt_last_before_SomeD:
  assumes "btree_ok m" and "bt_last_before m k = Some (a, v)"
  shows "(a, v) \<in> set m" and "a < k" and "\<And>b w. (b, w) \<in> set m \<Longrightarrow> b < k \<Longrightarrow> b \<le> a"
proof -
  let ?es = "filter (\<lambda>e. fst e < k) m"
  have ne: "?es \<noteq> []" and lst: "last ?es = (a, v)"
    using assms(2) by (auto simp: bt_last_before_def split: list.splits)
  have "(a, v) \<in> set ?es"
    using last_in_set [OF ne] lst by simp
  then show "(a, v) \<in> set m" "a < k"
    by auto
  have split: "?es = butlast ?es @ [(a, v)]"
    using ne lst by (metis append_butlast_last_id)
  have ok: "btree_ok ?es"
    using assms(1) by (rule btree_ok_filter)
  fix b w
  assume "(b, w) \<in> set m" and "b < k"
  then have "(b, w) \<in> set ?es"
    by simp
  then consider "(b, w) \<in> set (butlast ?es)" | "(b, w) = (a, v)"
    using split by (metis in_set_butlastD rotate1.simps(2) set_ConsD set_rotate1)
  then show "b \<le> a"
  proof cases
    case 1
    have "btree_ok (butlast ?es @ [(a, v)])"
      using ok split by metis
    with 1 show ?thesis
      by (force simp: btree_ok_append)
  qed simp
qed

end
