(* ===== verification/Expiry.thy ===== *)
theory Expiry
  imports Ordered_Map "HOL-Library.Product_Lexorder"
begin

text \<open>
  The deadline index both reassemblers keep (\<open>analysis/reassembly/expiry.rs\<close>): keys ordered by
  deadline, then key. A \<open>BTreeSet\<close> is a \<open>BTreeMap\<close> to the unit type. An \<open>Instant\<close> is a number of
  nanoseconds on the monotonic clock; \<open>checked_add\<close> fails past the largest value its signed 64-bit
  second counter holds.
\<close>

section \<open>The clock\<close>

type_synonym instant = nat
type_synonym duration = nat

definition instant_max :: instant where
  "instant_max = 2 ^ 63 * 10 ^ 9 - 1"

definition instant_checked_add :: "instant \<Rightarrow> duration \<Rightarrow> instant option" where
  "instant_checked_add t d = (if t + d \<le> instant_max then Some (t + d) else None)"

datatype limit_constraint = WithinClockRange | BelowSerialHalfSpace

text \<open>\<open>InvalidLimit { field, value, reason }\<close> of \<open>analysis::Error\<close>.\<close>

datatype analysis_error = InvalidLimit string u64 limit_constraint

text \<open>\<open>violation\<close> reads the system clock; its reading is the argument \<open>now\<close>.\<close>

definition expiry_violation :: "instant \<Rightarrow> duration \<Rightarrow> (u64 \<times> limit_constraint) option" where
  "expiry_violation now expiry =
     (if instant_checked_add now expiry = None
      then Some (min (expiry div 1000000) usize_max, WithinClockRange) else None)"

section \<open>The index\<close>

type_synonym 'k expiry_index = "(instant \<times> 'k, unit) btree"

definition expiry_insert :: "instant option \<Rightarrow> 'k::linorder \<Rightarrow> 'k expiry_index \<Rightarrow> 'k expiry_index" where
  "expiry_insert deadline key index =
     (case deadline of None \<Rightarrow> index | Some d \<Rightarrow> bt_insert (d, key) () index)"

definition expiry_remove :: "instant option \<Rightarrow> 'k::linorder \<Rightarrow> 'k expiry_index \<Rightarrow> 'k expiry_index" where
  "expiry_remove deadline key index =
     (case deadline of None \<Rightarrow> index | Some d \<Rightarrow> bt_remove (d, key) index)"

text \<open>
  \<open>drain_expired\<close> pops the first entry while its deadline has passed and visits its key; the visits
  happen in the order of the returned list.
\<close>

fun drain_expired :: "instant \<Rightarrow> 'k expiry_index \<Rightarrow> 'k list \<times> 'k expiry_index" where
  "drain_expired now [] = ([], [])"
| "drain_expired now (((deadline, key), u) # index) =
     (if deadline \<le> now
      then (let (keys, rest) = drain_expired now index in (key # keys, rest))
      else ([], ((deadline, key), u) # index))"

definition take_expired :: "instant \<Rightarrow> 'k expiry_index \<Rightarrow> 'k list \<times> 'k expiry_index" where
  "take_expired now index = drain_expired now index"

definition expiry_entries :: "'k expiry_index \<Rightarrow> (instant \<times> 'k) set" where
  "expiry_entries index = fst ` set index"

section \<open>The contract with the tables\<close>

text \<open>
  An index mirrors a table when it holds exactly the deadlines of the table's entries. The laws an
  index promises are enough to keep that through every way the engines change a table.
\<close>

definition mirrors :: "(instant \<times> 'k) set \<Rightarrow> ('k \<Rightarrow> 's option) \<Rightarrow> ('s \<Rightarrow> instant option) \<Rightarrow> bool" where
  "mirrors entries table deadline \<longleftrightarrow>
     entries = {(d, k). \<exists>s. table k = Some s \<and> deadline s = Some d}"

locale deadline_index =
  fixes insert_key :: "instant option \<Rightarrow> 'k \<Rightarrow> 'i \<Rightarrow> 'i"
    and remove_key :: "instant option \<Rightarrow> 'k \<Rightarrow> 'i \<Rightarrow> 'i"
    and drain :: "instant \<Rightarrow> 'i \<Rightarrow> 'k list \<times> 'i"
    and entries :: "'i \<Rightarrow> (instant \<times> 'k) set"
    and index_ok :: "'i \<Rightarrow> bool"
  assumes entries_insert: "index_ok i \<Longrightarrow>
      entries (insert_key d k i) = entries i \<union> {(t, k) |t. d = Some t}"
    and entries_remove: "index_ok i \<Longrightarrow>
      entries (remove_key d k i) = entries i - {(t, k) |t. d = Some t}"
    and drain_keys: "index_ok i \<Longrightarrow> drain now i = (ks, i') \<Longrightarrow> set ks = {k. \<exists>d\<le>now. (d, k) \<in> entries i}"
    and drain_rest: "index_ok i \<Longrightarrow> drain now i = (ks, i') \<Longrightarrow> entries i' = {(d, k) \<in> entries i. now < d}"
    and ok_insert: "index_ok i \<Longrightarrow> index_ok (insert_key d k i)"
    and ok_remove: "index_ok i \<Longrightarrow> index_ok (remove_key d k i)"
    and ok_drain: "index_ok i \<Longrightarrow> drain now i = (ks, i') \<Longrightarrow> index_ok i'"
begin

text \<open>An entry is stored: its previous deadline, if any, is exchanged for the new one.\<close>

lemma mirrors_store:
  assumes "index_ok i" and "mirrors (entries i) table deadline"
    and "d = Option.bind (table k) deadline"
  shows "mirrors (entries (insert_key (deadline s) k (remove_key d k i))) (table(k \<mapsto> s)) deadline"
  using assms by (auto simp: mirrors_def entries_insert entries_remove ok_remove split: if_splits)

lemma mirrors_store_same:
  assumes "mirrors (entries i) table deadline"
    and "deadline s = Option.bind (table k) deadline"
  shows "mirrors (entries i) (table(k \<mapsto> s)) deadline"
  using assms by (auto simp: mirrors_def bind_eq_Some_conv split: if_splits)

lemma mirrors_drop:
  assumes "index_ok i" and "mirrors (entries i) table deadline"
    and "d = Option.bind (table k) deadline"
  shows "mirrors (entries (remove_key d k i)) (table(k := None)) deadline"
  using assms by (auto simp: mirrors_def entries_remove split: if_splits)

text \<open>Draining removes exactly the keys whose deadline has passed.\<close>

lemma mirrors_drain:
  assumes "index_ok i" and "mirrors (entries i) table deadline" and "drain now i = (ks, i')"
  shows "set ks = {k. \<exists>s d. table k = Some s \<and> deadline s = Some d \<and> d \<le> now}"
    and "mirrors (entries i') (table |` (- set ks)) deadline"
proof -
  show ks: "set ks = {k. \<exists>s d. table k = Some s \<and> deadline s = Some d \<and> d \<le> now}"
    using drain_keys [OF assms(1,3)] assms(2) by (auto simp: mirrors_def)
  show "mirrors (entries i') (table |` (- set ks)) deadline"
    using drain_rest [OF assms(1,3)] assms(2) ks
    by (auto simp: mirrors_def restrict_map_def not_le split: if_splits)
qed

end

section \<open>The index meets it\<close>

lemma drain_expired_split:
  "drain_expired now index = (ks, rest) \<Longrightarrow>
     \<exists>gone. index = gone @ rest \<and> ks = map (snd \<circ> fst) gone
       \<and> (\<forall>e\<in>set gone. fst (fst e) \<le> now) \<and> (rest \<noteq> [] \<longrightarrow> now < fst (fst (hd rest)))"
proof (induction now index arbitrary: ks rule: drain_expired.induct)
  case (2 now deadline key u index)
  show ?case
  proof (cases "deadline \<le> now")
    case True
    obtain ks' r where d: "drain_expired now index = (ks', r)"
      by fastforce
    with 2 True obtain gone where "index = gone @ rest" "ks' = map (snd \<circ> fst) gone"
      "\<forall>e\<in>set gone. fst (fst e) \<le> now" "rest \<noteq> [] \<longrightarrow> now < fst (fst (hd rest))" "ks = key # ks'"
      by (auto simp: d)
    with True show ?thesis
      by (intro exI [of _ "((deadline, key), u) # gone"]) simp
  next
    case False
    with 2 show ?thesis
      by auto
  qed
qed simp

lemma btree_ok_deadlines:
  assumes "btree_ok (e # index :: ('k::linorder) expiry_index)" and "x \<in> set (e # index)"
  shows "fst (fst e) \<le> fst (fst x)"
  using assms by (cases e; cases x) (auto simp: btree_ok_Cons less_prod_def')

lemma deadline_partition:
  fixes now :: instant
  assumes "E = G \<union> R" and "\<forall>e\<in>G. fst e \<le> now" and "\<forall>e\<in>R. now < fst e"
  shows "snd ` G = {k. \<exists>d\<le>now. (d, k) \<in> E}" and "R = {(d, k) \<in> E. now < d}"
proof -
  show "R = {(d, k) \<in> E. now < d}"
    using assms by (auto dest: leD)
  show "snd ` G = {k. \<exists>d\<le>now. (d, k) \<in> E}"
  proof (intro set_eqI iffI)
    fix k
    assume "k \<in> snd ` G"
    then obtain d where "(d, k) \<in> G"
      by auto
    with assms show "k \<in> {k. \<exists>d\<le>now. (d, k) \<in> E}"
      by auto
  next
    fix k
    assume "k \<in> {k. \<exists>d\<le>now. (d, k) \<in> E}"
    then obtain d where d: "d \<le> now" "(d, k) \<in> E"
      by auto
    then have "(d, k) \<in> G"
      using assms by auto
    then show "k \<in> snd ` G"
      by force
  qed
qed

lemma drain_expired_entries:
  assumes "btree_ok (index :: ('k::linorder) expiry_index)" and "drain_expired now index = (ks, rest)"
  shows "set ks = {k. \<exists>d\<le>now. (d, k) \<in> expiry_entries index}"
    and "expiry_entries rest = {(d, k) \<in> expiry_entries index. now < d}"
    and "btree_ok rest"
proof -
  obtain gone where g: "index = gone @ rest" "ks = map (snd \<circ> fst) gone"
      "\<forall>e\<in>set gone. fst (fst e) \<le> now" "rest \<noteq> [] \<longrightarrow> now < fst (fst (hd rest))"
    using drain_expired_split [OF assms(2)] by blast
  then show ok: "btree_ok rest"
    using assms(1) by (simp add: btree_ok_append)
  have late: "now < fst (fst e)" if "e \<in> set rest" for e
    using that g(4) ok btree_ok_deadlines [of "hd rest" "tl rest" e] by (cases rest) auto
  have split: "expiry_entries index = fst ` set gone \<union> fst ` set rest"
    using g(1) by (auto simp: expiry_entries_def)
  have "\<forall>e\<in>fst ` set gone. fst e \<le> now" and "\<forall>e\<in>fst ` set rest. now < fst e"
    using g(3) late by auto
  note parts = deadline_partition [OF split this]
  show "set ks = {k. \<exists>d\<le>now. (d, k) \<in> expiry_entries index}"
    using parts(1) g(2) by (simp add: image_comp)
  show "expiry_entries rest = {(d, k) \<in> expiry_entries index. now < d}"
    using parts(2) by (simp add: expiry_entries_def)
qed

interpretation expiry: deadline_index
  "expiry_insert :: instant option \<Rightarrow> ('k::linorder) \<Rightarrow> 'k expiry_index \<Rightarrow> 'k expiry_index"
  expiry_remove drain_expired expiry_entries btree_ok
proof
  fix i i' :: "'k expiry_index" and d k now ks
  assume ok: "btree_ok i"
  show "expiry_entries (expiry_insert d k i) = expiry_entries i \<union> {(t, k) |t. d = Some t}"
    by (auto simp: expiry_insert_def expiry_entries_def set_keys_bt_insert split: option.splits)
  show "expiry_entries (expiry_remove d k i) = expiry_entries i - {(t, k) |t. d = Some t}"
    by (auto simp: expiry_remove_def expiry_entries_def bt_remove_def split: option.splits)
  show "btree_ok (expiry_insert d k i)"
    using ok by (simp add: expiry_insert_def btree_ok_bt_insert split: option.splits)
  show "btree_ok (expiry_remove d k i)"
    using ok by (simp add: expiry_remove_def bt_remove_def btree_ok_filter split: option.splits)
  assume dr: "drain_expired now i = (ks, i')"
  show "set ks = {k. \<exists>d\<le>now. (d, k) \<in> expiry_entries i}"
    "expiry_entries i' = {(d, k) \<in> expiry_entries i. now < d}" "btree_ok i'"
    using drain_expired_entries [OF ok dr] by simp_all
qed

lemma mirrors_empty [simp]: "mirrors (expiry_entries []) (bt_get []) deadline"
  by (simp add: mirrors_def expiry_entries_def bt_get_def)

end
