(* ===== verification/Serial.thy ===== *)
theory Serial
  imports Prelude
begin

text \<open>
  RFC 1982 serial-number arithmetic over the 32-bit TCP sequence space
  (\<open>analysis/serial.rs\<close>): comparison and signed offset of two sequence numbers that may wrap.
\<close>

section \<open>The operations\<close>

definition SERIAL_HALF :: u32 where
  "SERIAL_HALF = 0x80000000"

definition serial_ge :: "u32 \<Rightarrow> u32 \<Rightarrow> bool" where
  "serial_ge value base \<longleftrightarrow> value - base < SERIAL_HALF"

definition serial_gt :: "u32 \<Rightarrow> u32 \<Rightarrow> bool" where
  "serial_gt value base =
     (let delta = value - base in delta \<noteq> 0 \<and> delta < SERIAL_HALF)"

definition serial_offset :: "u32 \<Rightarrow> u32 \<Rightarrow> int" where
  "serial_offset value base = sint (value - base)"

definition serial_range_contains :: "u32 option \<Rightarrow> u32 option \<Rightarrow> u32 \<Rightarrow> bool option" where
  "serial_range_contains base next value =
     (case (base, next) of
        (Some base, Some next) \<Rightarrow> Some (serial_ge value base \<and> serial_ge next value)
      | _ \<Rightarrow> None)"

section \<open>Their laws\<close>

text \<open>The offset lies in the signed 32-bit range and determines the value.\<close>

lemma serial_offset_range: "- (2 ^ 31) \<le> serial_offset v b" "serial_offset v b < 2 ^ 31"
  using sint_range_size [of "v - b"] by (simp_all add: serial_offset_def word_size)

lemma serial_offset_inverse: "b + word_of_int (serial_offset v b) = v"
  by (simp add: serial_offset_def)

lemma serial_offset_of_int:
  assumes "- (2 ^ 31) \<le> d" and "d < 2 ^ 31"
  shows "serial_offset (b + word_of_int d) b = d"
proof -
  have "sint (word_of_int d :: u32) = d"
    using assms by (subst int_word_sint) simp
  then show ?thesis
    by (simp add: serial_offset_def)
qed

lemma sint_u32: "sint (w :: u32) = (if uint w < 2 ^ 31 then uint w else uint w - 2 ^ 32)"
proof -
  have "sint w = (uint w + 2 ^ 31) mod 2 ^ 32 - 2 ^ 31"
    using int_word_sint [of "uint w", where ?'a = 32] by simp
  moreover have "0 \<le> uint w" "uint w < 2 ^ 32"
    using uint_lt2p [of w] by simp_all
  ultimately show ?thesis
    by (auto simp: mod_pos_pos_trivial)
      (smt (verit, best) minus_mod_self2 mod_pos_pos_trivial)
qed

lemma less_SERIAL_HALF: "w < SERIAL_HALF \<longleftrightarrow> uint w < 2 ^ 31"
  by (simp add: SERIAL_HALF_def word_less_def)

lemma serial_ge_offset: "serial_ge v b \<longleftrightarrow> 0 \<le> serial_offset v b"
proof -
  have "uint (v - b) < 2 ^ 32"
    using uint_lt2p [of "v - b"] by simp
  then show ?thesis
    by (auto simp: serial_ge_def less_SERIAL_HALF serial_offset_def sint_u32)
qed

lemma serial_gt_offset: "serial_gt v b \<longleftrightarrow> 0 < serial_offset v b"
proof -
  have "serial_offset v b = 0 \<longleftrightarrow> v - b = 0"
    using serial_offset_inverse [of b v] by (metis add.right_neutral diff_self of_int_0 serial_offset_def signed_0)
  then have "serial_gt v b \<longleftrightarrow> serial_ge v b \<and> serial_offset v b \<noteq> 0"
    by (auto simp: serial_gt_def serial_ge_def Let_def)
  then show ?thesis
    by (auto simp: serial_ge_offset)
qed

text \<open>
  Stream positions: a sequence number is the base plus a position modulo \<open>2\<^sup>3\<^sup>2\<close>. Two positions less
  than half the space apart are compared correctly, however often the sequence space wrapped.
\<close>

lemma serial_offset_positions:
  assumes "\<bar>int t - int n\<bar> < 2 ^ 31"
  shows "serial_offset (b + of_nat t) (b + of_nat n) = int t - int n"
proof -
  have "b + of_nat t = (b + of_nat n) + (word_of_int (int t - int n) :: u32)"
    by (simp add: of_int_diff)
  then show ?thesis
    using assms serial_offset_of_int [of "int t - int n" "b + of_nat n"] by simp
qed

theorem serial_ge_positions:
  assumes "\<bar>int t - int n\<bar> < 2 ^ 31"
  shows "serial_ge (b + of_nat t) (b + of_nat n) \<longleftrightarrow> n \<le> t"
  using serial_offset_positions [OF assms] by (simp add: serial_ge_offset)

lemma serial_range_contains_positions:
  assumes "n < 2 ^ 31" and "t < 2 ^ 32"
  shows "serial_range_contains (Some b) (Some (b + of_nat n)) (b + of_nat t) = Some (t \<le> n)"
proof (cases "t < 2 ^ 31")
  case True
  then have "serial_ge (b + of_nat t) (b + of_nat 0)"
    by (subst serial_ge_positions) simp_all
  moreover have "serial_ge (b + of_nat n) (b + of_nat t) \<longleftrightarrow> t \<le> n"
    using assms True by (subst serial_ge_positions) auto
  ultimately show ?thesis
    by (simp add: serial_range_contains_def)
next
  case False
  have "uint (of_nat t :: u32) = int t"
    using assms by (simp add: uint_nat take_bit_nat_eq_self unat_of_nat)
  then have "\<not> serial_ge (b + of_nat t) b"
    using False by (simp add: serial_ge_def less_SERIAL_HALF)
  then show ?thesis
    using False assms by (simp add: serial_range_contains_def)
qed

end
