(* ===== verification/Tcp_Model.thy ===== *)
theory Tcp_Model
  imports Keys Expiry Serial
begin

text \<open>
  The vocabulary of TCP reassembly (\<open>analysis/reassembly/tcp.rs\<close>, \<open>tcp/model.rs\<close>,
  \<open>tcp/limits.rs\<close>): segments, events, errors and limits.

  Every fallible allocation of the engine is an \<open>alloc_site\<close>. Which allocations succeed is a
  parameter \<open>alloc\<close> of each push, a function of the site and the requested size, so the theorems hold
  whatever the allocator does; within one push every site is asked at most once.
\<close>

section \<open>Segments and events\<close>

record segment =
  seg_flow :: scoped_flow_key
  seg_sequence :: u32
  seg_payload :: bytes
  seg_syn :: bool
  seg_fin :: bool
  seg_rst :: bool

datatype event =
    Data scoped_flow_key u32 bytes
  | Retransmission scoped_flow_key u32 usize bool "(u32 \<times> u32) list"
  | Gap scoped_flow_key u32 u32
  | Closed scoped_flow_key bool
  | Evicted scoped_flow_key usize

section \<open>Errors\<close>

datatype tcp_resource =
    FlowLimit usize
  | SegmentLimit usize
  | FlowByteLimit usize
  | AggregateByteLimit usize
  | TcpAllocationFailed usize

datatype tcp_malformed =
    ConflictingFinalSequence u64 u64
  | BeyondFinalSequence u64

datatype tcp_error = TcpResource tcp_resource | TcpMalformed tcp_malformed

datatype alloc_site = AllocHistory | AllocPage u64 | AllocOutput

type_synonym allocator = "alloc_site \<Rightarrow> usize \<Rightarrow> bool"

section \<open>Limits\<close>

definition PENDING_SEGMENT_METADATA_CHARGE :: usize where
  "PENDING_SEGMENT_METADATA_CHARGE = 64"

definition TCP_FLOW_STATE_METADATA_CHARGE :: usize where
  "TCP_FLOW_STATE_METADATA_CHARGE = 256"

definition MAX_BYTES_PER_FLOW :: usize where
  "MAX_BYTES_PER_FLOW = unat SERIAL_HALF - 1"

record tcp_limits =
  max_flows :: usize
  max_bytes_per_flow :: usize
  max_aggregate_bytes :: usize
  max_segments_per_flow :: usize
  idle_expiry :: duration

definition tcp_limits_default :: tcp_limits where
  "tcp_limits_default =
     \<lparr>max_flows = 8192, max_bytes_per_flow = 1024 * 1024,
      max_aggregate_bytes = 256 * 1024 * 1024, max_segments_per_flow = 4096,
      idle_expiry = 120 * 10 ^ 9\<rparr>"

datatype tcp_field = MaxFlows | MaxBytesPerFlow | MaxAggregateBytes | MaxSegmentsPerFlow | IdleExpiry

fun tcp_field_name :: "tcp_field \<Rightarrow> string" where
  "tcp_field_name MaxFlows = ''max_flows''"
| "tcp_field_name MaxBytesPerFlow = ''max_bytes_per_flow''"
| "tcp_field_name MaxAggregateBytes = ''max_aggregate_bytes''"
| "tcp_field_name MaxSegmentsPerFlow = ''max_segments_per_flow''"
| "tcp_field_name IdleExpiry = ''idle_expiry''"

definition tcp_violation :: "instant \<Rightarrow> tcp_limits \<Rightarrow> (tcp_field \<times> u64 \<times> limit_constraint) option" where
  "tcp_violation clock limits =
     (if max_bytes_per_flow limits > MAX_BYTES_PER_FLOW
      then Some (MaxBytesPerFlow, max_bytes_per_flow limits, BelowSerialHalfSpace)
      else map_option (\<lambda>(v, reason). (IdleExpiry, v, reason)) (expiry_violation clock (idle_expiry limits)))"

definition tcp_limits_validate :: "instant \<Rightarrow> tcp_limits \<Rightarrow> (analysis_error, unit) outcome" where
  "tcp_limits_validate clock limits =
     (case tcp_violation clock limits of
        None \<Rightarrow> Ok ()
      | Some (field, v, reason) \<Rightarrow> Err (InvalidLimit (tcp_field_name field) v reason))"

definition flow_byte_error :: "tcp_limits \<Rightarrow> tcp_error" where
  "flow_byte_error limits = TcpResource (FlowByteLimit (max_bytes_per_flow limits))"

definition aggregate_byte_error :: "tcp_limits \<Rightarrow> tcp_error" where
  "aggregate_byte_error limits = TcpResource (AggregateByteLimit (max_aggregate_bytes limits))"

text \<open>Valid limits keep the reordering window below half the sequence space.\<close>

lemma tcp_limits_validate_window:
  "tcp_limits_validate clock limits = Ok () \<Longrightarrow> max_bytes_per_flow limits < 2 ^ 31"
  by (auto simp: tcp_limits_validate_def tcp_violation_def MAX_BYTES_PER_FLOW_def SERIAL_HALF_def
      split: if_splits option.splits)

end
