(* ===== verification/Tcp_History.thy ===== *)
theory Tcp_History
  imports Tcp_Model
begin

text \<open>
  The bounded byte ring that remembers what a flow has already delivered
  (\<open>analysis/reassembly/tcp/history.rs\<close>). The ring refines a list: \<open>history_contents\<close>. The locale
  \<open>byte_window\<close> states what the flow state relies on, independent of wrapping. Indices stay below
  twice the length of one allocation, so their sums cannot overflow.
\<close>

section \<open>The ring\<close>

record history =
  h_storage :: bytes
  h_start :: usize
  h_len :: usize

definition history_default :: history where
  "history_default = \<lparr>h_storage = [], h_start = 0, h_len = 0\<rparr>"

definition history_new :: "allocator \<Rightarrow> usize \<Rightarrow> (tcp_error, history) outcome" where
  "history_new alloc capacity =
     (if alloc AllocHistory capacity
      then Ok \<lparr>h_storage = replicate capacity 0, h_start = 0, h_len = 0\<rparr>
      else Err (TcpResource (TcpAllocationFailed capacity)))"

definition history_capacity :: "history \<Rightarrow> usize" where
  "history_capacity h = length (h_storage h)"

definition history_is_empty :: "history \<Rightarrow> bool" where
  "history_is_empty h \<longleftrightarrow> h_len h = 0"

definition history_clear :: "history \<Rightarrow> history" where
  "history_clear h = h\<lparr>h_start := 0, h_len := 0\<rparr>"

definition history_wrap :: "history \<Rightarrow> usize \<Rightarrow> usize" where
  "history_wrap h index =
     (if index \<ge> history_capacity h then index - history_capacity h else index)"

definition history_drain_prefix :: "usize \<Rightarrow> history \<Rightarrow> bool \<times> history" where
  "history_drain_prefix count h =
     (if count > h_len h then (False, h)
      else let h' = h\<lparr>h_len := h_len h - count\<rparr>
           in (True,
               if h_len h' = 0 then h'\<lparr>h_start := 0\<rparr>
               else h'\<lparr>h_start := history_wrap h' (h_start h' + count)\<rparr>))"

definition history_slices :: "history \<Rightarrow> usize \<Rightarrow> usize \<Rightarrow> (tcp_error, bytes \<times> bytes) outcome" where
  "history_slices h first fin =
     let_ok (assert_that (first \<le> fin \<and> fin \<le> h_len h)) (\<lambda>_.
     if first = fin then Ok ([], [])
     else let head = history_wrap h (h_start h + first); len = fin - first in
       let_ok (minus_or_panic (history_capacity h) head) (\<lambda>room.
       let contiguous = min room len in
       let_ok (expect (get_range (h_storage h) head (head + contiguous))) (\<lambda>a.
       let_ok (expect (get_range (h_storage h) 0 (len - contiguous))) (\<lambda>b.
       Ok (a, b)))))"

definition history_extend :: "bytes \<Rightarrow> history \<Rightarrow> (tcp_error, history) outcome" where
  "history_extend bs h =
     let_ok (minus_or_panic (history_capacity h) (h_len h)) (\<lambda>free.
     let_ok (assert_that (length bs \<le> free)) (\<lambda>_.
     if bs = [] then Ok h
     else let tail = history_wrap h (h_start h + h_len h) in
       let_ok (minus_or_panic (history_capacity h) tail) (\<lambda>room.
       let contiguous = min room (length bs) in
       let_ok (expect (write_range (h_storage h) tail (take contiguous bs))) (\<lambda>storage.
       let_ok (expect (write_range storage 0 (drop contiguous bs))) (\<lambda>storage'.
       Ok (h\<lparr>h_storage := storage', h_len := h_len h + length bs\<rparr>))))))"

section \<open>What the flow state relies on\<close>

locale byte_window =
  fixes contents :: "'h \<Rightarrow> bytes"
    and capacity :: "'h \<Rightarrow> usize"
    and window_ok :: "'h \<Rightarrow> bool"
    and drain_prefix :: "usize \<Rightarrow> 'h \<Rightarrow> bool \<times> 'h"
    and clear_window :: "'h \<Rightarrow> 'h"
    and extend :: "bytes \<Rightarrow> 'h \<Rightarrow> ('e, 'h) outcome"
    and pieces :: "'h \<Rightarrow> usize \<Rightarrow> usize \<Rightarrow> ('e, bytes \<times> bytes) outcome"
  assumes contents_le: "window_ok h \<Longrightarrow> length (contents h) \<le> capacity h"
    and drain_short: "window_ok h \<Longrightarrow> length (contents h) < n \<Longrightarrow> drain_prefix n h = (False, h)"
    and drain_ok: "window_ok h \<Longrightarrow> n \<le> length (contents h) \<Longrightarrow>
      \<exists>h'. drain_prefix n h = (True, h') \<and> window_ok h' \<and> contents h' = drop n (contents h)
        \<and> capacity h' = capacity h"
    and clear_ok: "window_ok h \<Longrightarrow>
      window_ok (clear_window h) \<and> contents (clear_window h) = []
        \<and> capacity (clear_window h) = capacity h"
    and extfinok: "window_ok h \<Longrightarrow> length (contents h) + length bs \<le> capacity h \<Longrightarrow>
      \<exists>h'. extend bs h = Ok h' \<and> window_ok h' \<and> contents h' = contents h @ bs
        \<and> capacity h' = capacity h"
    and pieces_ok: "window_ok h \<Longrightarrow> a \<le> b \<Longrightarrow> b \<le> length (contents h) \<Longrightarrow>
      \<exists>x y. pieces h a b = Ok (x, y) \<and> x @ y = slice_of (contents h) a b"
begin

text \<open>Dropping \<open>n\<close> old bytes, or all of them, and adding new ones: the window slides.\<close>

lemma slide_ok:
  assumes "window_ok h" and "n \<le> length (contents h)"
    and "length (contents h) - n + length bs \<le> capacity h"
  obtains h' h'' where "drain_prefix n h = (True, h')" and "extend bs h' = Ok h''"
    and "window_ok h''" and "contents h'' = drop n (contents h) @ bs" and "capacity h'' = capacity h"
proof -
  obtain h' where h': "drain_prefix n h = (True, h')" "window_ok h'" "contents h' = drop n (contents h)"
    "capacity h' = capacity h"
    using drain_ok [OF assms(1,2)] by blast
  then obtain h'' where "extend bs h' = Ok h''" "window_ok h''" "contents h'' = contents h' @ bs"
    "capacity h'' = capacity h'"
    using extfinok [of h' bs] assms(3) by auto
  with h' show thesis
    using that by simp
qed

lemma clear_extfinok:
  assumes "window_ok h" and "length bs \<le> capacity h"
  obtains h' where "extend bs (clear_window h) = Ok h'" and "window_ok h'" and "contents h' = bs"
    and "capacity h' = capacity h"
  using extfinok [of "clear_window h" bs] clear_ok [OF assms(1)] assms(2) that by auto

text \<open>Copying a suffix of one window into another one.\<close>

lemma copy_suffix_ok:
  assumes "window_ok h" and "window_ok w" and "contents w = []"
    and "n \<le> length (contents h)" and "length (contents h) - n \<le> capacity w"
  obtains x y w' w'' where "pieces h n (length (contents h)) = Ok (x, y)"
    and "extend x w = Ok w'" and "extend y w' = Ok w''"
    and "window_ok w''" and "contents w'' = drop n (contents h)" and "capacity w'' = capacity w"
proof -
  obtain x y where p: "pieces h n (length (contents h)) = Ok (x, y)"
    and xy: "x @ y = slice_of (contents h) n (length (contents h))"
    using pieces_ok [OF assms(1,4)] by auto
  have xy': "x @ y = drop n (contents h)"
    using xy by (simp add: slice_of_def)
  then have len: "length x + length y = length (contents h) - n"
    by (metis length_append length_drop)
  obtain w' where w': "extend x w = Ok w'" "window_ok w'" "contents w' = x" "capacity w' = capacity w"
    using extfinok [of w x] assms len by auto
  obtain w'' where "extend y w' = Ok w''" "window_ok w''" "contents w'' = x @ y" "capacity w'' = capacity w"
    using extfinok [of w' y] w' assms len by auto
  with p w' xy' show thesis
    using that by simp
qed

end

section \<open>The ring refines a list\<close>

definition history_contents :: "history \<Rightarrow> bytes" where
  "history_contents h = map (\<lambda>i. h_storage h ! history_wrap h (h_start h + i)) [0..<h_len h]"

definition history_ok :: "history \<Rightarrow> bool" where
  "history_ok h \<longleftrightarrow>
     h_len h \<le> history_capacity h \<and> (h_start h < history_capacity h \<or> h_start h = 0)"

lemma length_history_contents [simp]: "length (history_contents h) = h_len h"
  by (simp add: history_contents_def)

lemma nth_history_contents:
  "i < h_len h \<Longrightarrow> history_contents h ! i = h_storage h ! history_wrap h (h_start h + i)"
  by (simp add: history_contents_def)

lemma history_wrap_less:
  "history_ok h \<Longrightarrow> i < h_len h \<Longrightarrow> history_wrap h (h_start h + i) < history_capacity h"
  by (auto simp: history_wrap_def history_ok_def)

lemma history_default_ok [simp]:
  "history_ok history_default" "history_contents history_default = []" "history_capacity history_default = 0"
  by (simp_all add: history_ok_def history_default_def history_contents_def history_capacity_def)

lemma history_new_ok:
  "history_new alloc n = Ok h \<Longrightarrow> history_ok h \<and> history_contents h = [] \<and> history_capacity h = n"
  by (auto simp: history_new_def history_ok_def history_contents_def history_capacity_def split: if_splits)

lemma history_drain_ok:
  assumes "history_ok h" and "n \<le> h_len h"
  shows "\<exists>h'. history_drain_prefix n h = (True, h') \<and> history_ok h'
    \<and> history_contents h' = drop n (history_contents h) \<and> history_capacity h' = history_capacity h"
proof (cases "h_len h = n")
  case True
  with assms show ?thesis
    by (auto simp: history_drain_prefix_def history_ok_def history_capacity_def history_contents_def)
next
  case False
  let ?h = "h\<lparr>h_len := h_len h - n, h_start := history_wrap h (h_start h + n)\<rparr>"
  have cap: "history_capacity ?h = history_capacity h"
    by (simp add: history_capacity_def)
  have wr: "history_wrap h' = history_wrap h" if "h_storage h' = h_storage h" for h'
    using that by (simp add: history_wrap_def fun_eq_iff history_capacity_def)
  have "history_contents ?h = drop n (history_contents h)"
  proof (rule nth_equalityI)
    fix i
    assume "i < length (history_contents ?h)"
    then have i: "i < h_len h - n"
      by simp
    then have "history_wrap h (history_wrap h (h_start h + n) + i) = history_wrap h (h_start h + (n + i))"
      using assms False by (auto simp: history_wrap_def history_ok_def)
    with i show "history_contents ?h ! i = drop n (history_contents h) ! i"
      using wr [of ?h] by (simp add: nth_history_contents)
  qed simp
  moreover have "history_ok ?h"
    using assms False cap by (auto simp: history_ok_def history_wrap_def)
  moreover have "history_drain_prefix n h = (True, ?h)"
    using assms False wr [of "h\<lparr>h_len := h_len h - n\<rparr>"]
    by (simp add: history_drain_prefix_def Let_def)
  ultimately show ?thesis
    using cap by blast
qed

lemma history_slices_ok:
  assumes "history_ok h" and "a \<le> b" and "b \<le> h_len h"
  shows "\<exists>x y. history_slices h a b = Ok (x, y) \<and> x @ y = slice_of (history_contents h) a b"
proof (cases "a = b")
  case True
  with assms show ?thesis
    by (simp add: history_slices_def)
next
  case False
  let ?c = "history_capacity h" and ?s = "h_storage h"
  define hd where "hd = history_wrap h (h_start h + a)"
  define k where "k = min (?c - hd) (b - a)"
  have hd: "hd < ?c"
    using history_wrap_less [of h a] assms False by (simp add: hd_def)
  have k: "hd + k \<le> length ?s" "b - a - k \<le> length ?s" "k \<le> b - a"
    using hd assms by (auto simp: k_def history_capacity_def history_ok_def)
  have "history_slices h a b = Ok (slice_of ?s hd (hd + k), slice_of ?s 0 (b - a - k))"
    using assms False hd k
    by (simp add: history_slices_def Let_def hd_def [symmetric] k_def [symmetric] get_range_def)
  moreover have "slice_of ?s hd (hd + k) @ slice_of ?s 0 (b - a - k) = slice_of (history_contents h) a b"
  proof (rule nth_equalityI)
    show "length (slice_of ?s hd (hd + k) @ slice_of ?s 0 (b - a - k)) = length (slice_of (history_contents h) a b)"
      using k assms by simp
    fix i
    assume "i < length (slice_of ?s hd (hd + k) @ slice_of ?s 0 (b - a - k))"
    then have i: "i < b - a"
      using k by simp
    have "(slice_of ?s hd (hd + k) @ slice_of ?s 0 (b - a - k)) ! i
        = ?s ! (if i < k then hd + i else i - k)"
      using k i by (auto simp: nth_append nth_slice_of)
    also have "(if i < k then hd + i else i - k) = history_wrap h (h_start h + (a + i))"
      using assms i False by (auto simp: k_def hd_def history_wrap_def history_ok_def min_def)
    finally show "(slice_of ?s hd (hd + k) @ slice_of ?s 0 (b - a - k)) ! i
        = slice_of (history_contents h) a b ! i"
      using i assms by (simp add: nth_slice_of nth_history_contents)
  qed
  ultimately show ?thesis
    by blast
qed

text \<open>Where the two halves of an extension land: every old byte stays, every new one is read back.\<close>

lemma history_store_nth:
  assumes "history_ok h" and fits: "h_len h + length bs \<le> history_capacity h"
    and i: "i < h_len h + length bs"
    and te_def: "te = history_wrap h (h_start h + h_len h)"
    and k_def: "k = min (history_capacity h - te) (length bs)"
  shows "copy_at (copy_at (h_storage h) te (take k bs)) 0 (drop k bs) ! history_wrap h (h_start h + i)
      = (history_contents h @ bs) ! i"
proof -
  let ?w = "history_wrap h (h_start h + i)" and ?s = "h_storage h"
  have w: "?w < length ?s"
    using i assms by (auto simp: history_wrap_def history_ok_def history_capacity_def)
  consider (old) "i < h_len h" | (new) d where "i = h_len h + d" "d < length bs"
    using i by (metis add_diff_inverse_nat nat_add_left_cancel_less)
  then show ?thesis
  proof cases
    case old
    then have "\<not> ?w < length bs - k" "\<not> (te \<le> ?w \<and> ?w < te + k)" "te + k \<le> length ?s"
      using assms
      by (auto simp: history_wrap_def history_ok_def history_capacity_def min_def split: if_splits)
    with old w fits show ?thesis
      by (auto simp: k_def nth_copy_at nth_append nth_history_contents history_capacity_def)
  next
    case new
    have te: "te < history_capacity h" "length bs - k \<le> te"
      using new assms by (auto simp: history_wrap_def history_ok_def)
    then have k: "k \<le> length bs" "te + k \<le> length ?s"
      by (auto simp: k_def history_capacity_def)
    have "if d < k then ?w = te + d else ?w = d - k"
      using new assms by (auto simp: history_wrap_def history_ok_def min_def)
    with te k w new show ?thesis
      by (cases "d < k") (auto simp: nth_copy_at nth_append not_less)
  qed
qed

lemma history_extend_ok:
  assumes "history_ok h" and fits: "h_len h + length bs \<le> history_capacity h"
  shows "\<exists>h'. history_extend bs h = Ok h' \<and> history_ok h'
    \<and> history_contents h' = history_contents h @ bs \<and> history_capacity h' = history_capacity h"
proof (cases "bs = []")
  case True
  with assms show ?thesis
    by (auto simp: history_extend_def)
next
  case False
  let ?c = "history_capacity h" and ?s = "h_storage h"
  define te where "te = history_wrap h (h_start h + h_len h)"
  define k where "k = min (?c - te) (length bs)"
  define s' where "s' = copy_at (copy_at ?s te (take k bs)) 0 (drop k bs)"
  let ?h = "h\<lparr>h_storage := s', h_len := h_len h + length bs\<rparr>"
  have te: "te < ?c"
    using assms False by (cases bs) (auto simp: te_def history_wrap_def history_ok_def)
  have k: "te + k \<le> length ?s" "length bs - k \<le> length ?s" "k \<le> length bs" "length bs \<le> ?c - h_len h"
    using te fits by (auto simp: k_def history_capacity_def)
  have cap: "history_capacity ?h = ?c"
    using k by (simp add: history_capacity_def s'_def)
  have "history_extend bs h = Ok ?h"
    using False fits te k
    by (simp add: history_extend_def Let_def write_range_def te_def [symmetric]
        k_def [symmetric] s'_def)
  moreover have "history_contents ?h = history_contents h @ bs"
  proof (rule nth_equalityI)
    fix i
    assume "i < length (history_contents ?h)"
    then show "history_contents ?h ! i = (history_contents h @ bs) ! i"
      using history_store_nth [OF assms _ te_def k_def, of i] cap
      by (auto simp: nth_history_contents history_wrap_def s'_def)
  qed simp
  moreover have "history_ok ?h"
    using assms cap by (auto simp: history_ok_def)
  ultimately show ?thesis
    using cap by blast
qed

interpretation ring: byte_window history_contents history_capacity history_ok history_drain_prefix
  history_clear history_extend history_slices
proof unfold_locales
  fix h
  show "history_ok h \<Longrightarrow> length (history_contents h) \<le> history_capacity h"
    by (simp add: history_ok_def)
  show "history_ok h \<Longrightarrow> history_ok (history_clear h) \<and> history_contents (history_clear h) = []
    \<and> history_capacity (history_clear h) = history_capacity h"
    by (auto simp: history_ok_def history_clear_def history_contents_def history_capacity_def)
  show "history_ok h \<Longrightarrow> length (history_contents h) < n \<Longrightarrow> history_drain_prefix n h = (False, h)" for n
    by (simp add: history_drain_prefix_def)
qed (simp_all add: history_drain_ok history_slices_ok history_extend_ok)

section \<open>Properties\<close>

text \<open>
  C25. Dropping \<open>n\<close> retained bytes from the ring and appending new ones that fit succeeds without a
  panic, and the ring then holds the remaining old bytes followed by the new ones, whether or not the
  storage wraps.
\<close>
theorem history_window_slides:
  assumes "history_ok h" and "n \<le> h_len h" and "h_len h - n + length bs \<le> history_capacity h"
  shows "\<exists>h' h''. history_drain_prefix n h = (True, h') \<and> history_extend bs h' = Ok h''
    \<and> history_ok h'' \<and> history_contents h'' = drop n (history_contents h) @ bs
    \<and> history_capacity h'' = history_capacity h"
  using ring.slide_ok [of h n bs] assms by (metis length_history_contents)

theorem history_window_slides_witness:
  "\<exists>h' h''. history_drain_prefix 2 \<lparr>h_storage = [1, 2, 3, 4], h_start = 2, h_len = 3\<rparr> = (True, h')
    \<and> history_extend [7, 8, 9] h' = Ok h''
    \<and> history_contents h'' = [1, 7, 8, 9]"
proof -
  let ?h = "\<lparr>h_storage = [1, 2, 3, 4], h_start = 2, h_len = 3\<rparr>"
  have "history_contents ?h = [3, 4, 1]"
    by (simp add: history_contents_def history_wrap_def history_capacity_def upt_rec)
  with history_window_slides [of ?h 2 "[7, 8, 9]"] show ?thesis
    by (auto simp: history_ok_def history_capacity_def)
qed

end
