(* ===== verification/Tcp_Pages.thy ===== *)
theory Tcp_Pages
  imports Tcp_Model
begin

text \<open>
  The sparse payload pages of a TCP flow (\<open>analysis/reassembly/tcp/pages.rs\<close>): out-of-order bytes
  are kept in fixed-size pages addressed by stream offset, and a page is freed when its last live
  byte goes. \<open>page_byte\<close> reads one stream offset; the lemmas say what every operation does to it
  and to the set \<open>C\<close> of live offsets.

  A closure called once per page slice is a function folded over the list of slices. Offsets are
  natural numbers below \<open>2\<^sup>6\<^sup>4\<close>: the additions that could pass that bound are \<open>plus_or_panic\<close>.
\<close>

section \<open>Pages\<close>

definition PAGE_BYTES :: usize where
  "PAGE_BYTES = 4096"

definition PAGE_CHARGE :: usize where
  "PAGE_CHARGE = PAGE_BYTES + 64"

record page =
  page_bytes :: bytes
  page_live :: usize

type_synonym pages = "(u64, page) btree"

definition page_keys :: "u64 \<Rightarrow> u64 \<Rightarrow> u64 list" where
  "page_keys a b =
     (let first = a div PAGE_BYTES; limit = b div PAGE_BYTES + (if b mod PAGE_BYTES = 0 then 0 else 1)
      in [first ..< (if b \<le> a then first else limit)])"

definition allocate_page :: "allocator \<Rightarrow> u64 \<Rightarrow> (tcp_error, page) outcome" where
  "allocate_page alloc key =
     (if alloc (AllocPage key) PAGE_BYTES
      then Ok \<lparr>page_bytes = replicate PAGE_BYTES 0, page_live = 0\<rparr>
      else Err (TcpResource (TcpAllocationFailed PAGE_BYTES)))"

text \<open>The page-relative slices of a stream range, in order: key, start and end within the page.\<close>

definition page_slices :: "u64 \<Rightarrow> u64 \<Rightarrow> (u64 \<times> usize \<times> usize) list" where
  "page_slices a b =
     map (\<lambda>key. let base = key * PAGE_BYTES
                in (key, saturating_sub a base, min (b - base) PAGE_BYTES)) (page_keys a b)"

text \<open>The closures the four walks pass to \<open>slices\<close>, then the walks themselves.\<close>

fun equals_slice :: "pages \<Rightarrow> bytes \<Rightarrow> u64 \<times> usize \<times> usize \<Rightarrow> bool \<times> usize \<Rightarrow> (tcp_error, bool \<times> usize) outcome" where
  "equals_slice pages bs (key, s, e) (equal, copied) =
     (let len = e - s in
      let_ok (expect (bt_get pages key)) (\<lambda>page.
      let_ok (expect (get_range (page_bytes page) s e)) (\<lambda>held.
      let_ok (expect (get_range bs copied (copied + len))) (\<lambda>new.
      Ok (equal \<and> held = new, copied + len)))))"

definition pages_equals :: "pages \<Rightarrow> u64 \<Rightarrow> bytes \<Rightarrow> (tcp_error, bool) outcome" where
  "pages_equals pages offset bs =
     let_ok (plus_or_panic offset (length bs)) (\<lambda>limit.
     let_ok (for_each (equals_slice pages bs) (page_slices offset limit) (True, 0)) (\<lambda>(equal, _).
     Ok equal))"

fun copy_slice :: "pages \<Rightarrow> u64 \<times> usize \<times> usize \<Rightarrow> bytes \<times> usize \<Rightarrow> (tcp_error, bytes \<times> usize) outcome" where
  "copy_slice pages (key, s, e) (output, copied) =
     let_ok (expect (bt_get pages key)) (\<lambda>page.
     let_ok (expect (get_range (page_bytes page) s e)) (\<lambda>held.
     let_ok (expect (write_range output copied held)) (\<lambda>output'.
     Ok (output', copied + (e - s)))))"

definition pages_copy_out :: "pages \<Rightarrow> u64 \<Rightarrow> bytes \<Rightarrow> (tcp_error, bytes) outcome" where
  "pages_copy_out pages offset output =
     let_ok (plus_or_panic offset (length output)) (\<lambda>limit.
     let_ok (for_each (copy_slice pages) (page_slices offset limit) (output, 0)) (\<lambda>(output', _).
     Ok output'))"

fun insert_slice :: "bytes \<Rightarrow> u64 \<times> usize \<times> usize \<Rightarrow> pages \<times> usize \<Rightarrow> (tcp_error, pages \<times> usize) outcome" where
  "insert_slice bs (key, s, e) (pages, copied) =
     let_ok (expect (bt_get pages key)) (\<lambda>page.
     let len = e - s in
     let_ok (expect (get_range bs copied (copied + len))) (\<lambda>new.
     let_ok (expect (write_range (page_bytes page) s new)) (\<lambda>held.
     let_ok (plus_or_panic (page_live page) len) (\<lambda>live.
     let_ok (assert_that (live \<le> PAGE_BYTES)) (\<lambda>_.
     Ok (bt_insert key \<lparr>page_bytes = held, page_live = live\<rparr> pages, copied + len))))))"

definition pages_insert :: "u64 \<Rightarrow> bytes \<Rightarrow> pages \<Rightarrow> (tcp_error, pages) outcome" where
  "pages_insert offset bs pages =
     let_ok (plus_or_panic offset (length bs)) (\<lambda>limit.
     let_ok (for_each (insert_slice bs) (page_slices offset limit) (pages, 0)) (\<lambda>(pages', _).
     Ok pages'))"

fun remove_slice :: "u64 \<times> usize \<times> usize \<Rightarrow> pages \<Rightarrow> (tcp_error, pages) outcome" where
  "remove_slice (key, s, e) pages =
     let_ok (expect (bt_get pages key)) (\<lambda>page.
     let_ok (expect (checked_sub (page_live page) (e - s))) (\<lambda>live.
     Ok (if live = 0 then bt_remove key pages
         else bt_insert key (page\<lparr>page_live := live\<rparr>) pages)))"

definition pages_remove :: "u64 \<Rightarrow> u64 \<Rightarrow> pages \<Rightarrow> (tcp_error, pages) outcome" where
  "pages_remove a b pages = for_each remove_slice (page_slices a b) pages"

text \<open>One turn of the filter that counts the pages a removal empties.\<close>

definition count_removed :: "pages \<Rightarrow> u64 option \<Rightarrow> u64 option \<Rightarrow> u64 \<Rightarrow> usize \<Rightarrow> (tcp_error, usize) outcome" where
  "count_removed pages before after key removed =
     (let base = key * PAGE_BYTES in
      if bt_get pages key = None then Ok removed
      else if (case before of None \<Rightarrow> False | Some e \<Rightarrow> base < e) then Ok removed
      else case after of
          None \<Rightarrow> Ok (removed + 1)
        | Some s \<Rightarrow>
            let_ok (plus_or_panic base PAGE_BYTES) (\<lambda>next_base.
            Ok (if s < next_base then removed else removed + 1)))"

definition remaining_count :: "pages \<Rightarrow> (u64, u64) btree \<Rightarrow> u64 \<Rightarrow> u64 \<Rightarrow> (tcp_error, usize) outcome" where
  "remaining_count pages intervals a b =
     (let before = map_option snd (bt_last_before intervals a);
          after = (case bt_from intervals b of [] \<Rightarrow> None | e # _ \<Rightarrow> Some (fst e)) in
      let_ok (for_each (count_removed pages before after) (page_keys a b) 0) (\<lambda>removed.
      minus_or_panic (length pages) removed))"

section \<open>Walking a range page by page\<close>

lemma PAGE_BYTES_pos [simp]: "0 < PAGE_BYTES" "PAGE_BYTES \<noteq> 0"
  by (simp_all add: PAGE_BYTES_def)

text \<open>The slice of a range in its first page ends at \<open>page_stop\<close>.\<close>

definition page_stop :: "u64 \<Rightarrow> u64 \<Rightarrow> u64" where
  "page_stop a b = min b ((a div PAGE_BYTES + 1) * PAGE_BYTES)"

lemma page_split:
  obtains q r where "a = q * PAGE_BYTES + r" and "r < PAGE_BYTES"
    and "a div PAGE_BYTES = q" and "a mod PAGE_BYTES = r"
  using that [of "a div PAGE_BYTES" "a mod PAGE_BYTES"] by simp

lemma page_stop_bounds:
  assumes "a < b"
  shows "a < page_stop a b" "page_stop a b \<le> b" "a mod PAGE_BYTES + (page_stop a b - a) \<le> PAGE_BYTES"
proof -
  obtain q r where a: "a = q * PAGE_BYTES + r" "r < PAGE_BYTES" and d: "a div PAGE_BYTES = q" "a mod PAGE_BYTES = r"
    by (rule page_split)
  have "page_stop a b = min b (q * PAGE_BYTES + PAGE_BYTES)"
    unfolding page_stop_def d by (simp add: add_mult_distrib)
  then show "a < page_stop a b" "page_stop a b \<le> b" "a mod PAGE_BYTES + (page_stop a b - a) \<le> PAGE_BYTES"
    unfolding d using assms a by linarith+
qed

lemma page_div_mod:
  assumes "a \<le> p" and "p < page_stop a b"
  shows "p div PAGE_BYTES = a div PAGE_BYTES" and "p mod PAGE_BYTES = a mod PAGE_BYTES + (p - a)"
proof -
  obtain q r where a: "a = q * PAGE_BYTES + r" "r < PAGE_BYTES" and d: "a div PAGE_BYTES = q" "a mod PAGE_BYTES = r"
    by (rule page_split)
  define k where "k = r + (p - a)"
  have "page_stop a b \<le> q * PAGE_BYTES + PAGE_BYTES"
    unfolding page_stop_def d by (simp add: add_mult_distrib)
  then have "p = q * PAGE_BYTES + k" "k < PAGE_BYTES"
    unfolding k_def using assms a by linarith+
  then show "p div PAGE_BYTES = a div PAGE_BYTES" "p mod PAGE_BYTES = a mod PAGE_BYTES + (p - a)"
    unfolding d k_def [symmetric] by simp_all
qed

lemma page_keys_empty [simp]: "b \<le> a \<Longrightarrow> page_keys a b = []" "b \<le> a \<Longrightarrow> page_slices a b = []"
  by (simp_all add: page_keys_def page_slices_def)


lemma page_keys_step:
  assumes "a < b"
  shows "page_keys a b = a div PAGE_BYTES # page_keys (page_stop a b) b"
proof -
  obtain q r where a: "a = q * PAGE_BYTES + r" "r < PAGE_BYTES" and d: "a div PAGE_BYTES = q" "a mod PAGE_BYTES = r"
    by (rule page_split)
  obtain s t where b: "b = s * PAGE_BYTES + t" "t < PAGE_BYTES" and e: "b div PAGE_BYTES = s" "b mod PAGE_BYTES = t"
    by (rule page_split)
  have stop: "page_stop a b = min b (Suc q * PAGE_BYTES)"
    unfolding page_stop_def d by simp
  define lim where "lim = s + (if t = 0 then 0 else 1)"
  have lim: "b \<le> c * PAGE_BYTES \<longleftrightarrow> lim \<le> c" for c
  proof -
    have "s * PAGE_BYTES + t \<le> c * PAGE_BYTES \<longleftrightarrow> (if t = 0 then s \<le> c else s < c)"
    proof (cases "t = 0")
      case False
      show ?thesis
      proof (cases "s < c")
        case True
        then have "Suc s * PAGE_BYTES \<le> c * PAGE_BYTES"
          by (intro mult_le_mono1) simp
        with True False b(2) show ?thesis by simp
      next
        case ge: False
        then have "c * PAGE_BYTES \<le> s * PAGE_BYTES" by simp
        then have "\<not> s * PAGE_BYTES + t \<le> c * PAGE_BYTES" using False by linarith
        with ge False show ?thesis by simp
      qed
    qed simp
    then show ?thesis
      using b by (auto simp: lim_def)
  qed
  have "q < lim"
    using lim [of q] assms a by linarith
  moreover have "page_keys a b = [q..<lim]"
    using assms by (simp add: page_keys_def d e lim_def)
  moreover have "page_keys (page_stop a b) b = [Suc q..<lim]"
  proof (cases "b \<le> Suc q * PAGE_BYTES")
    case True
    then show ?thesis
      using lim [of "Suc q"] by (simp add: stop)
  next
    case False
    then have "page_stop a b = Suc q * PAGE_BYTES" "page_stop a b < b"
      by (auto simp: stop)
    then show ?thesis
      by (simp add: page_keys_def e lim_def)
  qed
  ultimately show ?thesis
    by (simp add: d upt_conv_Cons)
qed

lemma page_keys_bounds: "k \<in> set (page_keys a b) \<Longrightarrow> a div PAGE_BYTES \<le> k"
  by (auto simp: page_keys_def Let_def split: if_splits)

lemma page_slices_step:
  assumes "a < b"
  shows "page_slices a b =
    (a div PAGE_BYTES, a mod PAGE_BYTES, a mod PAGE_BYTES + (page_stop a b - a)) # page_slices (page_stop a b) b"
proof -
  obtain q r where a: "a = q * PAGE_BYTES + r" "r < PAGE_BYTES" and d: "a div PAGE_BYTES = q" "a mod PAGE_BYTES = r"
    by (rule page_split)
  let ?c = "page_stop a b"
  have stop: "?c = min b (q * PAGE_BYTES + PAGE_BYTES)"
    unfolding page_stop_def d by (simp add: add_mult_distrib)
  have "saturating_sub a (q * PAGE_BYTES) = r" "min (b - q * PAGE_BYTES) PAGE_BYTES = r + (?c - a)"
    using a assms unfolding stop saturating_sub_def by linarith+
  moreover have "saturating_sub a (k * PAGE_BYTES) = saturating_sub ?c (k * PAGE_BYTES)"
    if "k \<in> set (page_keys ?c b)" for k
  proof -
    have "?c < b"
      using that by (cases "?c < b") auto
    then have "?c = Suc q * PAGE_BYTES"
      using stop by simp
    moreover have "?c div PAGE_BYTES \<le> k"
      using that by (rule page_keys_bounds)
    ultimately have "Suc q * PAGE_BYTES \<le> k * PAGE_BYTES"
      by (intro mult_le_mono1) simp
    moreover have "a < Suc q * PAGE_BYTES"
      using a by simp
    ultimately show ?thesis
      using \<open>?c = Suc q * PAGE_BYTES\<close> by (simp add: saturating_sub_def)
  qed
  ultimately show ?thesis
    by (simp add: page_slices_def page_keys_step [OF assms] d Let_def)
qed

lemma page_induct [consumes 1, case_names finish step]:
  assumes "a \<le> b" and "P b"
    and "\<And>a. a < b \<Longrightarrow> page_stop a b \<le> b \<Longrightarrow> P (page_stop a b) \<Longrightarrow> P a"
  shows "P a"
  using assms(1)
proof (induction "b - a" arbitrary: a rule: less_induct)
  case less
  show ?case
  proof (cases "a = b")
    case False
    with less.prems have "a < b"
      by simp
    moreover have "P (page_stop a b)"
      using page_stop_bounds [OF \<open>a < b\<close>] by (intro less.hyps) auto
    ultimately show ?thesis
      using page_stop_bounds(2) assms(3) by blast
  qed (simp add: assms(2))
qed

section \<open>Contents and live offsets\<close>

definition page_byte :: "pages \<Rightarrow> u64 \<Rightarrow> u8 option" where
  "page_byte pages p = map_option (\<lambda>pg. page_bytes pg ! (p mod PAGE_BYTES)) (bt_get pages (p div PAGE_BYTES))"

definition stored :: "pages \<Rightarrow> u64 \<Rightarrow> u64 \<Rightarrow> bytes" where
  "stored pages a b = map (\<lambda>p. the (page_byte pages p)) [a..<b]"

definition live_in :: "u64 set \<Rightarrow> u64 \<Rightarrow> u64 set" where
  "live_in C k = {p \<in> C. p div PAGE_BYTES = k}"

definition pages_ok :: "pages \<Rightarrow> u64 set \<Rightarrow> bool" where
  "pages_ok pages C \<longleftrightarrow> finite C \<and> btree_ok pages
     \<and> (\<forall>k pg. bt_get pages k = Some pg \<longrightarrow>
          length (page_bytes pg) = PAGE_BYTES \<and> page_live pg = card (live_in C k))
     \<and> (\<forall>p\<in>C. bt_get pages (p div PAGE_BYTES) \<noteq> None)"

text \<open>Between two pushes no page is empty, so the pages are exactly those of the live offsets.\<close>

definition pages_of :: "u64 set \<Rightarrow> u64 set" where
  "pages_of C = (\<lambda>p. p div PAGE_BYTES) ` C"

definition pages_exact :: "pages \<Rightarrow> u64 set \<Rightarrow> bool" where
  "pages_exact pages C \<longleftrightarrow> pages_ok pages C \<and> dom (bt_get pages) = pages_of C"

lemma drop_take_drop: "a \<le> c \<Longrightarrow> take (c - a) (drop a xs) @ drop c xs = drop a xs"
  by (metis append_take_drop_id drop_drop le_add_diff_inverse2)

lemma pages_ok_get:
  assumes "pages_ok pages C" and "p \<in> C"
  obtains pg where "bt_get pages (p div PAGE_BYTES) = Some pg" and "length (page_bytes pg) = PAGE_BYTES"
    and "page_live pg = card (live_in C (p div PAGE_BYTES))"
  using assms by (auto simp: pages_ok_def)

lemma length_stored [simp]: "length (stored pages a b) = b - a"
  by (simp add: stored_def)

lemma stored_split: "a \<le> c \<Longrightarrow> c \<le> b \<Longrightarrow> stored pages a b = stored pages a c @ stored pages c b"
  by (simp add: stored_def flip: map_append) (metis le_Suc_ex upt_add_eq_append)

lemma pages_exact_count: "pages_exact pages C \<Longrightarrow> length pages = card (pages_of C)"
  by (simp add: pages_exact_def pages_ok_def btree.count_dom)

lemma pages_of_Un: "pages_of (A \<union> B) = pages_of A \<union> pages_of B"
  by (auto simp: pages_of_def)

lemma finite_pages_of [simp]: "finite C \<Longrightarrow> finite (pages_of C)"
  by (simp add: pages_of_def)

text \<open>Reading one slice of a page.\<close>

lemma slice_read:
  assumes "bt_get pages (a div PAGE_BYTES) = Some pg" and "length (page_bytes pg) = PAGE_BYTES"
    and "a < b" and "c = page_stop a b"
  shows "get_range (page_bytes pg) (a mod PAGE_BYTES) (a mod PAGE_BYTES + (c - a)) = Some (stored pages a c)"
proof -
  have "a mod PAGE_BYTES + (c - a) \<le> PAGE_BYTES"
    using page_stop_bounds(3) [OF assms(3)] assms(4) by simp
  moreover have "slice_of (page_bytes pg) (a mod PAGE_BYTES) (a mod PAGE_BYTES + (c - a)) = stored pages a c"
  proof (rule nth_equalityI)
    show "length (slice_of (page_bytes pg) (a mod PAGE_BYTES) (a mod PAGE_BYTES + (c - a))) = length (stored pages a c)"
      using calculation assms(2) by simp
    fix i
    assume "i < length (slice_of (page_bytes pg) (a mod PAGE_BYTES) (a mod PAGE_BYTES + (c - a)))"
    then have i: "i < c - a"
      using calculation assms(2) by simp
    with assms(4) have "(a + i) div PAGE_BYTES = a div PAGE_BYTES" "(a + i) mod PAGE_BYTES = a mod PAGE_BYTES + i"
      using page_div_mod [of a "a + i" b] by auto
    with i assms(1,2) calculation
    show "slice_of (page_bytes pg) (a mod PAGE_BYTES) (a mod PAGE_BYTES + (c - a)) ! i = stored pages a c ! i"
      by (simp add: nth_slice_of stored_def page_byte_def)
  qed
  ultimately show ?thesis
    using assms(2) by (simp add: get_range_def)
qed

section \<open>Comparing and copying\<close>

lemma pages_equals_walk:
  assumes "pages_ok pages C" and "a \<le> b" and "{a..<b} \<subseteq> C" and "off \<le> a" and b: "length bs = b - off"
  shows "for_each (equals_slice pages bs) (page_slices a b) (eq, a - off)
    = Ok (eq \<and> stored pages a b = drop (a - off) bs, b - off)"
  using assms(2,3,4)
proof (induction a arbitrary: eq rule: page_induct)
  case finish
  then show ?case
    using b by (simp add: stored_def)
next
  case (step a)
  let ?c = "page_stop a b"
  have c: "a < ?c" "?c \<le> b"
    using page_stop_bounds [OF step.hyps(1)] by simp_all
  have "a \<in> C"
    using step.hyps step.prems by auto
  then obtain pg where pg: "bt_get pages (a div PAGE_BYTES) = Some pg" "length (page_bytes pg) = PAGE_BYTES"
    using pages_ok_get [OF assms(1)] by metis
  have split: "stored pages a b = stored pages a ?c @ stored pages ?c b"
    using c by (intro stored_split) simp_all
  define x where "x = slice_of bs (a - off) (?c - off)"
  have off: "a - off + (?c - a) = ?c - off" "?c - off \<le> length bs" "{?c..<b} \<subseteq> C" "off \<le> ?c"
    using c step.prems b by auto
  have "drop (a - off) bs = x @ drop (?c - off) bs"
    unfolding x_def slice_of_def using c by (intro drop_take_drop [symmetric] diff_le_mono) simp
  moreover have "length x = length (stored pages a ?c)"
    using c step.prems b by (simp add: x_def)
  ultimately have eq': "stored pages a b = drop (a - off) bs \<longleftrightarrow>
      stored pages a ?c = x \<and> stored pages ?c b = drop (?c - off) bs"
    by (metis split append_eq_append_conv)
  have "equals_slice pages bs (a div PAGE_BYTES, a mod PAGE_BYTES, a mod PAGE_BYTES + (?c - a)) (eq, a - off)
      = Ok (eq \<and> stored pages a ?c = x, ?c - off)"
    using pg off slice_read [OF pg step.hyps(1) refl] by (simp add: get_range_def x_def [symmetric])
  then show ?case
    using step.IH [OF off(3,4)] unfolding page_slices_step [OF step.hyps(1)] eq' by simp
qed

lemma pages_equals_ok:
  assumes "pages_ok pages C" and "{off..<off + length bs} \<subseteq> C" and "off + length bs \<le> usize_max"
  shows "pages_equals pages off bs = Ok (stored pages off (off + length bs) = bs)"
  using pages_equals_walk [OF assms(1) _ assms(2), of off bs True] assms(3)
  by (simp add: pages_equals_def)

lemma pages_copy_walk:
  assumes "pages_ok pages C" and "a \<le> b" and "{a..<b} \<subseteq> C" and "off \<le> a" and "length out = b - off"
  shows "for_each (copy_slice pages) (page_slices a b) (out, a - off)
    = Ok (take (a - off) out @ stored pages a b, b - off)"
  using assms(2-5)
proof (induction a arbitrary: out rule: page_induct)
  case finish
  then show ?case
    by (simp add: stored_def)
next
  case (step a)
  let ?c = "page_stop a b"
  have c: "a < ?c" "?c \<le> b"
    using page_stop_bounds [OF step.hyps(1)] by simp_all
  have "a \<in> C"
    using step.hyps step.prems by auto
  then obtain pg where pg: "bt_get pages (a div PAGE_BYTES) = Some pg" "length (page_bytes pg) = PAGE_BYTES"
    using pages_ok_get [OF assms(1)] by metis
  let ?out = "copy_at out (a - off) (stored pages a ?c)"
  have fits: "a - off + (?c - a) \<le> length out" "{?c..<b} \<subseteq> C" "off \<le> ?c" "a - off + (?c - a) = ?c - off"
    using c step.prems by auto
  then have "take (?c - off) ?out = take (a - off) out @ stored pages a ?c"
    using step.prems by (simp add: copy_at_def)
  then show ?case
    using step.IH [of ?out] fits c step.prems slice_read [OF pg step.hyps(1) refl] pg
    by (simp add: page_slices_step [OF step.hyps(1)] write_range_def stored_split [of a ?c b])
qed

lemma pages_copy_out_ok:
  assumes "pages_ok pages C" and "{off..<off + length out} \<subseteq> C" and "off + length out \<le> usize_max"
  shows "pages_copy_out pages off out = Ok (stored pages off (off + length out))"
  using pages_copy_walk [OF assms(1) _ assms(2), of off out] assms(3)
  by (simp add: pages_copy_out_def)

section \<open>Inserting\<close>

lemma page_mod_range:
  assumes "p div PAGE_BYTES = a div PAGE_BYTES" and "a < b" and c: "c = page_stop a b"
  shows "a \<le> p \<and> p < c \<longleftrightarrow> a mod PAGE_BYTES \<le> p mod PAGE_BYTES \<and> p mod PAGE_BYTES < a mod PAGE_BYTES + (c - a)"
    and "p mod PAGE_BYTES - a mod PAGE_BYTES = p - a"
proof -
  obtain q r where a: "a = q * PAGE_BYTES + r" "r < PAGE_BYTES" and d: "a div PAGE_BYTES = q" "a mod PAGE_BYTES = r"
    by (rule page_split)
  obtain q' r' where p: "p = q' * PAGE_BYTES + r'" "r' < PAGE_BYTES" and e: "p div PAGE_BYTES = q'" "p mod PAGE_BYTES = r'"
    by (rule page_split)
  have "q' = q"
    using assms(1) d e by simp
  then show "a \<le> p \<and> p < c \<longleftrightarrow> a mod PAGE_BYTES \<le> p mod PAGE_BYTES \<and> p mod PAGE_BYTES < a mod PAGE_BYTES + (c - a)"
      "p mod PAGE_BYTES - a mod PAGE_BYTES = p - a"
    unfolding d e using a p page_stop_bounds(1) [OF assms(2)] c by auto
qed

lemma finite_live_in [simp]: "finite C \<Longrightarrow> finite (live_in C k)"
  by (simp add: live_in_def)

lemma card_live_in_le: "card (live_in C k) \<le> PAGE_BYTES"
proof -
  have "live_in C k \<subseteq> {k * PAGE_BYTES..<k * PAGE_BYTES + PAGE_BYTES}"
  proof
    fix p
    assume "p \<in> live_in C k"
    then have "p = k * PAGE_BYTES + p mod PAGE_BYTES"
      by (metis (mono_tags, lifting) div_mult_mod_eq live_in_def mem_Collect_eq)
    then show "p \<in> {k * PAGE_BYTES..<k * PAGE_BYTES + PAGE_BYTES}"
      using mod_less_divisor [OF PAGE_BYTES_pos(1), of p] unfolding atLeastLessThan_iff by linarith
  qed
  from card_mono [OF _ this] show ?thesis
    by simp
qed

lemma live_in_chunk:
  assumes "a < b" and c: "c = page_stop a b"
  shows "live_in (C \<union> {a..<c}) k = (if k = a div PAGE_BYTES then live_in C k \<union> {a..<c} else live_in C k)"
    and "live_in (C - {a..<c}) k = (if k = a div PAGE_BYTES then live_in C k - {a..<c} else live_in C k)"
proof -
  have d: "a \<le> p \<Longrightarrow> p < c \<Longrightarrow> p div PAGE_BYTES = a div PAGE_BYTES" for p
    using c by (auto intro: page_div_mod(1))
  show "live_in (C \<union> {a..<c}) k = (if k = a div PAGE_BYTES then live_in C k \<union> {a..<c} else live_in C k)"
    unfolding live_in_def by (auto dest: d)
  show "live_in (C - {a..<c}) k = (if k = a div PAGE_BYTES then live_in C k - {a..<c} else live_in C k)"
    unfolding live_in_def by (auto dest: d)
qed

lemma pages_of_chunk:
  assumes "a < b"
  shows "pages_of {a..<page_stop a b} = {a div PAGE_BYTES}"
proof -
  have "pages_of {a..<page_stop a b} = (\<lambda>_. a div PAGE_BYTES) ` {a..<page_stop a b}"
    unfolding pages_of_def by (rule image_cong) (auto intro: page_div_mod(1))
  then show ?thesis
    using page_stop_bounds(1) [OF assms] by (auto simp: image_constant_conv)
qed

lemma PAGE_BYTES_le: "n \<le> PAGE_BYTES \<Longrightarrow> n \<le> usize_max"
  by (simp add: PAGE_BYTES_def usize_max_def)

lemma pages_ok_put:
  assumes "pages_ok pages C" and "finite C'" and "length (page_bytes pg) = PAGE_BYTES"
    and "page_live pg = card (live_in C' k)"
    and "\<And>j. j \<noteq> k \<Longrightarrow> live_in C' j = live_in C j"
    and "\<And>p. p \<in> C' \<Longrightarrow> p \<in> C \<or> p div PAGE_BYTES = k"
  shows "pages_ok (bt_insert k pg pages) C'"
proof -
  have "btree_ok pages"
    using assms(1) by (simp add: pages_ok_def)
  then have "btree_ok (bt_insert k pg pages)" "bt_get (bt_insert k pg pages) = (bt_get pages)(k \<mapsto> pg)"
    by (simp_all add: btree.ok_put btree.get_put)
  moreover have "bt_get pages (p div PAGE_BYTES) \<noteq> None" if "p \<in> C'" "p div PAGE_BYTES \<noteq> k" for p
    using assms(6) [OF that(1)] that(2) assms(1) by (auto simp: pages_ok_def)
  ultimately show ?thesis
    using assms unfolding pages_ok_def by (auto split: if_splits)
qed

lemma insert_slice_ok:
  assumes ok: "pages_ok pages C" and ab: "a < b" and c: "c = page_stop a b" and fresh: "{a..<c} \<inter> C = {}"
    and present: "bt_get pages (a div PAGE_BYTES) \<noteq> None"
    and new: "get_range bs copied (copied + (c - a)) = Some new"
  obtains pages' where
    "insert_slice bs (a div PAGE_BYTES, a mod PAGE_BYTES, a mod PAGE_BYTES + (c - a)) (pages, copied)
       = Ok (pages', copied + (c - a))"
    and "pages_ok pages' (C \<union> {a..<c})" and "dom (bt_get pages') = dom (bt_get pages)"
    and "\<And>p. page_byte pages' p = (if a \<le> p \<and> p < c then Some (new ! (p - a)) else page_byte pages p)"
proof -
  let ?k = "a div PAGE_BYTES" and ?r = "a mod PAGE_BYTES"
  obtain pg where pg: "bt_get pages ?k = Some pg"
    using present by blast
  have len: "length (page_bytes pg) = PAGE_BYTES" and live: "page_live pg = card (live_in C ?k)"
    and bt: "btree_ok pages" and fin: "finite C"
    using ok pg by (auto simp: pages_ok_def)
  have ln: "length new = c - a"
    using new by (auto simp: get_range_def split: if_splits)
  have r: "?r + (c - a) \<le> PAGE_BYTES"
    using page_stop_bounds(3) [OF ab] c by simp
  have "live_in C ?k \<inter> {a..<c} = {}"
    using fresh by (auto simp: live_in_def)
  then have live': "page_live pg + (c - a) = card (live_in (C \<union> {a..<c}) ?k)"
    using fin by (simp add: live_in_chunk(1) [OF ab c] card_Un_disjoint live)
  define pg' where "pg' = \<lparr>page_bytes = copy_at (page_bytes pg) ?r new, page_live = page_live pg + (c - a)\<rparr>"
  define pages' where "pages' = bt_insert ?k pg' pages"
  have le: "page_live pg + (c - a) \<le> PAGE_BYTES"
    unfolding live' by (rule card_live_in_le)
  have get': "bt_get pages' = (bt_get pages)(?k \<mapsto> pg')"
    using bt by (simp add: pages'_def btree.get_put)
  have len': "length (page_bytes pg') = PAGE_BYTES"
    using len r ln by (simp add: pg'_def)
  show thesis
  proof
    show "insert_slice bs (?k, ?r, ?r + (c - a)) (pages, copied) = Ok (pages', copied + (c - a))"
      using pg new len r ln PAGE_BYTES_le [OF le] le by (simp add: write_range_def pages'_def pg'_def Let_def)
    show "pages_ok pages' (C \<union> {a..<c})"
      unfolding pages'_def
    proof (rule pages_ok_put [OF ok _ len'])
      show "page_live pg' = card (live_in (C \<union> {a..<c}) ?k)"
        using live' by (simp add: pg'_def)
      show "p \<in> C \<or> p div PAGE_BYTES = ?k" if "p \<in> C \<union> {a..<c}" for p
        using that page_div_mod(1) [of a p b] c by auto
    qed (simp_all add: fin live_in_chunk(1) [OF ab c])
    show "dom (bt_get pages') = dom (bt_get pages)"
      using get' pg by auto
    show "page_byte pages' p = (if a \<le> p \<and> p < c then Some (new ! (p - a)) else page_byte pages p)" for p
    proof (cases "p div PAGE_BYTES = ?k")
      case True
      have "copy_at (page_bytes pg) ?r new ! (p mod PAGE_BYTES)
          = (if ?r \<le> p mod PAGE_BYTES \<and> p mod PAGE_BYTES < ?r + length new
             then new ! (p mod PAGE_BYTES - ?r) else page_bytes pg ! (p mod PAGE_BYTES))"
        by (rule nth_copy_at) (simp_all add: r ln len)
      then have "copy_at (page_bytes pg) ?r new ! (p mod PAGE_BYTES)
          = (if a \<le> p \<and> p < c then new ! (p - a) else page_bytes pg ! (p mod PAGE_BYTES))"
        unfolding ln page_mod_range(1) [OF True ab c, symmetric] page_mod_range(2) [OF True ab c] .
      with True pg get' show ?thesis
        by (simp add: page_byte_def pg'_def)
    next
      case False
      then show ?thesis
        using page_div_mod(1) [of a p b] c get' by (auto simp: page_byte_def)
    qed
  qed
qed

lemma pages_insert_walk:
  assumes "a \<le> b" and "pages_ok pages C" and "{a..<b} \<inter> C = {}"
    and "pages_of {a..<b} \<subseteq> dom (bt_get pages)" and "off \<le> a" and "length bs = b - off"
  shows "\<exists>pages'. for_each (insert_slice bs) (page_slices a b) (pages, a - off) = Ok (pages', b - off)
    \<and> pages_ok pages' (C \<union> {a..<b}) \<and> dom (bt_get pages') = dom (bt_get pages)
    \<and> (\<forall>p. page_byte pages' p = (if a \<le> p \<and> p < b then Some (bs ! (p - off)) else page_byte pages p))"
  using assms
proof (induction a arbitrary: pages C rule: page_induct)
  case finish
  then show ?case
    by auto
next
  case (step a)
  let ?c = "page_stop a b"
  have c: "a < ?c" "?c \<le> b"
    using page_stop_bounds [OF step.hyps(1)] by simp_all
  have off: "a - off + (?c - a) = ?c - off" "?c - off \<le> length bs" "off \<le> ?c" "{a..<b} = {a..<?c} \<union> {?c..<b}"
    using c step.prems by auto
  then have "get_range bs (a - off) (a - off + (?c - a)) = Some (slice_of bs (a - off) (?c - off))"
    by (simp add: get_range_def)
  moreover have "bt_get pages (a div PAGE_BYTES) \<noteq> None" "{a..<?c} \<inter> C = {}"
    using step.prems(2,3) c unfolding off(4) by (auto simp: pages_of_Un pages_of_chunk step.hyps)
  ultimately obtain pages1 where
    ins: "insert_slice bs (a div PAGE_BYTES, a mod PAGE_BYTES, a mod PAGE_BYTES + (?c - a)) (pages, a - off)
       = Ok (pages1, ?c - off)"
    and p1: "pages_ok pages1 (C \<union> {a..<?c})" "dom (bt_get pages1) = dom (bt_get pages)"
    and byte1: "\<And>p. page_byte pages1 p =
      (if a \<le> p \<and> p < ?c then Some (slice_of bs (a - off) (?c - off) ! (p - a)) else page_byte pages p)"
    using insert_slice_ok [OF step.prems(1) step.hyps(1) refl] off(1) by metis
  have "{?c..<b} \<inter> (C \<union> {a..<?c}) = {}" "pages_of {?c..<b} \<subseteq> dom (bt_get pages1)"
    using step.prems(2,3) p1(2) unfolding off(4) by (auto simp: pages_of_Un)
  from step.IH [OF p1(1) this off(3) step.prems(5)] obtain pages' where
    w: "for_each (insert_slice bs) (page_slices ?c b) (pages1, ?c - off) = Ok (pages', b - off)"
    and p': "pages_ok pages' (C \<union> {a..<?c} \<union> {?c..<b})" "dom (bt_get pages') = dom (bt_get pages1)"
    and byte': "\<And>p. page_byte pages' p = (if ?c \<le> p \<and> p < b then Some (bs ! (p - off)) else page_byte pages1 p)"
    by blast
  have "page_byte pages' p = (if a \<le> p \<and> p < b then Some (bs ! (p - off)) else page_byte pages p)" for p
    using c off step.prems(4) by (auto simp: byte' byte1 nth_slice_of)
  with w p' p1(2) ins show ?case
    unfolding page_slices_step [OF step.hyps(1)] off(4) by (auto simp: Un_assoc)
qed

lemma pages_insert_ok:
  assumes "pages_ok pages C" and "{off..<off + length bs} \<inter> C = {}"
    and "pages_of {off..<off + length bs} \<subseteq> dom (bt_get pages)" and "off + length bs \<le> usize_max"
  obtains pages' where "pages_insert off bs pages = Ok pages'"
    and "pages_ok pages' (C \<union> {off..<off + length bs})" and "dom (bt_get pages') = dom (bt_get pages)"
    and "\<And>p. page_byte pages' p =
      (if off \<le> p \<and> p < off + length bs then Some (bs ! (p - off)) else page_byte pages p)"
proof -
  from pages_insert_walk [OF _ assms(1-3) order_refl, of bs] obtain pages' where
    "for_each (insert_slice bs) (page_slices off (off + length bs)) (pages, 0) = Ok (pages', length bs)"
    "pages_ok pages' (C \<union> {off..<off + length bs})" "dom (bt_get pages') = dom (bt_get pages)"
    "\<And>p. page_byte pages' p = (if off \<le> p \<and> p < off + length bs then Some (bs ! (p - off)) else page_byte pages p)"
    by auto
  with assms(4) show thesis
    using that by (simp add: pages_insert_def)
qed

section \<open>Removing\<close>

lemma pages_of_live: "k \<in> pages_of C \<longleftrightarrow> live_in C k \<noteq> {}"
  by (auto simp: pages_of_def live_in_def)

lemma pages_ok_del:
  assumes "pages_ok pages C" and "C' \<subseteq> C" and "live_in C' k = {}"
    and "\<And>j. j \<noteq> k \<Longrightarrow> live_in C' j = live_in C j"
  shows "pages_ok (bt_remove k pages) C'"
proof -
  have bt: "btree_ok pages" and fin: "finite C'"
    using assms(1,2) by (auto simp: pages_ok_def intro: finite_subset)
  then have "btree_ok (bt_remove k pages)" "bt_get (bt_remove k pages) = (bt_get pages)(k := None)"
    by (simp_all add: btree.ok_del btree.get_del)
  moreover have "bt_get pages (p div PAGE_BYTES) \<noteq> None" "p div PAGE_BYTES \<noteq> k" if "p \<in> C'" for p
    using that assms(1-3) by (auto simp: pages_ok_def live_in_def)
  ultimately show ?thesis
    using assms fin unfolding pages_ok_def by (auto split: if_splits)
qed

lemma remove_slice_ok:
  assumes ex: "pages_exact pages C" and ab: "a < b" and c: "c = page_stop a b" and sub: "{a..<c} \<subseteq> C"
  obtains pages' where
    "remove_slice (a div PAGE_BYTES, a mod PAGE_BYTES, a mod PAGE_BYTES + (c - a)) pages = Ok pages'"
    and "pages_exact pages' (C - {a..<c})"
    and "\<And>p. p \<in> C - {a..<c} \<Longrightarrow> page_byte pages' p = page_byte pages p"
proof -
  let ?k = "a div PAGE_BYTES" and ?C = "C - {a..<c}"
  have ok: "pages_ok pages C" and dm: "dom (bt_get pages) = pages_of C" and bt: "btree_ok pages" and fin: "finite C"
    using ex by (auto simp: pages_exact_def pages_ok_def)
  have "a \<in> C"
    using sub page_stop_bounds(1) [OF ab] c by auto
  then obtain pg where pg: "bt_get pages ?k = Some pg" "length (page_bytes pg) = PAGE_BYTES"
    "page_live pg = card (live_in C ?k)"
    using pages_ok_get [OF ok] by metis
  have "{a..<c} \<subseteq> live_in C ?k"
    using sub c by (auto simp: live_in_def intro: page_div_mod(1))
  then have le: "c - a \<le> card (live_in C ?k)" and live': "card (live_in ?C ?k) = card (live_in C ?k) - (c - a)"
    using fin card_mono [of "live_in C ?k" "{a..<c}"]
    by (simp_all add: live_in_chunk(2) [OF ab c] card_Diff_subset)
  have other: "j \<noteq> ?k \<Longrightarrow> live_in ?C j = live_in C j" for j
    by (simp add: live_in_chunk(2) [OF ab c])
  define live where "live = card (live_in ?C ?k)"
  define pages' where "pages' = (if live = 0 then bt_remove ?k pages else bt_insert ?k (pg\<lparr>page_live := live\<rparr>) pages)"
  have get': "bt_get pages' = (bt_get pages)(?k := if live = 0 then None else Some (pg\<lparr>page_live := live\<rparr>))"
    using bt by (simp add: pages'_def btree.get_put btree.get_del)
  have zero: "live = 0 \<longleftrightarrow> live_in ?C ?k = {}"
    using fin by (simp add: live_def)
  show thesis
  proof
    show "remove_slice (?k, a mod PAGE_BYTES, a mod PAGE_BYTES + (c - a)) pages = Ok pages'"
      using pg le live' by (simp add: checked_sub_def pages'_def live_def)
    have "pages_ok pages' ?C"
    proof (cases "live = 0")
      case True
      then show ?thesis
        unfolding pages'_def using zero other by (simp add: pages_ok_del [OF ok Diff_subset])
    next
      case False
      have "pages_ok (bt_insert ?k (pg\<lparr>page_live := live\<rparr>) pages) ?C"
        by (rule pages_ok_put [OF ok]) (use fin pg other in \<open>auto simp: live_def\<close>)
      with False show ?thesis
        by (simp add: pages'_def)
    qed
    moreover have "dom (bt_get pages') = pages_of ?C"
    proof (rule set_eqI)
      fix j
      have "j \<in> dom (bt_get pages) \<longleftrightarrow> live_in C j \<noteq> {}"
        by (simp only: dm pages_of_live)
      then show "j \<in> dom (bt_get pages') \<longleftrightarrow> j \<in> pages_of ?C"
        unfolding pages_of_live using zero other [of j] by (cases "j = ?k") (simp_all add: get' domIff)
    qed
    ultimately show "pages_exact pages' ?C"
      by (simp add: pages_exact_def)
    show "page_byte pages' p = page_byte pages p" if "p \<in> ?C" for p
    proof (cases "p div PAGE_BYTES = ?k")
      case True
      with that have "live \<noteq> 0"
        unfolding zero by (auto simp: live_in_def)
      with True pg show ?thesis
        by (simp add: page_byte_def get')
    qed (simp add: page_byte_def get')
  qed
qed

lemma pages_remove_ok:
  assumes "a \<le> b" and "pages_exact pages C" and "{a..<b} \<subseteq> C"
  shows "\<exists>pages'. pages_remove a b pages = Ok pages' \<and> pages_exact pages' (C - {a..<b})
    \<and> (\<forall>p \<in> C - {a..<b}. page_byte pages' p = page_byte pages p)"
  unfolding pages_remove_def using assms
proof (induction a arbitrary: pages C rule: page_induct)
  case finish
  then show ?case
    by simp
next
  case (step a)
  let ?c = "page_stop a b"
  have c: "{a..<b} = {a..<?c} \<union> {?c..<b}"
    using page_stop_bounds [OF step.hyps(1)] by auto
  then have "{a..<?c} \<subseteq> C"
    using step.prems by auto
  from remove_slice_ok [OF step.prems(1) step.hyps(1) refl this] obtain pages1 where p1:
    "remove_slice (a div PAGE_BYTES, a mod PAGE_BYTES, a mod PAGE_BYTES + (?c - a)) pages = Ok pages1"
    "pages_exact pages1 (C - {a..<?c})" "\<And>p. p \<in> C - {a..<?c} \<Longrightarrow> page_byte pages1 p = page_byte pages p"
    by metis
  have "{?c..<b} \<subseteq> C - {a..<?c}"
    using step.prems c by auto
  from step.IH [OF p1(2) this] obtain pages' where
    "for_each remove_slice (page_slices ?c b) pages1 = Ok pages'" "pages_exact pages' (C - {a..<?c} - {?c..<b})"
    "\<forall>p \<in> C - {a..<?c} - {?c..<b}. page_byte pages' p = page_byte pages1 p"
    by blast
  with p1 show ?case
    unfolding page_slices_step [OF step.hyps(1)] c by (simp add: Diff_Un Int_Diff Diff_eq Int_assoc)
qed

section \<open>Counting the pages that survive an emission\<close>

definition cover :: "(u64, u64) btree \<Rightarrow> u64 set" where
  "cover intervals = (\<Union>(s, e)\<in>set intervals. {s..<e})"

lemma mem_cover: "p \<in> cover intervals \<longleftrightarrow> (\<exists>s e. (s, e) \<in> set intervals \<and> s \<le> p \<and> p < e)"
  by (force simp: cover_def)

lemma set_page_keys: "set (page_keys a b) = pages_of {a..<b}"
proof (cases "a \<le> b")
  case True
  then show ?thesis
  proof (induction a rule: page_induct)
    case finish
    then show ?case
      by (simp add: pages_of_def)
  next
    case (step a)
    have "{a..<b} = {a..<page_stop a b} \<union> {page_stop a b..<b}"
      using page_stop_bounds [OF step.hyps(1)] by auto
    then have "pages_of {a..<b} = pages_of {a..<page_stop a b} \<union> pages_of {page_stop a b..<b}"
      by (simp only: pages_of_Un)
    then show ?case
      by (simp add: step.IH page_keys_step [OF step.hyps(1)] pages_of_chunk [OF step.hyps(1)])
  qed
qed (simp add: pages_of_def)

lemma distinct_page_keys: "distinct (page_keys a b)"
  by (simp add: page_keys_def Let_def)

lemma card_pages_of_le: "card (pages_of {a..<b}) \<le> b - a"
  unfolding pages_of_def by (rule order_trans [OF card_image_le]) simp_all

text \<open>A page survives when the first interval after the range starts in it.\<close>

lemma page_interval: "p div PAGE_BYTES = k \<longleftrightarrow> k * PAGE_BYTES \<le> p \<and> p < k * PAGE_BYTES + PAGE_BYTES"
proof -
  obtain q r where p: "p = q * PAGE_BYTES + r" "r < PAGE_BYTES" and d: "p div PAGE_BYTES = q"
    by (rule page_split)
  have "q = k" if "k * PAGE_BYTES \<le> p" "p < k * PAGE_BYTES + PAGE_BYTES"
  proof (rule ccontr)
    assume "q \<noteq> k"
    then consider "Suc q \<le> k" | "Suc k \<le> q"
      by linarith
    then show False
    proof cases
      case 1
      then have "Suc q * PAGE_BYTES \<le> k * PAGE_BYTES"
        by (rule mult_le_mono1)
      with that p show False by simp
    next
      case 2
      then have "Suc k * PAGE_BYTES \<le> q * PAGE_BYTES"
        by (rule mult_le_mono1)
      with that p show False by simp
    qed
  qed
  then show ?thesis
    unfolding d using p by auto
qed

lemma surviving_page:
  assumes iv: "\<And>s e. (s, e) \<in> set intervals \<Longrightarrow> s < e \<and> (a \<le> s \<and> e \<le> b \<or> b \<le> s)"
    and first: "case after of None \<Rightarrow> \<forall>(s, e)\<in>set intervals. s < b
      | Some n \<Rightarrow> b \<le> n \<and> n \<in> fst ` set intervals \<and> (\<forall>(s, e)\<in>set intervals. b \<le> s \<longrightarrow> n \<le> s)"
    and k: "k \<in> pages_of {a..<b}"
  shows "k \<in> pages_of (cover intervals - {a..<b}) \<longleftrightarrow>
    (case after of None \<Rightarrow> False | Some n \<Rightarrow> n < k * PAGE_BYTES + PAGE_BYTES)"
proof -
  have kb: "k * PAGE_BYTES < b"
    using k by (auto simp: pages_of_def) (metis div_times_less_eq_dividend le_less_trans)
  have outside: "(s, e) \<in> set intervals \<Longrightarrow> s \<le> p \<Longrightarrow> p < e \<Longrightarrow> p \<notin> {a..<b} \<Longrightarrow> b \<le> s" for s e p
    using iv [of s e] by auto
  show ?thesis
  proof (cases after)
    case None
    then have "s < b" if "(s, e) \<in> set intervals" for s e
      using first that by auto
    then have "p \<in> {a..<b}" if "p \<in> cover intervals" for p
      using that outside unfolding mem_cover by (metis leD)
    then have "cover intervals - {a..<b} = {}"
      by blast
    then show ?thesis
      unfolding None by (simp only: pages_of_def) simp
  next
    case (Some n)
    then obtain e where n: "b \<le> n" "(n, e) \<in> set intervals" "\<And>s e. (s, e) \<in> set intervals \<Longrightarrow> b \<le> s \<Longrightarrow> n \<le> s"
      using first unfolding Some by fastforce
    have "n \<in> cover intervals - {a..<b}"
      using n iv [OF n(2)] by (auto simp: mem_cover)
    moreover have "n div PAGE_BYTES = k" if "n < k * PAGE_BYTES + PAGE_BYTES"
      unfolding page_interval using that kb n(1) by simp
    moreover have "n < k * PAGE_BYTES + PAGE_BYTES" if p: "p \<in> cover intervals - {a..<b}" "p div PAGE_BYTES = k" for p
    proof -
      obtain s e where "(s, e) \<in> set intervals" "s \<le> p" "p < e"
        using p(1) by (auto simp: mem_cover)
      then have "n \<le> p"
        using n(3) [of s e] outside [of s e p] p(1) by simp
      then show ?thesis
        using p(2) unfolding page_interval by simp
    qed
    ultimately show ?thesis
      using Some by (auto simp: pages_of_def)
  qed
qed


lemma bt_from_first:
  assumes "btree_ok (m :: ('k::linorder, 'v) btree)"
  shows "case (case bt_from m b of [] \<Rightarrow> None | e # _ \<Rightarrow> Some (fst e)) of
      None \<Rightarrow> \<forall>(s, e)\<in>set m. s < b
    | Some n \<Rightarrow> b \<le> n \<and> n \<in> fst ` set m \<and> (\<forall>(s, e)\<in>set m. b \<le> s \<longrightarrow> n \<le> s)"
proof (cases "bt_from m b")
  case Nil
  then show ?thesis
    by (auto simp: bt_from_def filter_empty_conv not_le)
next
  case (Cons x xs)
  obtain k v where x: "x = (k, v)"
    by fastforce
  have "btree_ok ((k, v) # xs)"
    using btree_ok_filter [OF assms] Cons x by (metis bt_from_def)
  then have least: "k \<le> s" if "(s, e) \<in> set ((k, v) # xs)" for s e
    using that by (auto simp: btree_ok_Cons intro: less_imp_le)
  have mem: "e \<in> set ((k, v) # xs) \<longleftrightarrow> e \<in> set m \<and> b \<le> fst e" for e
    unfolding x [symmetric] Cons [symmetric] bt_from_def by auto
  have "b \<le> k" "k \<in> fst ` set m"
    using mem [of "(k, v)"] by force+
  moreover have "k \<le> s" if "(s, e) \<in> set m" "b \<le> s" for s e
    using least mem [of "(s, e)"] that by simp
  ultimately show ?thesis
    using Cons x by auto
qed

lemma remaining_count_walk:
  assumes "\<And>k. k \<in> set ks \<Longrightarrow> k * PAGE_BYTES + PAGE_BYTES \<le> usize_max"
  shows "for_each (count_removed pages None after) ks n
    = Ok (n + length (filter (\<lambda>k. bt_get pages k \<noteq> None \<and>
        \<not> (case after of None \<Rightarrow> False | Some s \<Rightarrow> s < k * PAGE_BYTES + PAGE_BYTES)) ks))"
  using assms
proof (induction ks arbitrary: n)
  case (Cons k ks)
  have "count_removed pages None after k n = Ok (if bt_get pages k \<noteq> None \<and>
        \<not> (case after of None \<Rightarrow> False | Some s \<Rightarrow> s < k * PAGE_BYTES + PAGE_BYTES) then n + 1 else n)"
    using Cons.prems [of k] by (cases after) (simp_all add: count_removed_def Let_def)
  with Cons show ?case
    by simp
qed simp

lemma remaining_count_ok:
  assumes ex: "pages_exact pages (cover intervals)" and bt: "btree_ok intervals"
    and iv: "\<And>s e. (s, e) \<in> set intervals \<Longrightarrow> s < e \<and> a \<le> s \<and> (e \<le> b \<or> b \<le> s)"
    and room: "b + PAGE_BYTES \<le> usize_max"
  shows "remaining_count pages intervals a b = (Ok (card (pages_of (cover intervals - {a..<b}))) :: (tcp_error, usize) outcome)"
proof -
  let ?C = "cover intervals"
  define after where "after = (case bt_from intervals b of [] \<Rightarrow> None | e # _ \<Rightarrow> Some (fst e))"
  define gone where "gone = filter (\<lambda>k. bt_get pages k \<noteq> None \<and>
        \<not> (case after of None \<Rightarrow> False | Some s \<Rightarrow> s < k * PAGE_BYTES + PAGE_BYTES)) (page_keys a b)"
  have before: "bt_last_before intervals a = None"
    using iv by (auto simp: bt_last_before_None)
  have first: "case after of None \<Rightarrow> \<forall>(s, e)\<in>set intervals. s < b
      | Some n \<Rightarrow> b \<le> n \<and> n \<in> fst ` set intervals \<and> (\<forall>(s, e)\<in>set intervals. b \<le> s \<longrightarrow> n \<le> s)"
    unfolding after_def by (rule bt_from_first [OF bt])
  have iv': "s < e \<and> (a \<le> s \<and> e \<le> b \<or> b \<le> s)" if "(s, e) \<in> set intervals" for s e
    using iv [OF that] by auto
  have dm: "dom (bt_get pages) = pages_of ?C" and len: "length pages = card (pages_of ?C)" and fin: "finite ?C"
    using ex pages_exact_count [OF ex] by (auto simp: pages_exact_def pages_ok_def)
  have "set gone = pages_of ?C - pages_of (?C - {a..<b})"
  proof (rule set_eqI)
    fix k
    have "k \<in> pages_of ?C \<Longrightarrow> k \<notin> pages_of (?C - {a..<b}) \<Longrightarrow> k \<in> pages_of {a..<b}"
      by (auto simp: pages_of_def)
    then show "k \<in> set gone \<longleftrightarrow> k \<in> pages_of ?C - pages_of (?C - {a..<b})"
      using dm surviving_page [OF iv' first, of k] by (auto simp: gone_def set_page_keys)
  qed
  moreover have "distinct gone"
    by (simp add: gone_def distinct_page_keys)
  moreover have "pages_of (?C - {a..<b}) \<subseteq> pages_of ?C"
    by (auto simp: pages_of_def)
  ultimately have "length gone \<le> card (pages_of ?C)" "card (pages_of ?C) - length gone = card (pages_of (?C - {a..<b}))"
    using fin card_mono [of "pages_of ?C" "pages_of (?C - {a..<b})"]
    by (auto simp: distinct_card [symmetric] card_Diff_subset finite_subset)
  moreover have "k * PAGE_BYTES + PAGE_BYTES \<le> usize_max" if "k \<in> set (page_keys a b)" for k
    using that room unfolding set_page_keys pages_of_def
    by auto (metis add_le_mono1 div_times_less_eq_dividend less_imp_le_nat order_trans)
  ultimately show ?thesis
    using remaining_count_walk [of "page_keys a b" pages after 0, folded gone_def] len
    unfolding remaining_count_def after_def [symmetric] by (simp add: before)
qed

end
