(* ===== verification/Tcp_State.thy ===== *)
theory Tcp_State
  imports Tcp_History Tcp_Pages
begin

text \<open>
  The state of one TCP flow and its delivered-history bookkeeping
  (\<open>analysis/reassembly/tcp/state.rs\<close>), with the invariant every flow of the table satisfies.
\<close>

section \<open>The state\<close>

record tcp_flow_state =
  st_base_sequence :: u32
  st_next_offset :: u64
  st_history_start :: u64
  st_history :: history
  st_pending :: "(u64, u64) btree"
  st_pages :: pages
  st_pending_bytes :: usize
  st_fin_offset :: "u64 option"
  st_last_update :: instant
  st_deadline :: "instant option"

definition tcp_flow_new :: "u32 \<Rightarrow> instant \<Rightarrow> instant option \<Rightarrow> tcp_flow_state" where
  "tcp_flow_new base_sequence now deadline =
     \<lparr>st_base_sequence = base_sequence, st_next_offset = 0, st_history_start = 0,
      st_history = history_default, st_pending = [], st_pages = [], st_pending_bytes = 0,
      st_fin_offset = None, st_last_update = now, st_deadline = deadline\<rparr>"

definition retained_bytes :: "tcp_flow_state \<Rightarrow> usize option" where
  "retained_bytes st = checked_add (st_pending_bytes st) (h_len (st_history st))"

definition memory_charge_parts :: "usize \<Rightarrow> usize \<Rightarrow> usize \<Rightarrow> bool \<Rightarrow> usize option" where
  "memory_charge_parts pending_storage_charge segment_count retained_history flow_state =
     Option.bind (checked_mul segment_count PENDING_SEGMENT_METADATA_CHARGE) (\<lambda>metadata.
     Option.bind (checked_add pending_storage_charge metadata) (\<lambda>charge.
     Option.bind (checked_add charge retained_history) (\<lambda>buffers.
     if flow_state then checked_add buffers TCP_FLOW_STATE_METADATA_CHARGE else Some buffers)))"

definition flow_memory_charge :: "tcp_flow_state \<Rightarrow> usize option" where
  "flow_memory_charge st =
     Option.bind (checked_mul (length (st_pages st)) PAGE_CHARGE) (\<lambda>storage.
     memory_charge_parts storage (length (st_pending st)) (history_capacity (st_history st)) True)"

definition planned_history_allocation :: "usize \<Rightarrow> usize \<Rightarrow> usize \<Rightarrow> usize" where
  "planned_history_allocation current required limit =
     (let retained = current in
      if required \<le> retained then retained
      else min (max (saturating_mul retained 2) required) limit)"

definition emitted_history_conflicts :: "tcp_flow_state \<Rightarrow> u64 \<Rightarrow> bytes \<Rightarrow> (tcp_error, bool) outcome" where
  "emitted_history_conflicts st offset payload =
     (case checked_add offset (length payload) of
        None \<Rightarrow> Ok True
      | Some payload_end \<Rightarrow>
          let history_end = saturating_add (st_history_start st) (h_len (st_history st));
              overlap_start = max offset (st_history_start st);
              overlap_end = min payload_end history_end in
          if overlap_start \<ge> overlap_end then Ok False
          else
            let payload_start = saturating_sub overlap_start offset;
                history_start = saturating_sub overlap_start (st_history_start st);
                len = saturating_sub overlap_end overlap_start;
                history_end = saturating_add history_start len in
            case Option.bind (get_from payload payload_start) (\<lambda>tail. get_range tail 0 len) of
              None \<Rightarrow> Ok True
            | Some payload_overlap \<Rightarrow>
                let_ok (history_slices (st_history st) history_start history_end) (\<lambda>(head, tail).
                let_ok (expect (split_at payload_overlap (length head))) (\<lambda>(payload_head, payload_tail).
                Ok (head \<noteq> payload_head \<or> tail \<noteq> payload_tail))))"

definition trim_emitted_history :: "usize \<Rightarrow> tcp_flow_state \<Rightarrow> tcp_flow_state" where
  "trim_emitted_history capacity st =
     (let len = h_len (st_history st) in
      if len > capacity
      then let remove = saturating_sub len capacity;
               (drained, history) = history_drain_prefix remove (st_history st)
           in st\<lparr>st_history_start := saturating_add (st_history_start st) remove,
                 st_history := if drained then history else history_clear history\<rparr>
      else st)"

definition prepare_emitted_history ::
  "allocator \<Rightarrow> tcp_flow_state \<Rightarrow> usize \<Rightarrow> usize \<Rightarrow> (tcp_error, history option) outcome" where
  "prepare_emitted_history alloc st retained_capacity capacity =
     (if history_capacity (st_history st) = capacity then Ok None
      else
        let_ok (history_new alloc capacity) (\<lambda>resized.
        let skip = saturating_sub (h_len (st_history st)) retained_capacity in
        let_ok (history_slices (st_history st) skip (h_len (st_history st))) (\<lambda>(head, tail).
        let_ok (history_extend head resized) (\<lambda>resized.
        let_ok (history_extend tail resized) (\<lambda>resized.
        Ok (Some resized))))))"

definition append_emitted_history ::
  "u64 \<Rightarrow> bytes \<Rightarrow> usize \<Rightarrow> tcp_flow_state \<Rightarrow> (tcp_error, tcp_flow_state) outcome" where
  "append_emitted_history output_start output capacity st =
     (let output_end = saturating_add output_start (length output) in
      if capacity = 0
      then Ok (st\<lparr>st_history_start := output_end, st_history := history_clear (st_history st)\<rparr>)
      else
        let old_end = saturating_add (st_history_start st) (h_len (st_history st)) in
        let_ok (assert_that (history_is_empty (st_history st) \<or> old_end = output_start)) (\<lambda>_.
        let keep = min (saturating_add (h_len (st_history st)) (length output)) capacity;
            history_start_offset = saturating_sub output_end keep;
            history =
              (if \<not> history_is_empty (st_history st) \<and> history_start_offset < output_start
               then let old_start = saturating_sub history_start_offset (st_history_start st);
                        (drained, history) = history_drain_prefix old_start (st_history st)
                    in if drained then history else history_clear history
               else history_clear (st_history st));
            output_skip = saturating_sub history_start_offset output_start in
        let_ok (history_extend (case get_from output output_skip of Some bs \<Rightarrow> bs | None \<Rightarrow> []) history) (\<lambda>history.
        Ok (st\<lparr>st_history := history, st_history_start := history_start_offset\<rparr>))))"

section \<open>The invariant of a flow\<close>

text \<open>Pending intervals are sorted, non-empty, apart from each other and beyond the delivered prefix.\<close>

definition apart :: "(u64, u64) btree \<Rightarrow> bool" where
  "apart intervals \<longleftrightarrow> sorted_wrt (\<lambda>x y. snd x < fst y) intervals \<and> (\<forall>(s, e)\<in>set intervals. s < e)"

definition history_tracks :: "tcp_flow_state \<Rightarrow> bool" where
  "history_tracks st \<longleftrightarrow> history_ok (st_history st)
     \<and> st_history_start st + h_len (st_history st) = st_next_offset st"

definition flow_ok :: "tcp_limits \<Rightarrow> tcp_flow_state \<Rightarrow> bool" where
  "flow_ok limits st \<longleftrightarrow>
     history_tracks st
     \<and> apart (st_pending st)
     \<and> (\<forall>(s, e)\<in>set (st_pending st). st_next_offset st < s
          \<and> e \<le> st_next_offset st + max_bytes_per_flow limits)
     \<and> pages_exact (st_pages st) (cover (st_pending st))
     \<and> st_pending_bytes st = card (cover (st_pending st))
     \<and> h_len (st_history st) + st_pending_bytes st \<le> max_bytes_per_flow limits
     \<and> history_capacity (st_history st) \<le> max_bytes_per_flow limits
     \<and> length (st_pending st) \<le> max_segments_per_flow limits
     \<and> (\<forall>f. st_fin_offset st = Some f \<longrightarrow>
          st_next_offset st < f \<and> (\<forall>(s, e)\<in>set (st_pending st). e \<le> f))"

text \<open>The bytes a flow still remembers, by stream offset: delivered ones and pending ones.\<close>

definition delivered :: "tcp_flow_state \<Rightarrow> u64 \<Rightarrow> u8 option" where
  "delivered st p =
     (if st_history_start st \<le> p \<and> p < st_history_start st + h_len (st_history st)
      then Some (history_contents (st_history st) ! (p - st_history_start st)) else None)"

definition held :: "tcp_flow_state \<Rightarrow> u64 \<Rightarrow> u8 option" where
  "held st p = (if p \<in> cover (st_pending st) then page_byte (st_pages st) p else None)"

lemma flow_ok_new:
  "flow_ok limits (tcp_flow_new base now deadline)"
  by (simp add: flow_ok_def tcp_flow_new_def history_tracks_def apart_def cover_def pages_exact_def pages_ok_def
      pages_of_def bt_get_def history_default_def history_ok_def history_capacity_def)

section \<open>Interval lists\<close>

lemma apart_btree: "apart m \<Longrightarrow> btree_ok m"
proof (induction m)
  case (Cons x m)
  obtain s e where x: "x = (s, e)"
    by fastforce
  have "apart m"
    using Cons.prems by (simp add: apart_def)
  moreover have "s < fst y" if "y \<in> set m" for y
    using Cons.prems that x by (force simp: apart_def)
  ultimately show ?case
    using Cons.IH x by (auto simp: btree_ok_Cons)
qed simp

lemma apart_Cons: "apart ((s, e) # m) \<longleftrightarrow> s < e \<and> (\<forall>(s', e')\<in>set m. e < s') \<and> apart m"
  by (auto simp: apart_def)

lemma apart_append: "apart (m @ m') \<longleftrightarrow> apart m \<and> apart m' \<and> (\<forall>x\<in>set m. \<forall>y\<in>set m'. snd x < fst y)"
  by (auto simp: apart_def sorted_wrt_append)

lemma finite_cover [simp]: "finite (cover m)"
  by (auto simp: cover_def)

lemma cover_Nil [simp]: "cover [] = {}"
  by (simp add: cover_def)

lemma cover_Cons [simp]: "cover ((s, e) # m) = {s..<e} \<union> cover m"
  by (simp add: cover_def)

lemma cover_append [simp]: "cover (m @ m') = cover m \<union> cover m'"
  by (simp add: cover_def)

section \<open>Delivered history\<close>

lemma take_drop_delivered:
  assumes "history_tracks st" and "st_history_start st \<le> a" and "b \<le> st_next_offset st" and "a \<le> b"
  shows "slice_of (history_contents (st_history st)) (a - st_history_start st) (b - st_history_start st)
    = map (\<lambda>p. the (delivered st p)) [a..<b]"
proof (rule nth_equalityI)
  show "length (slice_of (history_contents (st_history st)) (a - st_history_start st) (b - st_history_start st))
      = length (map (\<lambda>p. the (delivered st p)) [a..<b])"
    using assms by (auto simp: history_tracks_def)
  fix i
  assume "i < length (slice_of (history_contents (st_history st)) (a - st_history_start st) (b - st_history_start st))"
  then have "a + i < b"
    using assms by auto
  then show "slice_of (history_contents (st_history st)) (a - st_history_start st) (b - st_history_start st) ! i
      = map (\<lambda>p. the (delivered st p)) [a..<b] ! i"
    using assms nth_slice_of [of "a - st_history_start st" i "b - st_history_start st" "history_contents (st_history st)"]
    by (auto simp: delivered_def history_tracks_def)
qed

lemma split_compare: "x @ y = map f [a..<b] \<Longrightarrow> length zs = b - a \<Longrightarrow>
    (x \<noteq> take (length x) zs \<or> y \<noteq> drop (length x) zs) = (\<exists>p. a \<le> p \<and> p < b \<and> f p \<noteq> zs ! (p - a))"
proof -
  assume xy: "x @ y = map f [a..<b]" and zs: "length zs = b - a"
  have "(x \<noteq> take (length x) zs \<or> y \<noteq> drop (length x) zs) \<longleftrightarrow> x @ y \<noteq> zs"
    by (metis append_eq_conv_conj)
  also have "\<dots> \<longleftrightarrow> (\<exists>i<b - a. f (a + i) \<noteq> zs ! i)"
    unfolding xy using zs by (auto simp: list_eq_iff_nth_eq)
  also have "\<dots> \<longleftrightarrow> (\<exists>p. a \<le> p \<and> p < b \<and> f p \<noteq> zs ! (p - a))"
  proof
    assume "\<exists>i<b - a. f (a + i) \<noteq> zs ! i"
    then obtain i where "i < b - a" "f (a + i) \<noteq> zs ! i"
      by blast
    then show "\<exists>p. a \<le> p \<and> p < b \<and> f p \<noteq> zs ! (p - a)"
      by (intro exI [of _ "a + i"]) auto
  next
    assume "\<exists>p. a \<le> p \<and> p < b \<and> f p \<noteq> zs ! (p - a)"
    then obtain p where "a \<le> p" "p < b" "f p \<noteq> zs ! (p - a)"
      by blast
    then show "\<exists>i<b - a. f (a + i) \<noteq> zs ! i"
      by (intro exI [of _ "p - a"]) auto
  qed
  finally show ?thesis .
qed

text \<open>
  A retransmission is flagged as conflicting exactly when it differs from a byte the history still
  holds; bytes that have left the history are not compared.
\<close>

lemma emitted_history_conflicts_ok:
  assumes tr: "history_tracks st" and lim: "st_next_offset st \<le> usize_max" "offset + length payload \<le> usize_max"
  shows "emitted_history_conflicts st offset payload
    = Ok (\<exists>p b. offset \<le> p \<and> p < offset + length payload \<and> delivered st p = Some b \<and> b \<noteq> payload ! (p - offset))"
proof -
  let ?h = "st_history st" and ?s = "st_history_start st"
  define a where "a = max offset ?s"
  define b where "b = min (offset + length payload) (st_next_offset st)"
  have hok: "history_ok ?h" and nx: "?s + h_len ?h = st_next_offset st"
    using tr by (auto simp: history_tracks_def)
  have range: "(\<exists>p v. offset \<le> p \<and> p < offset + length payload \<and> delivered st p = Some v \<and> v \<noteq> payload ! (p - offset))
      \<longleftrightarrow> (\<exists>p. a \<le> p \<and> p < b \<and> the (delivered st p) \<noteq> payload ! (p - offset))"
    using nx by (auto simp: a_def b_def delivered_def)
  have sums: "saturating_add ?s (h_len ?h) = st_next_offset st" "checked_add offset (length payload) = Some (offset + length payload)"
    using nx lim by (simp_all add: saturating_add_def checked_add_def)
  have unf: "emitted_history_conflicts st offset payload =
    (if a \<ge> b then Ok False
     else case Option.bind (get_from payload (a - offset)) (\<lambda>tail. get_range tail 0 (b - a)) of
         None \<Rightarrow> Ok True
       | Some zs \<Rightarrow>
           let_ok (history_slices ?h (a - ?s) (saturating_add (a - ?s) (b - a))) (\<lambda>(head, tail).
           let_ok (expect (split_at zs (length head))) (\<lambda>(payload_head, payload_tail).
           Ok (head \<noteq> payload_head \<or> tail \<noteq> payload_tail))))"
    unfolding emitted_history_conflicts_def a_def b_def by (simp add: sums Let_def saturating_sub_def)
  show ?thesis
  proof (cases "a < b")
    case False
    then have "\<not> (\<exists>p. a \<le> p \<and> p < b \<and> the (delivered st p) \<noteq> payload ! (p - offset))"
      by auto
    with False show ?thesis
      unfolding range unf by simp
  next
    case True
    define zs where "zs = slice_of payload (a - offset) (b - offset)"
    have po: "Option.bind (get_from payload (a - offset)) (\<lambda>tail. get_range tail 0 (b - a)) = Some zs"
      using True by (auto simp: get_from_def get_range_def slice_of_def zs_def a_def b_def)
    have hr: "a - ?s \<le> b - ?s" "b - ?s \<le> h_len ?h" "a - ?s + (b - a) = b - ?s" "b - ?s \<le> usize_max"
      using True nx lim by (auto simp: a_def b_def)
    obtain x y where xy: "history_slices ?h (a - ?s) (b - ?s) = Ok (x, y)"
      "x @ y = slice_of (history_contents ?h) (a - ?s) (b - ?s)"
      using history_slices_ok [OF hok hr(1,2)] by blast
    have "slice_of (history_contents ?h) (a - ?s) (b - ?s) = map (\<lambda>p. the (delivered st p)) [a..<b]"
      by (rule take_drop_delivered [OF tr]) (use True in \<open>auto simp: a_def b_def\<close>)
    then have xy': "x @ y = map (\<lambda>p. the (delivered st p)) [a..<b]"
      using xy by simp
    have lz: "length zs = b - a"
      using True by (auto simp: zs_def a_def b_def)
    have "length x + length y = b - a"
      using xy' by (metis length_append length_map length_upt)
    then have sp: "split_at zs (length x) = Some (take (length x) zs, drop (length x) zs)"
      using lz by (simp add: split_at_def)
    have zp: "zs ! (p - a) = payload ! (p - offset)" if "a \<le> p" "p < b" for p
      using that by (auto simp: zs_def nth_slice_of a_def b_def)
    then have "(\<exists>p. a \<le> p \<and> p < b \<and> the (delivered st p) \<noteq> payload ! (p - offset))
        = (x \<noteq> take (length x) zs \<or> y \<noteq> drop (length x) zs)"
      unfolding split_compare [OF xy' lz] by metis
    with True xy(1) sp hr show ?thesis
      unfolding range unf po by (simp add: saturating_add_def)
  qed
qed

lemma trim_emitted_history_ok:
  assumes "history_tracks st" and "st_next_offset st \<le> usize_max"
  obtains st' where "trim_emitted_history c st = st'" and "history_tracks st'"
    and "history_contents (st_history st') = drop (h_len (st_history st) - c) (history_contents (st_history st))"
    and "history_capacity (st_history st') = history_capacity (st_history st)"
    and "st' = st\<lparr>st_history_start := st_history_start st', st_history := st_history st'\<rparr>"
proof (cases "c < h_len (st_history st)")
  case False
  with assms that show thesis
    by (simp add: trim_emitted_history_def)
next
  case True
  let ?n = "h_len (st_history st) - c"
  obtain h' where h': "history_drain_prefix ?n (st_history st) = (True, h')" "history_ok h'"
    "history_contents h' = drop ?n (history_contents (st_history st))"
    "history_capacity h' = history_capacity (st_history st)"
    using history_drain_ok [of "st_history st" ?n] assms by (auto simp: history_tracks_def)
  have "h_len h' = c"
    using h'(3) True by (metis diff_diff_cancel length_drop length_history_contents less_imp_le_nat)
  with True assms h' show thesis
    by (intro that [of "st\<lparr>st_history_start := st_history_start st + ?n, st_history := h'\<rparr>"])
      (auto simp: trim_emitted_history_def saturating_sub_def saturating_add_def history_tracks_def)
qed

lemma prepare_emitted_history_ok:
  assumes "history_tracks st" and "min (h_len (st_history st)) keep \<le> capacity"
  shows "prepare_emitted_history alloc st keep capacity
      = (if history_capacity (st_history st) = capacity then Ok None
         else Err (TcpResource (TcpAllocationFailed capacity)))
    \<or> (\<exists>h. prepare_emitted_history alloc st keep capacity = Ok (Some h) \<and> history_ok h
         \<and> history_contents h = drop (h_len (st_history st) - keep) (history_contents (st_history st))
         \<and> history_capacity h = capacity \<and> capacity \<noteq> history_capacity (st_history st))"
proof (cases "history_capacity (st_history st) = capacity \<or> \<not> alloc AllocHistory capacity")
  case True
  then show ?thesis
    by (auto simp: prepare_emitted_history_def history_new_def)
next
  case False
  let ?h = "st_history st" and ?n = "h_len (st_history st) - keep"
  obtain w where w: "history_new alloc capacity = Ok w" "history_ok w" "history_contents w = []" "history_capacity w = capacity"
    using False history_new_ok [of alloc capacity] by (auto simp: history_new_def)
  have "history_ok ?h" "?n \<le> length (history_contents ?h)" "length (history_contents ?h) - ?n \<le> history_capacity w"
    using assms w(4) by (auto simp: history_tracks_def)
  from ring.copy_suffix_ok [OF this(1) w(2,3) this(2,3)] obtain x y w' w'' where
    "history_slices ?h ?n (h_len ?h) = Ok (x, y)" "history_extend x w = Ok w'" "history_extend y w' = Ok w''"
    "history_ok w''" "history_contents w'' = drop ?n (history_contents ?h)" "history_capacity w'' = capacity"
    using w(4) by (metis length_history_contents)
  with w False show ?thesis
    by (simp add: prepare_emitted_history_def saturating_sub_def)
qed

text \<open>Appending delivered bytes slides the window: the history holds the last \<open>keep\<close> delivered bytes.\<close>

lemma append_emitted_history_ok:
  assumes hok: "history_ok (st_history st)" and nx: "st_history_start st + h_len (st_history st) = output_start"
    and lim: "output_start + length output \<le> usize_max"
    and keep: "keep = min (h_len (st_history st) + length output) capacity"
    and fits: "keep \<le> history_capacity (st_history st)"
  obtains st' where "append_emitted_history output_start output capacity st = Ok st'"
    and "history_contents (st_history st')
      = drop (h_len (st_history st) + length output - keep) (history_contents (st_history st) @ output)"
    and "history_ok (st_history st')" and "st_history_start st' + h_len (st_history st') = output_start + length output"
    and "history_capacity (st_history st') = history_capacity (st_history st)"
    and "st' = st\<lparr>st_history_start := st_history_start st', st_history := st_history st'\<rparr>"
proof -
  let ?h = "st_history st" and ?s = "st_history_start st" and ?out = "output_start + length output"
  have sat: "saturating_add output_start (length output) = ?out" "saturating_add ?s (h_len ?h) = output_start"
    "saturating_add (h_len ?h) (length output) = h_len ?h + length output"
    using lim nx by (auto simp: saturating_add_def)
  show thesis
  proof (cases "capacity = 0")
    case True
    with hok keep sat that [of "st\<lparr>st_history_start := ?out, st_history := history_clear ?h\<rparr>"]
    show thesis
      using ring.clear_ok [OF hok] by (auto simp: append_emitted_history_def history_clear_def)
  next
    case False
    define start' where "start' = ?out - keep"
    define h1 where "h1 = (if \<not> history_is_empty ?h \<and> start' < output_start
       then let (drained, history) = history_drain_prefix (start' - ?s) ?h
            in if drained then history else history_clear history
       else history_clear ?h)"
    define new where "new = drop (start' - output_start) output"
    have kb: "keep \<le> h_len ?h + length output"
      using keep by simp
    have h1: "history_ok h1 \<and> history_contents h1 = drop (start' - ?s) (history_contents ?h)
        \<and> history_capacity h1 = history_capacity ?h"
    proof (cases "\<not> history_is_empty ?h \<and> start' < output_start")
      case True
      then have le: "start' - ?s \<le> h_len ?h"
        using nx by linarith
      obtain h' where "history_drain_prefix (start' - ?s) ?h = (True, h')" "history_ok h'"
        "history_contents h' = drop (start' - ?s) (history_contents ?h)" "history_capacity h' = history_capacity ?h"
        using history_drain_ok [OF hok, of "start' - ?s"] le by blast
      with True show ?thesis
        by (simp add: h1_def)
    next
      case False
      then have "drop (start' - ?s) (history_contents ?h) = []"
        using nx by (auto simp: history_is_empty_def)
      with False show ?thesis
        unfolding h1_def using ring.clear_ok [OF hok] by auto
    qed
    have "length (history_contents h1) = h_len ?h - (start' - ?s)"
      using h1 by simp
    then have total: "length (history_contents h1) + length new = keep"
      using kb nx by (auto simp: new_def start'_def)
    then have "h_len h1 + length new \<le> history_capacity h1"
      using fits h1 by (metis length_history_contents)
    then obtain h2 where h2: "history_extend new h1 = Ok h2" "history_ok h2"
      "history_contents h2 = history_contents h1 @ new" "history_capacity h2 = history_capacity ?h"
      using history_extend_ok [of h1 new] h1 by metis
    have "h_len h2 = keep"
      using h2(3) total by (metis length_append length_history_contents)
    moreover have "start' - ?s = h_len ?h + length output - keep" "start' - output_start = start' - ?s - h_len ?h"
      using nx kb by (auto simp: start'_def)
    then have "history_contents h2 = drop (h_len ?h + length output - keep) (history_contents ?h @ output)"
      using h2(3) h1 by (simp add: new_def)
    moreover have "(case get_from output (start' - output_start) of Some bs \<Rightarrow> bs | None \<Rightarrow> []) = new"
      by (auto simp: get_from_def new_def split: option.split)
    moreover have "start' + keep = ?out"
      using kb nx by (simp add: start'_def)
    moreover have "append_emitted_history output_start output capacity st =
      let_ok (history_extend (case get_from output (start' - output_start) of Some bs \<Rightarrow> bs | None \<Rightarrow> []) h1)
        (\<lambda>history. Ok (st\<lparr>st_history := history, st_history_start := start'\<rparr>))"
      unfolding append_emitted_history_def h1_def start'_def keep
      using False by (simp add: sat Let_def saturating_sub_def)
    ultimately show thesis
      using h2 by (intro that [of "st\<lparr>st_history := h2, st_history_start := start'\<rparr>"]) simp_all
  qed
qed

end
