(* ===== verification/Tcp_Pending.thy ===== *)
theory Tcp_Pending
  imports Tcp_State
begin

text \<open>
  Planning a push (\<open>analysis/reassembly/tcp/pending.rs\<close> and \<open>pending/accounting.rs\<close>): the segment
  is placed in the stream, merged with the pending intervals, charged against the limits and its
  buffers are allocated, all before any retained state changes.

  A function that returns a Rust \<open>Option\<close> but can also panic is an outcome of an option;
  \<open>or_none\<close> is its \<open>?\<close>. The 128-bit intermediate values are mathematical integers: they are sums of
  a 64-bit offset, a 32-bit difference and a slice length.
\<close>

section \<open>Placing the payload\<close>

record incoming_payload =
  in_sequence :: u32
  in_fin_offset :: "u64 option"
  in_payload :: bytes
  in_payload_start :: usize
  in_offset :: u64
  in_remaining_end :: u64
  in_retransmitted :: usize
  in_conflicting :: bool

definition validate_sequence_bounds ::
  "tcp_limits \<Rightarrow> tcp_flow_state \<Rightarrow> u64 \<Rightarrow> bytes \<Rightarrow> u64 option \<Rightarrow> (tcp_error, u64) outcome" where
  "validate_sequence_bounds limits st offset payload fin_offset =
     let_ok (ok_or (checked_add (st_next_offset st) (max_bytes_per_flow limits)) (flow_byte_error limits)) (\<lambda>window_end.
     let_ok (ok_or (checked_add offset (length payload)) (flow_byte_error limits)) (\<lambda>remaining_end.
     let_ok (case st_fin_offset st of
         None \<Rightarrow> Ok ()
       | Some final_offset \<Rightarrow>
           let_ok (case fin_offset of
               Some new_offset \<Rightarrow>
                 ensure (new_offset = final_offset) (TcpMalformed (ConflictingFinalSequence final_offset new_offset))
             | None \<Rightarrow> Ok ()) (\<lambda>_.
           ensure (\<not> remaining_end > final_offset) (TcpMalformed (BeyondFinalSequence final_offset)))) (\<lambda>_.
     let_ok (case fin_offset of
         Some final_offset \<Rightarrow>
           ensure (\<not> st_next_offset st > final_offset) (TcpMalformed (BeyondFinalSequence final_offset))
       | None \<Rightarrow> Ok ()) (\<lambda>_.
     let_ok (ensure (\<not> (offset > window_end \<or> remaining_end > window_end)) (flow_byte_error limits)) (\<lambda>_.
     Ok remaining_end)))))"

text \<open>The position of the first payload byte relative to the stream, possibly before its start.\<close>

definition absolute_position :: "tcp_flow_state \<Rightarrow> segment \<Rightarrow> int" where
  "absolute_position st seg =
     (let sequence = seg_sequence seg + (if seg_syn seg then 1 else 0);
          expected = st_base_sequence st + of_nat (st_next_offset st)
      in int (st_next_offset st) + serial_offset sequence expected)"

definition u64_try_from :: "int \<Rightarrow> u64 option" where
  "u64_try_from i = (if 0 \<le> i \<and> i \<le> int usize_max then Some (nat i) else None)"

definition normalize_payload ::
  "tcp_limits \<Rightarrow> tcp_flow_state \<Rightarrow> segment \<Rightarrow> (tcp_error, incoming_payload) outcome" where
  "normalize_payload limits st seg =
     (let sequence = seg_sequence seg + (if seg_syn seg then 1 else 0);
          absolute = absolute_position st seg;
          fin_offset = (if seg_fin seg then u64_try_from (absolute + int (length (seg_payload seg))) else None);
          before_base = (if absolute < 0 then nat (min (- absolute) (int (length (seg_payload seg)))) else 0);
          payload = drop before_base (seg_payload seg) in
      let_ok (ok_or (u64_try_from (max absolute 0)) (flow_byte_error limits)) (\<lambda>offset.
      let_ok (if offset < st_next_offset st
          then let consumed = min (saturating_sub (st_next_offset st) offset) (length payload) in
            let_ok (expect (split_at payload (min consumed (length payload)))) (\<lambda>(overlap, rest).
            let keep_alive_probe = (length (seg_payload seg) = 1
                  \<and> saturating_add offset 1 = st_next_offset st
                  \<and> \<not> (seg_syn seg \<or> seg_fin seg \<or> seg_rst seg)) in
            let_ok (if keep_alive_probe then Ok False else emitted_history_conflicts st offset overlap) (\<lambda>conflicting.
            let_ok (ok_or (checked_add before_base consumed) (flow_byte_error limits)) (\<lambda>payload_start.
            Ok (rest, payload_start, saturating_add before_base consumed, conflicting, st_next_offset st))))
          else Ok (payload, before_base, before_base, False, offset))
        (\<lambda>(payload, payload_start, retransmitted, conflicting, offset).
      let_ok (validate_sequence_bounds limits st offset payload fin_offset) (\<lambda>remaining_end.
      Ok \<lparr>in_sequence = sequence, in_fin_offset = fin_offset, in_payload = payload,
          in_payload_start = payload_start, in_offset = offset, in_remaining_end = remaining_end,
          in_retransmitted = retransmitted, in_conflicting = conflicting\<rparr>))))"

section \<open>Merging with the pending intervals\<close>

record pending_merge_plan =
  mp_added_bytes :: usize
  mp_overlapping_bytes :: usize
  mp_overlapping_ranges :: "(u64 \<times> u64) list"
  mp_has_conflicting_overlap :: bool
  mp_segment_count :: usize
  mp_emitted_segment_bytes :: usize
  mp_direct_output :: bool
  mp_first_affected :: "u64 option"
  mp_affected_segment_count :: usize
  mp_union_start :: u64
  mp_union_end :: u64
  mp_offset :: u64
  mp_payload_start :: usize
  mp_new_pages :: pages
  mp_output :: "bytes option"

definition or_none :: "'a option \<Rightarrow> ('a \<Rightarrow> ('e, 'b option) outcome) \<Rightarrow> ('e, 'b option) outcome" where
  "or_none x f = (case x of None \<Rightarrow> Ok None | Some a \<Rightarrow> f a)"

text \<open>The closure \<open>record\<close> of \<open>plan_pending_merge\<close>, and the loop that calls it.\<close>

definition record_interval ::
  "tcp_flow_state \<Rightarrow> u64 \<Rightarrow> bytes \<Rightarrow> u64 \<Rightarrow> u64 \<times> u64 \<Rightarrow> pending_merge_plan
     \<Rightarrow> (tcp_error, pending_merge_plan option) outcome" where
  "record_interval st offset payload payload_end iv plan =
     (let (start, stop) = iv in
      if stop < offset \<or> start > payload_end then Ok (Some plan)
      else or_none (checked_add (mp_affected_segment_count plan) 1) (\<lambda>affected.
        let plan = plan\<lparr>mp_first_affected := (case mp_first_affected plan of None \<Rightarrow> Some start | Some f \<Rightarrow> Some f),
                        mp_affected_segment_count := affected,
                        mp_union_start := min (mp_union_start plan) start,
                        mp_union_end := max (mp_union_end plan) stop\<rparr>;
            overlap_start = max start offset;
            overlap_end = min stop payload_end in
        if overlap_start < overlap_end
        then let len = overlap_end - overlap_start; first = overlap_start - offset in
          or_none (checked_add (mp_overlapping_bytes plan) len) (\<lambda>overlapping.
          let_ok (expect (get_range payload first (first + len))) (\<lambda>part.
          let_ok (pages_equals (st_pages st) overlap_start part) (\<lambda>equal.
          Ok (Some (plan\<lparr>mp_overlapping_bytes := overlapping,
              mp_overlapping_ranges := mp_overlapping_ranges plan @ [(overlap_start, overlap_end)],
              mp_has_conflicting_overlap := mp_has_conflicting_overlap plan \<or> \<not> equal\<rparr>)))))
        else Ok (Some plan)))"

fun record_intervals ::
  "tcp_flow_state \<Rightarrow> u64 \<Rightarrow> bytes \<Rightarrow> u64 \<Rightarrow> (u64 \<times> u64) list \<Rightarrow> pending_merge_plan
     \<Rightarrow> (tcp_error, pending_merge_plan option) outcome" where
  "record_intervals st offset payload payload_end [] plan = Ok (Some plan)"
| "record_intervals st offset payload payload_end (iv # ivs) plan =
     let_ok (record_interval st offset payload payload_end iv plan) (\<lambda>r.
     or_none r (record_intervals st offset payload payload_end ivs))"

definition plan_pending_merge ::
  "tcp_flow_state \<Rightarrow> u64 \<Rightarrow> bytes \<Rightarrow> usize \<Rightarrow> u64 \<Rightarrow> (tcp_error, pending_merge_plan option) outcome" where
  "plan_pending_merge st offset payload payload_start next_offset =
     (let existing = st_pending st in
      or_none (checked_add offset (length payload)) (\<lambda>payload_end.
      let plan = \<lparr>mp_added_bytes = length payload, mp_overlapping_bytes = 0, mp_overlapping_ranges = [],
                  mp_has_conflicting_overlap = False, mp_segment_count = length existing,
                  mp_emitted_segment_bytes = 0, mp_direct_output = False, mp_first_affected = None,
                  mp_affected_segment_count = 0, mp_union_start = offset, mp_union_end = payload_end,
                  mp_offset = offset, mp_payload_start = payload_start, mp_new_pages = [], mp_output = None\<rparr> in
      if payload = [] then Ok (Some plan)
      else let_ok (record_intervals st offset payload payload_end
            ((case bt_last_before existing offset of None \<Rightarrow> [] | Some iv \<Rightarrow> [iv])
              @ bt_between existing offset payload_end) plan) (\<lambda>r.
        or_none r (\<lambda>plan.
        or_none (checked_sub (length payload) (mp_overlapping_bytes plan)) (\<lambda>added.
        or_none (checked_add (length existing) 1) (\<lambda>more.
        or_none (checked_sub more (mp_affected_segment_count plan)) (\<lambda>count.
        let plan = plan\<lparr>mp_added_bytes := added,
                        mp_direct_output := (offset = next_offset \<and> mp_first_affected plan = None),
                        mp_segment_count := count\<rparr> in
        if offset = next_offset
        then let_ok (minus_or_panic (mp_union_end plan) next_offset) (\<lambda>emitted.
             Ok (Some (plan\<lparr>mp_emitted_segment_bytes := emitted\<rparr>)))
        else Ok (Some plan))))))))"

section \<open>Accounting\<close>

record push_accounting_plan =
  ac_initial_history_capacity :: usize
  ac_history_allocation :: usize
  ac_aggregate_bytes :: usize
  ac_aggregate_memory_charge :: usize

record push_accounting_input =
  ai_limits :: tcp_limits
  ai_state :: tcp_flow_state
  ai_pending_bytes :: usize
  ai_storage_bytes :: usize
  ai_emitted_segment_bytes :: usize
  ai_segment_count :: usize
  ai_aggregate_base_bytes :: usize
  ai_aggregate_base_memory_charge :: usize
  ai_retains_flow_state :: bool

definition plan_push_accounting :: "push_accounting_input \<Rightarrow> (tcp_error, push_accounting_plan) outcome" where
  "plan_push_accounting input =
     (let limits = ai_limits input; st = ai_state input;
          initial_history_capacity = saturating_sub (max_bytes_per_flow limits) (ai_pending_bytes input);
          final_pending_bytes = saturating_sub (ai_pending_bytes input) (ai_emitted_segment_bytes input);
          final_pending_segments =
            saturating_sub (ai_segment_count input) (if ai_emitted_segment_bytes input \<noteq> 0 then 1 else 0) in
      let_ok (ensure (\<not> final_pending_segments > max_segments_per_flow limits)
        (TcpResource (SegmentLimit (max_segments_per_flow limits)))) (\<lambda>_.
      let final_history_capacity = saturating_sub (max_bytes_per_flow limits) final_pending_bytes;
          prospective_history =
            min (saturating_add (min (h_len (st_history st)) initial_history_capacity) (ai_emitted_segment_bytes input))
              final_history_capacity;
          history_allocation =
            planned_history_allocation (history_capacity (st_history st)) prospective_history final_history_capacity in
      let_ok (ok_or (checked_add final_pending_bytes prospective_history) (aggregate_byte_error limits)) (\<lambda>prospective_retained.
      let_ok (ok_or (memory_charge_parts (ai_storage_bytes input) final_pending_segments history_allocation
          (ai_retains_flow_state input)) (aggregate_byte_error limits)) (\<lambda>prospective_memory.
      let_ok (ok_or (checked_add (ai_aggregate_base_bytes input) prospective_retained)
          (aggregate_byte_error limits)) (\<lambda>prospective_aggregate_bytes.
      let_ok (ok_or (checked_add (ai_aggregate_base_memory_charge input) prospective_memory)
          (aggregate_byte_error limits)) (\<lambda>prospective_aggregate_memory.
      let_ok (ensure (\<not> (prospective_aggregate_bytes > max_aggregate_bytes limits
            \<or> prospective_aggregate_memory > max_aggregate_bytes limits)) (aggregate_byte_error limits)) (\<lambda>_.
      let (aggregate_bytes, aggregate_memory_charge) =
            (if ai_retains_flow_state input then (prospective_aggregate_bytes, prospective_aggregate_memory)
             else (ai_aggregate_base_bytes input, ai_aggregate_base_memory_charge input)) in
      Ok \<lparr>ac_initial_history_capacity = initial_history_capacity, ac_history_allocation = history_allocation,
          ac_aggregate_bytes = aggregate_bytes, ac_aggregate_memory_charge = aggregate_memory_charge\<rparr>)))))))"

section \<open>The whole plan\<close>

record planned_merge =
  pm_merge :: pending_merge_plan
  pm_pending_bytes :: usize
  pm_initial_history_capacity :: usize
  pm_history_allocation :: usize
  pm_missing_pages :: usize
  pm_closed :: bool
  pm_aggregate_bytes :: usize
  pm_aggregate_memory_charge :: usize

definition validate_pending_final_offset :: "tcp_flow_state \<Rightarrow> incoming_payload \<Rightarrow> (tcp_error, unit) outcome" where
  "validate_pending_final_offset st incoming =
     (case in_fin_offset incoming of
        None \<Rightarrow> Ok ()
      | Some final_offset \<Rightarrow>
          if (case bt_last (st_pending st) of None \<Rightarrow> False | Some (_, stop) \<Rightarrow> stop > final_offset)
             \<or> in_remaining_end incoming > final_offset
          then Err (TcpMalformed (BeyondFinalSequence final_offset)) else Ok ())"

definition plan_merge_and_accounting ::
  "tcp_limits \<Rightarrow> tcp_flow_state \<Rightarrow> usize \<Rightarrow> usize \<Rightarrow> segment \<Rightarrow> incoming_payload
     \<Rightarrow> (tcp_error, planned_merge) outcome" where
  "plan_merge_and_accounting limits st aggregate_base_bytes aggregate_base_memory_charge seg incoming =
     let_ok (plan_pending_merge st (in_offset incoming) (in_payload incoming) (in_payload_start incoming)
         (st_next_offset st)) (\<lambda>merge.
     let_ok (ok_or merge (flow_byte_error limits)) (\<lambda>merge.
     let_ok (ok_or (case checked_add (st_pending_bytes st) (mp_added_bytes merge) of
           None \<Rightarrow> None | Some n \<Rightarrow> if n \<le> max_bytes_per_flow limits then Some n else None)
         (flow_byte_error limits)) (\<lambda>pending_bytes.
     let_ok (validate_pending_final_offset st incoming) (\<lambda>_.
     let_ok (ok_or (checked_add (st_next_offset st) (mp_emitted_segment_bytes merge)) (flow_byte_error limits)) (\<lambda>final_next_offset.
     let final_fin_offset = (case st_fin_offset st of None \<Rightarrow> in_fin_offset incoming | Some f \<Rightarrow> Some f);
         closed = (seg_rst seg
           \<or> (case final_fin_offset of None \<Rightarrow> False | Some f \<Rightarrow> final_next_offset \<ge> f)) in
     let_ok (if mp_emitted_segment_bytes merge \<noteq> 0
         then let_ok (remaining_count (st_pages st) (st_pending st) (mp_union_start merge) (mp_union_end merge)) (\<lambda>n.
              Ok (0, n))
         else let missing = length (filter (\<lambda>key. bt_get (st_pages st) key = None)
                    (page_keys (in_offset incoming) (in_remaining_end incoming))) in
              let_ok (ok_or (checked_add (length (st_pages st)) missing) (aggregate_byte_error limits)) (\<lambda>n.
              Ok (missing, n))) (\<lambda>(missing_pages, final_page_count).
     let_ok (ok_or (checked_mul final_page_count PAGE_CHARGE) (aggregate_byte_error limits)) (\<lambda>storage_bytes.
     let_ok (plan_push_accounting
         \<lparr>ai_limits = limits, ai_state = st, ai_pending_bytes = pending_bytes, ai_storage_bytes = storage_bytes,
          ai_emitted_segment_bytes = mp_emitted_segment_bytes merge, ai_segment_count = mp_segment_count merge,
          ai_aggregate_base_bytes = aggregate_base_bytes,
          ai_aggregate_base_memory_charge = aggregate_base_memory_charge,
          ai_retains_flow_state = (\<not> closed)\<rparr>) (\<lambda>accounting.
     Ok \<lparr>pm_merge = merge, pm_pending_bytes = pending_bytes,
         pm_initial_history_capacity = ac_initial_history_capacity accounting,
         pm_history_allocation = ac_history_allocation accounting, pm_missing_pages = missing_pages,
         pm_closed = closed, pm_aggregate_bytes = ac_aggregate_bytes accounting,
         pm_aggregate_memory_charge = ac_aggregate_memory_charge accounting\<rparr>))))))))"

text \<open>\<open>materialize_pending_merge\<close> allocates the pages or the output of a merge and fills the output.\<close>

definition prepare_page :: "allocator \<Rightarrow> pages \<Rightarrow> u64 \<Rightarrow> pages \<Rightarrow> (tcp_error, pages) outcome" where
  "prepare_page alloc existing key new_pages =
     (if bt_get existing key = None
      then let_ok (allocate_page alloc key) (\<lambda>page. Ok (bt_insert key page new_pages))
      else Ok new_pages)"

definition copy_interval :: "pages \<Rightarrow> u64 \<Rightarrow> u64 \<times> u64 \<Rightarrow> bytes \<Rightarrow> (tcp_error, bytes) outcome" where
  "copy_interval existing union_start iv output =
     (let (start, stop) = iv in
      let_ok (minus_or_panic start union_start) (\<lambda>relative.
      let_ok (minus_or_panic stop start) (\<lambda>len.
      let_ok (expect (get_range output relative (relative + len))) (\<lambda>window.
      let_ok (pages_copy_out existing start window) (\<lambda>window'.
      expect (write_range output relative window'))))))"

definition materialize_pending_merge ::
  "allocator \<Rightarrow> tcp_flow_state \<Rightarrow> u64 \<Rightarrow> bytes \<Rightarrow> pending_merge_plan \<Rightarrow> (tcp_error, pending_merge_plan) outcome" where
  "materialize_pending_merge alloc st offset payload plan =
     (if mp_added_bytes plan = 0 \<or> mp_direct_output plan then Ok plan
      else if mp_emitted_segment_bytes plan = 0
      then let_ok (plus_or_panic offset (length payload)) (\<lambda>limit.
           let_ok (for_each (prepare_page alloc (st_pages st)) (page_keys offset limit) (mp_new_pages plan)) (\<lambda>new_pages.
           Ok (plan\<lparr>mp_new_pages := new_pages\<rparr>)))
      else
        let_ok (ensure (alloc AllocOutput (mp_emitted_segment_bytes plan))
          (TcpResource (TcpAllocationFailed (mp_emitted_segment_bytes plan)))) (\<lambda>_.
        let output = replicate (mp_emitted_segment_bytes plan) 0 in
        let_ok (minus_or_panic offset (mp_union_start plan)) (\<lambda>first.
        let_ok (expect (write_range output first payload)) (\<lambda>output.
        let_ok (case mp_first_affected plan of
            None \<Rightarrow> Ok output
          | Some first \<Rightarrow>
              for_each (copy_interval (st_pages st) (mp_union_start plan))
                (take (mp_affected_segment_count plan) (bt_from (st_pending st) first)) output) (\<lambda>output.
        Ok (plan\<lparr>mp_output := Some output\<rparr>))))))"

record push_plan =
  pp_payload_sequence :: u32
  pp_incoming_fin_offset :: "u64 option"
  pp_retransmitted :: usize
  pp_conflicting :: bool
  pp_merge :: pending_merge_plan
  pp_direct_payload :: "(usize \<times> usize) option"
  pp_pending_bytes :: usize
  pp_initial_history_capacity :: usize
  pp_history_replacement :: "history option"
  pp_closed :: bool
  pp_aggregate_bytes :: usize
  pp_aggregate_memory_charge :: usize

text \<open>The transient peak of a push: what is retained plus every buffer the plan is about to allocate.\<close>

definition transient_peak :: "tcp_limits \<Rightarrow> tcp_flow_state \<Rightarrow> usize \<Rightarrow> planned_merge \<Rightarrow> (tcp_error, usize) outcome" where
  "transient_peak limits st transient_base_memory_charge planned =
     (let merge = pm_merge planned;
          history = (if history_capacity (st_history st) \<noteq> pm_history_allocation planned
                     then pm_history_allocation planned else 0) in
      let_ok (ok_or (checked_mul (saturating_sub (mp_segment_count merge) (length (st_pending st)))
          PENDING_SEGMENT_METADATA_CHARGE) (aggregate_byte_error limits)) (\<lambda>descriptors.
      let_ok (ok_or (checked_mul (pm_missing_pages planned) PAGE_CHARGE) (aggregate_byte_error limits)) (\<lambda>fresh.
      ok_or (Option.bind (checked_add transient_base_memory_charge fresh) (\<lambda>v.
             Option.bind (checked_add v (if mp_direct_output merge then 0 else mp_emitted_segment_bytes merge)) (\<lambda>v.
             Option.bind (checked_add v history) (\<lambda>v.
             checked_add v (if mp_emitted_segment_bytes merge = 0 then descriptors else 0)))))
        (aggregate_byte_error limits))))"

definition plan_push ::
  "allocator \<Rightarrow> tcp_limits \<Rightarrow> tcp_flow_state \<Rightarrow> usize \<Rightarrow> usize \<Rightarrow> usize \<Rightarrow> segment \<Rightarrow> (tcp_error, push_plan) outcome" where
  "plan_push alloc limits st aggregate_base_bytes aggregate_base_memory_charge transient_base_memory_charge seg =
     let_ok (normalize_payload limits st seg) (\<lambda>incoming.
     let_ok (plan_merge_and_accounting limits st aggregate_base_bytes aggregate_base_memory_charge seg incoming) (\<lambda>planned.
     let_ok (transient_peak limits st transient_base_memory_charge planned) (\<lambda>peak.
     let_ok (ensure (\<not> peak > max_aggregate_bytes limits) (aggregate_byte_error limits)) (\<lambda>_.
     let_ok (materialize_pending_merge alloc st (in_offset incoming) (in_payload incoming) (pm_merge planned)) (\<lambda>merge.
     let_ok (prepare_emitted_history alloc st (pm_initial_history_capacity planned) (pm_history_allocation planned))
       (\<lambda>history_replacement.
     let_ok (if mp_direct_output merge
         then let_ok (ok_or (checked_add (in_payload_start incoming) (length (in_payload incoming)))
                (flow_byte_error limits)) (\<lambda>stop.
              Ok (Some (in_payload_start incoming, stop)))
         else Ok None) (\<lambda>direct_payload.
     Ok \<lparr>pp_payload_sequence = in_sequence incoming, pp_incoming_fin_offset = in_fin_offset incoming,
         pp_retransmitted = in_retransmitted incoming, pp_conflicting = in_conflicting incoming,
         pp_merge = merge, pp_direct_payload = direct_payload, pp_pending_bytes = pm_pending_bytes planned,
         pp_initial_history_capacity = pm_initial_history_capacity planned,
         pp_history_replacement = history_replacement, pp_closed = pm_closed planned,
         pp_aggregate_bytes = pm_aggregate_bytes planned,
         pp_aggregate_memory_charge = pm_aggregate_memory_charge planned\<rparr>)))))))"

end
