(* ===== verification/Tcp_Commit.thy ===== *)
theory Tcp_Commit
  imports Tcp_Pending
begin

text \<open>
  Committing a planned push to a flow (\<open>analysis/reassembly/tcp/pending/commit.rs\<close>). Nothing here
  can fail any more: every \<open>expect\<close>, \<open>assert\<close> and index of the code is a possible panic of the model,
  and the lemmas of \<open>Tcp_Flow\<close> show that a planned push reaches none of them.
\<close>

section \<open>Applying the merge\<close>

definition checked_slice :: "bytes \<Rightarrow> usize \<Rightarrow> usize \<Rightarrow> bytes option" where
  "checked_slice bs start stop =
     (if start > stop \<or> stop > length bs then None else Some (slice_of bs start stop))"

definition adopt_page :: "u64 \<times> page \<Rightarrow> pages \<Rightarrow> (tcp_error, pages) outcome" where
  "adopt_page kp existing =
     (let (key, page) = kp in
      let_ok (assert_that (bt_get existing key = None)) (\<lambda>_. Ok (bt_insert key page existing)))"

text \<open>One turn of the loop that stores the gaps of the payload between the affected intervals.\<close>

definition fill_gap ::
  "bytes \<Rightarrow> u64 \<Rightarrow> u64 \<Rightarrow> u64 \<times> u64 \<Rightarrow> pages \<times> u64 \<Rightarrow> (tcp_error, pages \<times> u64) outcome" where
  "fill_gap payload offset payload_end iv acc =
     (let (start, fin) = iv; (existing, cursor) = acc; stop = min start payload_end in
      let_ok (if cursor < stop
          then let_ok (minus_or_panic cursor offset) (\<lambda>a.
               let_ok (minus_or_panic stop offset) (\<lambda>b.
               let_ok (expect (get_range payload a b)) (\<lambda>part.
               pages_insert cursor part existing)))
          else Ok existing) (\<lambda>existing.
      Ok (existing, min (max cursor fin) payload_end)))"

definition store_payload ::
  "bytes \<Rightarrow> u64 \<Rightarrow> (u64 \<times> u64) list \<Rightarrow> pages \<Rightarrow> (tcp_error, pages) outcome" where
  "store_payload payload offset affected existing =
     let_ok (plus_or_panic offset (length payload)) (\<lambda>payload_end.
     let_ok (for_each (fill_gap payload offset payload_end) affected (existing, offset)) (\<lambda>(existing, cursor).
     if cursor < payload_end
     then let_ok (minus_or_panic cursor offset) (\<lambda>a.
          let_ok (expect (get_from payload a)) (\<lambda>part.
          pages_insert cursor part existing))
     else Ok existing))"

text \<open>The loop that removes the affected intervals, and their bytes when they are delivered.\<close>

fun remove_affected ::
  "nat \<Rightarrow> u64 \<Rightarrow> bool \<Rightarrow> (u64, u64) btree \<times> pages \<Rightarrow> (tcp_error, (u64, u64) btree \<times> pages) outcome" where
  "remove_affected 0 first emitted acc = Ok acc"
| "remove_affected (Suc n) first emitted (intervals, existing) =
     let_ok (expect (bt_first (bt_from intervals first))) (\<lambda>(start, _).
     let_ok (expect (bt_get intervals start)) (\<lambda>stop.
     let_ok (if emitted then pages_remove start stop existing else Ok existing) (\<lambda>existing.
     remove_affected n first emitted (bt_remove start intervals, existing))))"

definition apply_pending_merge ::
  "tcp_flow_state \<Rightarrow> pending_merge_plan \<Rightarrow> bytes \<Rightarrow> (tcp_error, tcp_flow_state \<times> bytes option) outcome" where
  "apply_pending_merge st merge payload =
     (if mp_added_bytes merge = 0 \<or> mp_direct_output merge then Ok (st, mp_output merge)
      else
        let emitted = (mp_emitted_segment_bytes merge \<noteq> 0);
            affected = (case mp_first_affected merge of None \<Rightarrow> []
              | Some first \<Rightarrow> take (mp_affected_segment_count merge) (bt_from (st_pending st) first)) in
        let_ok (if emitted then Ok (st_pages st)
            else let_ok (for_each adopt_page (mp_new_pages merge) (st_pages st)) (\<lambda>existing.
              let_ok (expect (get_from payload (mp_payload_start merge))) (\<lambda>rest.
              store_payload rest (mp_offset merge) affected existing))) (\<lambda>existing.
        let_ok (case mp_first_affected merge of None \<Rightarrow> Ok (st_pending st, existing)
            | Some first \<Rightarrow>
                remove_affected (mp_affected_segment_count merge) first emitted (st_pending st, existing))
          (\<lambda>(intervals, existing).
        let_ok (if emitted then Ok intervals
            else let_ok (assert_that (bt_get intervals (mp_union_start merge) = None)) (\<lambda>_.
              Ok (bt_insert (mp_union_start merge) (mp_union_end merge) intervals))) (\<lambda>intervals.
        let_ok (minus_or_panic (mp_segment_count merge) (if emitted then 1 else 0)) (\<lambda>expected.
        let_ok (assert_that (length intervals = expected)) (\<lambda>_.
        Ok (st\<lparr>st_pending := intervals, st_pages := existing\<rparr>, mp_output merge)))))))"

section \<open>Delivering data\<close>

definition emit_data ::
  "scoped_flow_key \<Rightarrow> bytes \<Rightarrow> usize \<Rightarrow> tcp_flow_state \<times> event list
     \<Rightarrow> (tcp_error, tcp_flow_state \<times> event list) outcome" where
  "emit_data fkey bs max_bytes acc =
     (let (st, events) = acc;
          sequence = st_base_sequence st + of_nat (st_next_offset st);
          output_start = st_next_offset st in
      let_ok (expect (checked_add (st_next_offset st) (length bs))) (\<lambda>next_offset.
      let st = st\<lparr>st_next_offset := next_offset\<rparr>;
          retained = saturating_sub max_bytes (st_pending_bytes st) in
      let_ok (append_emitted_history output_start bs retained st) (\<lambda>st.
      Ok (st, events @ [Data fkey sequence bs]))))"

definition commit_flow_push ::
  "tcp_flow_state \<Rightarrow> scoped_flow_key \<Rightarrow> instant \<Rightarrow> usize \<Rightarrow> push_plan \<Rightarrow> bytes option \<Rightarrow> bytes
     \<Rightarrow> (tcp_error, tcp_flow_state \<times> event list) outcome" where
  "commit_flow_push st fkey now max_bytes plan direct_payload incoming_payload =
     (let merge = pp_merge plan;
          ranges = (if pp_retransmitted plan \<noteq> 0
              then [(pp_payload_sequence plan, pp_payload_sequence plan + of_nat (pp_retransmitted plan))] else [])
            @ map (\<lambda>(a, b). (st_base_sequence st + of_nat a, st_base_sequence st + of_nat b))
                (mp_overlapping_ranges merge);
          retransmitted = saturating_add (pp_retransmitted plan) (mp_overlapping_bytes merge);
          conflicting = (pp_conflicting plan \<or> mp_has_conflicting_overlap merge);
          st = st\<lparr>st_last_update := max (st_last_update st) now\<rparr>;
          st = trim_emitted_history (pp_initial_history_capacity plan) st;
          st = (case pp_history_replacement plan of None \<Rightarrow> st | Some h \<Rightarrow> st\<lparr>st_history := h\<rparr>) in
      let_ok (apply_pending_merge st merge incoming_payload) (\<lambda>(st, output).
      let st = st\<lparr>st_pending_bytes := pp_pending_bytes plan\<rparr>;
          st = (if st_fin_offset st = None then st\<lparr>st_fin_offset := pp_incoming_fin_offset plan\<rparr> else st);
          events = (if retransmitted \<noteq> 0 \<or> conflicting
            then [Retransmission fkey (pp_payload_sequence plan) retransmitted conflicting ranges] else []) in
      let_ok (case direct_payload of None \<Rightarrow> Ok (st, events)
          | Some bs \<Rightarrow>
              emit_data fkey bs max_bytes
                (st\<lparr>st_pending_bytes := saturating_sub (st_pending_bytes st) (length bs)\<rparr>, events)) (\<lambda>(st, events).
      case output of None \<Rightarrow> Ok (st, events)
      | Some bs \<Rightarrow>
          let_ok (expect (checked_sub (st_pending_bytes st) (length bs))) (\<lambda>pending_bytes.
          emit_data fkey bs max_bytes (st\<lparr>st_pending_bytes := pending_bytes\<rparr>, events)))))"

end
