(* ===== verification/Tcp_Engine.thy ===== *)
theory Tcp_Engine
  imports Tcp_Commit
begin

text \<open>
  The TCP reassembler (\<open>analysis/reassembly/tcp/engine.rs\<close>, \<open>tcp.rs\<close> and \<open>commit_push\<close> of
  \<open>pending/commit.rs\<close>): a bounded table of flows with shared aggregates and an expiry index.
\<close>

record reassembler =
  tr_limits :: tcp_limits
  tr_flows :: "(scoped_flow_key, tcp_flow_state) btree"
  tr_expiry :: "scoped_flow_key expiry_index"
  tr_aggregate_bytes :: usize
  tr_aggregate_memory_charge :: usize

definition tcp_new :: "instant \<Rightarrow> tcp_limits \<Rightarrow> (analysis_error, reassembler) outcome" where
  "tcp_new clock limits =
     let_ok (tcp_limits_validate clock limits) (\<lambda>_.
     Ok \<lparr>tr_limits = limits, tr_flows = [], tr_expiry = [], tr_aggregate_bytes = 0,
         tr_aggregate_memory_charge = 0\<rparr>)"

definition commit_push ::
  "reassembler \<Rightarrow> segment \<Rightarrow> instant \<Rightarrow> bool \<Rightarrow> push_plan \<Rightarrow> (tcp_error, reassembler \<times> event list) outcome" where
  "commit_push r seg now changes_generation plan =
     (let first_payload_sequence = seg_sequence seg + (if seg_syn seg then 1 else 0);
          fkey = seg_flow seg; payload = seg_payload seg;
          max_bytes = max_bytes_per_flow (tr_limits r);
          previous = bt_get (tr_flows r) fkey;
          previous_deadline = Option.bind previous st_deadline;
          last_update = (case previous of None \<Rightarrow> now | Some st \<Rightarrow> max (st_last_update st) now);
          deadline = instant_checked_add last_update (idle_expiry (tr_limits r));
          direct_payload = Option.bind (pp_direct_payload plan) (\<lambda>(a, b). checked_slice payload a b) in
      let_ok (if changes_generation
          then let st = tcp_flow_new first_payload_sequence last_update deadline in
            let_ok (commit_flow_push st fkey now max_bytes plan direct_payload payload) (\<lambda>(st, events).
            Ok (tr_flows r, Some st, events))
          else let_ok (expect previous) (\<lambda>st.
            let_ok (commit_flow_push st fkey now max_bytes plan direct_payload payload) (\<lambda>(st, events).
            Ok (bt_insert fkey (st\<lparr>st_deadline := deadline\<rparr>) (tr_flows r), None, events))))
        (\<lambda>(flows, replacement, events).
      let r = r\<lparr>tr_flows := flows, tr_aggregate_bytes := pp_aggregate_bytes plan,
                tr_aggregate_memory_charge := pp_aggregate_memory_charge plan\<rparr> in
      if pp_closed plan
      then Ok (r\<lparr>tr_expiry := expiry_remove previous_deadline fkey (tr_expiry r),
                 tr_flows := bt_remove fkey (tr_flows r)\<rparr>, events @ [Closed fkey (seg_rst seg)])
      else
        let r = (case replacement of None \<Rightarrow> r | Some st \<Rightarrow> r\<lparr>tr_flows := bt_insert fkey st (tr_flows r)\<rparr>);
            r = (if previous_deadline \<noteq> deadline
                 then r\<lparr>tr_expiry := expiry_insert deadline fkey (expiry_remove previous_deadline fkey (tr_expiry r))\<rparr>
                 else r) in
        Ok (r, events)))"

definition aggregates_without :: "reassembler \<Rightarrow> tcp_flow_state option \<Rightarrow> (tcp_error, usize \<times> usize) outcome" where
  "aggregates_without r existing =
     (let err = aggregate_byte_error (tr_limits r) in
      let_ok (ok_or (case existing of None \<Rightarrow> Some 0 | Some st \<Rightarrow> retained_bytes st) err) (\<lambda>old_retained_bytes.
      let_ok (ok_or (case existing of None \<Rightarrow> Some 0 | Some st \<Rightarrow> flow_memory_charge st) err) (\<lambda>old_memory_charge.
      let_ok (ok_or (checked_sub (tr_aggregate_bytes r) old_retained_bytes) err) (\<lambda>aggregate_bytes.
      let_ok (ok_or (checked_sub (tr_aggregate_memory_charge r) old_memory_charge) err) (\<lambda>aggregate_memory_charge.
      Ok (aggregate_bytes, aggregate_memory_charge))))))"

definition tcp_push ::
  "allocator \<Rightarrow> segment \<Rightarrow> instant \<Rightarrow> reassembler \<Rightarrow> (tcp_error, reassembler \<times> event list) outcome" where
  "tcp_push alloc seg now r =
     (let existing = bt_get (tr_flows r) (seg_flow seg) in
      if seg_payload seg = [] \<and> \<not> seg_syn seg \<and> \<not> seg_fin seg \<and> \<not> seg_rst seg \<and> existing = None
      then Ok (r, [])
      else
        let first_payload_sequence = seg_sequence seg + (if seg_syn seg then 1 else 0);
            changes_generation = ((seg_syn seg \<or> existing = None)
              \<and> (case existing of None \<Rightarrow> True | Some st \<Rightarrow> st_base_sequence st \<noteq> first_payload_sequence)) in
        let_ok (ensure (\<not> (changes_generation
            \<and> saturating_sub (length (tr_flows r)) (if existing = None then 0 else 1) \<ge> max_flows (tr_limits r)))
          (TcpResource (FlowLimit (max_flows (tr_limits r))))) (\<lambda>_.
        let_ok (aggregates_without r existing) (\<lambda>(aggregate_bytes, aggregate_memory_charge).
        let empty = tcp_flow_new first_payload_sequence now
              (instant_checked_add now (idle_expiry (tr_limits r))) in
        let_ok (if changes_generation then Ok empty else expect existing) (\<lambda>st.
        let_ok (plan_push alloc (tr_limits r) st aggregate_bytes aggregate_memory_charge
            (tr_aggregate_memory_charge r) seg) (\<lambda>plan.
        commit_push r seg now changes_generation plan)))))"

section \<open>Removing flows\<close>

definition remove_flow :: "scoped_flow_key \<Rightarrow> reassembler \<times> event list \<Rightarrow> reassembler \<times> event list" where
  "remove_flow key acc =
     (let (r, events) = acc in
      case bt_get (tr_flows r) key of
        None \<Rightarrow> (r, events)
      | Some st \<Rightarrow>
          let gap = (case bt_first (st_pending st) of
                None \<Rightarrow> []
              | Some (next, _) \<Rightarrow>
                  if next > st_next_offset st
                  then [Gap key (st_base_sequence st + of_nat (st_next_offset st)) (st_base_sequence st + of_nat next)]
                  else []) in
          (r\<lparr>tr_flows := bt_remove key (tr_flows r),
             tr_expiry := expiry_remove (st_deadline st) key (tr_expiry r),
             tr_aggregate_bytes :=
               saturating_sub (tr_aggregate_bytes r) (case retained_bytes st of None \<Rightarrow> 0 | Some n \<Rightarrow> n),
             tr_aggregate_memory_charge :=
               saturating_sub (tr_aggregate_memory_charge r) (case flow_memory_charge st of None \<Rightarrow> 0 | Some n \<Rightarrow> n)\<rparr>,
           events @ gap @ [Evicted key (st_pending_bytes st)]))"

definition remove_flows :: "scoped_flow_key list \<Rightarrow> reassembler \<Rightarrow> reassembler \<times> event list" where
  "remove_flows keys r = fold remove_flow (sort keys) (r, [])"

definition tcp_expire :: "instant \<Rightarrow> reassembler \<Rightarrow> reassembler \<times> event list" where
  "tcp_expire now r =
     (let (keys, expiry) = take_expired now (tr_expiry r) in remove_flows keys (r\<lparr>tr_expiry := expiry\<rparr>))"

definition tcp_flush :: "reassembler \<Rightarrow> reassembler \<times> event list" where
  "tcp_flush r = remove_flows (map fst (tr_flows r)) r"

definition evict_flow :: "scoped_flow_key \<Rightarrow> reassembler \<Rightarrow> reassembler \<times> event list" where
  "evict_flow fkey r = remove_flows [fkey] r"

section \<open>Queries\<close>

definition flow_count :: "reassembler \<Rightarrow> usize" where
  "flow_count r = length (tr_flows r)"

definition flow_base_sequence :: "reassembler \<Rightarrow> scoped_flow_key \<Rightarrow> u32 option" where
  "flow_base_sequence r fkey = map_option st_base_sequence (bt_get (tr_flows r) fkey)"

definition flow_next_sequence :: "reassembler \<Rightarrow> scoped_flow_key \<Rightarrow> u32 option" where
  "flow_next_sequence r fkey =
     map_option (\<lambda>st. st_base_sequence st + of_nat (st_next_offset st)) (bt_get (tr_flows r) fkey)"

definition flow_observed_payload :: "reassembler \<Rightarrow> scoped_flow_key \<Rightarrow> bool" where
  "flow_observed_payload r fkey =
     (case bt_get (tr_flows r) fkey of None \<Rightarrow> False
      | Some st \<Rightarrow> st_next_offset st > 0 \<or> st_pending st \<noteq> [] \<or> st_fin_offset st \<noteq> None)"

end
