(* ===== verification/Tcp_Merge.thy ===== *)
theory Tcp_Merge
  imports Tcp_Engine
begin

text \<open>
  How a payload range meets the pending intervals of a flow. The intervals it touches form one block
  of the sorted list; the merge plan of \<open>plan_pending_merge\<close> is determined by that block.
\<close>

section \<open>The block of intervals a range touches\<close>

definition touches :: "u64 \<Rightarrow> u64 \<Rightarrow> u64 \<times> u64 \<Rightarrow> bool" where
  "touches a b iv \<longleftrightarrow> \<not> (snd iv < a \<or> fst iv > b)"

lemma block_split:
  assumes "apart m" and "a \<le> b"
  obtains l k r where "m = l @ k @ r" and "\<And>iv. iv \<in> set l \<Longrightarrow> snd iv < a"
    and "\<And>iv. iv \<in> set k \<Longrightarrow> touches a b iv" and "\<And>iv. iv \<in> set r \<Longrightarrow> b < fst iv"
  using assms
proof (induction m arbitrary: thesis)
  case Nil
  then show ?case
    using Nil.prems(1) [of "[]" "[]" "[]"] by simp
next
  case (Cons iv m)
  obtain s e where iv: "iv = (s, e)"
    by fastforce
  have ap: "apart m" "s < e" "\<And>y. y \<in> set m \<Longrightarrow> e < fst y"
    using Cons.prems(2) iv by (auto simp: apart_Cons)
  obtain l k r where m: "m = l @ k @ r" and l: "\<And>iv. iv \<in> set l \<Longrightarrow> snd iv < a"
    and k: "\<And>iv. iv \<in> set k \<Longrightarrow> touches a b iv" and r: "\<And>iv. iv \<in> set r \<Longrightarrow> b < fst iv"
    using Cons.IH [OF _ ap(1) Cons.prems(3)] by metis
  consider "e < a" | "a \<le> e" "s \<le> b" | "b < s"
    by linarith
  then show ?case
  proof cases
    case 1
    then show ?thesis
      by (intro Cons.prems(1) [of "iv # l" k r]) (use m l k r iv in auto)
  next
    case 2
    have "l = []"
    proof (rule ccontr)
      assume "l \<noteq> []"
      then obtain y where "y \<in> set l"
        by (cases l) auto
      moreover have "fst y < snd y"
        using Cons.prems(2) \<open>y \<in> set l\<close> m by (force simp: apart_def)
      ultimately show False
        using l [of y] ap(3) [of y] m 2 by auto
    qed
    with 2 show ?thesis
      by (intro Cons.prems(1) [of "[]" "iv # k" r]) (use m k r iv in \<open>auto simp: touches_def\<close>)
  next
    case 3
    then have "b < fst y" if "y \<in> set m" for y
      using ap that by fastforce
    with 3 show ?thesis
      by (intro Cons.prems(1) [of "[]" "[]" "iv # m"]) (use iv in auto)
  qed
qed

lemma bt_last_before_last:
  "bt_last_before m k = (if filter (\<lambda>e. fst e < k) m = [] then None else Some (last (filter (\<lambda>e. fst e < k) m)))"
  by (simp add: bt_last_before_def split: list.split)

lemma last_before_block:
  assumes ap: "apart (l @ k @ r)" and l: "\<And>iv. iv \<in> set l \<Longrightarrow> snd iv < a"
    and k: "\<And>iv. iv \<in> set k \<Longrightarrow> touches a b iv" and r: "\<And>iv. iv \<in> set r \<Longrightarrow> b < fst iv" and "a \<le> b"
  shows "\<exists>x. (\<forall>iv\<in>set x. snd iv < a)
    \<and> (case bt_last_before (l @ k @ r) a of None \<Rightarrow> [] | Some iv \<Rightarrow> [iv]) @ bt_between (l @ k @ r) a b = x @ k"
proof -
  have lt: "fst iv < snd iv" if "iv \<in> set (l @ k @ r)" for iv
    using ap that by (force simp: apart_def)
  have fl: "filter (\<lambda>e. a \<le> fst e \<and> fst e \<le> b) l = []" "filter (\<lambda>e. fst e < a) l = l"
    using l lt by (fastforce simp: filter_empty_conv filter_id_conv)+
  have fr: "filter (\<lambda>e. a \<le> fst e \<and> fst e \<le> b) r = []" "filter (\<lambda>e. fst e < a) r = []"
    using r \<open>a \<le> b\<close> by (fastforce simp: filter_empty_conv)+
  have rest: "a \<le> fst iv \<and> fst iv \<le> b" if "k = iv0 # ks" "iv \<in> set ks" for iv0 ks iv
  proof -
    have "snd iv0 < fst iv"
      using ap that by (auto simp: sorted_wrt_append apart_def)
    then show ?thesis
      using that k [of iv] k [of iv0] by (auto simp: touches_def)
  qed
  show ?thesis
  proof (cases "\<exists>iv ks. k = iv # ks \<and> fst iv < a")
    case True
    then obtain iv ks where kk: "k = iv # ks" and "fst iv < a"
      by blast
    then have "filter (\<lambda>e. a \<le> fst e \<and> fst e \<le> b) k = ks" "filter (\<lambda>e. fst e < a) k = [iv]"
      using rest [OF kk] by (auto simp: filter_id_conv filter_empty_conv not_less)
    then have "bt_last_before (l @ k @ r) a = Some iv" "bt_between (l @ k @ r) a b = ks"
      unfolding bt_last_before_last bt_between_def filter_append fl fr by simp_all
    then show ?thesis
      by (intro exI [of _ "[]"]) (simp add: kk)
  next
    case False
    have "a \<le> fst iv \<and> fst iv \<le> b" if "iv \<in> set k" for iv
      using that False rest [of "hd k" "tl k" iv] k [of iv] by (cases k) (auto simp: touches_def)
    then have "filter (\<lambda>e. a \<le> fst e \<and> fst e \<le> b) k = k" "filter (\<lambda>e. fst e < a) k = []"
      by (auto simp: filter_id_conv filter_empty_conv not_less)
    then have "bt_last_before (l @ k @ r) a = (if l = [] then None else Some (last l))" "bt_between (l @ k @ r) a b = k"
      unfolding bt_last_before_last bt_between_def filter_append fl fr by simp_all
    then show ?thesis
      using l by (intro exI [of _ "if l = [] then [] else [last l]"]) simp
  qed
qed

section \<open>Bytes in the block\<close>

definition clipped :: "u64 \<Rightarrow> u64 \<Rightarrow> (u64 \<times> u64) list \<Rightarrow> (u64 \<times> u64) list" where
  "clipped a b ivs = filter (\<lambda>(s, e). s < e) (map (\<lambda>(s, e). (max s a, min e b)) ivs)"

lemma clipped_Cons:
  "clipped a b ((s, e) # ivs) = (if max s a < min e b then [(max s a, min e b)] else []) @ clipped a b ivs"
  by (simp add: clipped_def)

lemma clip_range: "{s..<e} \<inter> {a..<b} = {max s a..<min e (b::nat)}"
  by auto

text \<open>Whether a payload placed at \<open>a\<close> differs from a byte already held in one of the intervals.\<close>

definition differs :: "pages \<Rightarrow> u64 \<Rightarrow> bytes \<Rightarrow> u64 set \<Rightarrow> bool" where
  "differs held_pages a payload C \<longleftrightarrow>
     (\<exists>p\<in>C. a \<le> p \<and> p < a + length payload \<and> page_byte held_pages p \<noteq> Some (payload ! (p - a)))"

lemma differs_Un: "differs pg a payload (C \<union> D) \<longleftrightarrow> differs pg a payload C \<or> differs pg a payload D"
  by (auto simp: differs_def)

lemma page_byte_some:
  assumes "pages_ok pg C" and "p \<in> C"
  shows "page_byte pg p = Some (the (page_byte pg p))"
  using pages_ok_get [OF assms] by (metis option.sel option.simps(9) page_byte_def)

lemma stored_eq_differs:
  assumes "pages_ok pg C" and "{s..<e} \<subseteq> C" and "a \<le> s" and "e \<le> a + length payload"
  shows "stored pg s e = slice_of payload (s - a) (e - a) \<longleftrightarrow> \<not> differs pg a payload {s..<e}"
proof -
  have some: "page_byte pg p = Some (the (page_byte pg p))" if "p \<in> {s..<e}" for p
    using page_byte_some [OF assms(1)] assms(2) that by blast
  have "stored pg s e = slice_of payload (s - a) (e - a) \<longleftrightarrow> (\<forall>i<e - s. the (page_byte pg (s + i)) = payload ! (s + i - a))"
    using assms(3,4) by (auto simp: list_eq_iff_nth_eq stored_def nth_slice_of)
  also have "\<dots> \<longleftrightarrow> (\<forall>p\<in>{s..<e}. the (page_byte pg p) = payload ! (p - a))"
  proof
    assume h: "\<forall>i<e - s. the (page_byte pg (s + i)) = payload ! (s + i - a)"
    show "\<forall>p\<in>{s..<e}. the (page_byte pg p) = payload ! (p - a)"
    proof
      fix p
      assume "p \<in> {s..<e}"
      then show "the (page_byte pg p) = payload ! (p - a)"
        using h [rule_format, of "p - s"] by auto
    qed
  qed auto
  also have "\<dots> \<longleftrightarrow> \<not> differs pg a payload {s..<e}"
    unfolding differs_def using some assms(3,4) by (metis (no_types, lifting) atLeastLessThan_iff le_trans
        less_le_trans option.sel)
  finally show ?thesis .
qed

lemma record_interval_ok:
  assumes ok: "pages_ok (st_pages st) C" and iv: "{s..<e} \<subseteq> C" "s < e" and b: "b = a + length payload"
    and t: "touches a b (s, e)" and small: "mp_affected_segment_count plan < usize_max"
    "mp_overlapping_bytes plan + card ({s..<e} \<inter> {a..<b}) \<le> usize_max" "b \<le> usize_max"
  shows "record_interval st a payload b (s, e) plan = Ok (Some (plan
    \<lparr>mp_first_affected := (case mp_first_affected plan of None \<Rightarrow> Some s | Some f \<Rightarrow> Some f),
     mp_affected_segment_count := mp_affected_segment_count plan + 1,
     mp_union_start := min (mp_union_start plan) s,
     mp_union_end := max (mp_union_end plan) e,
     mp_overlapping_bytes := mp_overlapping_bytes plan + card ({s..<e} \<inter> {a..<b}),
     mp_overlapping_ranges := mp_overlapping_ranges plan @ clipped a b [(s, e)],
     mp_has_conflicting_overlap := mp_has_conflicting_overlap plan \<or> differs (st_pages st) a payload {s..<e}\<rparr>))"
proof -
  define x where "x = max s a"
  define y where "y = min e b"
  have card: "card ({s..<e} \<inter> {a..<b}) = y - x"
    by (simp only: clip_range card_atLeastLessThan x_def y_def)
  have dif: "differs (st_pages st) a payload {s..<e} \<longleftrightarrow> differs (st_pages st) a payload {x..<y}"
    by (auto simp: differs_def b x_def y_def)
  have clip: "clipped a b [(s, e)] = (if x < y then [(x, y)] else [])"
    by (simp add: clipped_def x_def y_def)
  have add1: "checked_add (mp_affected_segment_count plan) 1 = Some (mp_affected_segment_count plan + 1)"
    using small by (simp add: checked_add_def)
  have nt: "\<not> (e < a \<or> s > b)"
    using t by (simp add: touches_def)
  show ?thesis
  proof (cases "x < y")
    case False
    then have "y - x = 0" "\<not> differs (st_pages st) a payload {x..<y}"
      by (auto simp: differs_def)
    with False nt show ?thesis
      unfolding record_interval_def Let_def prod.case x_def [symmetric] y_def [symmetric] card dif clip add1
      by (simp add: or_none_def)
  next
    case True
    have sub: "{x..<y} \<subseteq> C"
      using iv(1) by (auto simp: x_def y_def)
    have part: "get_range payload (x - a) (x - a + (y - x)) = Some (slice_of payload (x - a) (y - a))"
      using True by (auto simp: get_range_def b x_def y_def)
    have len: "length (slice_of payload (x - a) (y - a)) = y - x"
      using True b by (auto simp: x_def y_def)
    have "a \<le> x" "y \<le> a + length payload" "x + (y - x) = y" "y \<le> usize_max"
      using True b small(3) by (auto simp: x_def y_def)
    then have eq: "pages_equals (st_pages st) x (slice_of payload (x - a) (y - a))
        = Ok (\<not> differs (st_pages st) a payload {x..<y})"
      using pages_equals_ok [OF ok, of x "slice_of payload (x - a) (y - a)"] sub
        stored_eq_differs [OF ok sub, of a payload] unfolding len by simp
    have addo: "checked_add (mp_overlapping_bytes plan) (y - x) = Some (mp_overlapping_bytes plan + (y - x))"
      using small(2) unfolding card by (simp add: checked_add_def)
    define d where "d = y - x"
    from True nt show ?thesis
      unfolding record_interval_def Let_def prod.case x_def [symmetric] y_def [symmetric] card dif clip add1
        d_def [symmetric]
      by (simp add: or_none_def addo [folded d_def] part [folded d_def] eq)
  qed
qed

definition recorded :: "pages \<Rightarrow> u64 \<Rightarrow> bytes \<Rightarrow> u64 \<Rightarrow> (u64 \<times> u64) list \<Rightarrow> pending_merge_plan \<Rightarrow> pending_merge_plan" where
  "recorded pg a payload b ivs plan = plan
    \<lparr>mp_first_affected := (case mp_first_affected plan of
        None \<Rightarrow> (case ivs of [] \<Rightarrow> None | (s, e) # _ \<Rightarrow> Some s) | Some f \<Rightarrow> Some f),
     mp_affected_segment_count := mp_affected_segment_count plan + length ivs,
     mp_union_start := foldl min (mp_union_start plan) (map fst ivs),
     mp_union_end := foldl max (mp_union_end plan) (map snd ivs),
     mp_overlapping_bytes := mp_overlapping_bytes plan + card (cover ivs \<inter> {a..<b}),
     mp_overlapping_ranges := mp_overlapping_ranges plan @ clipped a b ivs,
     mp_has_conflicting_overlap := mp_has_conflicting_overlap plan \<or> differs pg a payload (cover ivs)\<rparr>"

lemma apart_disjoint: "apart ((s, e) # ivs) \<Longrightarrow> {s..<e} \<inter> cover ivs = {}"
  by (fastforce simp: apart_Cons cover_def)

lemma record_intervals_ok:
  assumes ok: "pages_ok (st_pages st) C" and b: "b = a + length payload" "b \<le> usize_max"
  shows "apart ivs \<Longrightarrow> cover ivs \<subseteq> C \<Longrightarrow> (\<And>iv. iv \<in> set ivs \<Longrightarrow> touches a b iv) \<Longrightarrow>
    mp_affected_segment_count plan + length ivs \<le> usize_max \<Longrightarrow>
    mp_overlapping_bytes plan + card (cover ivs \<inter> {a..<b}) \<le> usize_max \<Longrightarrow>
    record_intervals st a payload b ivs plan = Ok (Some (recorded (st_pages st) a payload b ivs plan))"
proof (induction ivs arbitrary: plan)
  case Nil
  then show ?case
    by (simp add: recorded_def clipped_def differs_def split: option.split)
next
  case (Cons iv ivs)
  obtain s e where iv: "iv = (s, e)"
    by fastforce
  have "({s..<e} \<union> cover ivs) \<inter> {a..<b} = {s..<e} \<inter> {a..<b} \<union> cover ivs \<inter> {a..<b}"
    "{s..<e} \<inter> {a..<b} \<inter> (cover ivs \<inter> {a..<b}) = {}"
    using apart_disjoint [of s e ivs] Cons.prems(1) iv by auto
  then have cards: "card (cover (iv # ivs) \<inter> {a..<b}) = card ({s..<e} \<inter> {a..<b}) + card (cover ivs \<inter> {a..<b})"
    by (simp add: iv card_Un_disjoint)
  have one: "record_interval st a payload b (s, e) plan = Ok (Some (recorded (st_pages st) a payload b [(s, e)] plan))"
    using record_interval_ok [OF ok _ _ b(1), of s e plan] Cons.prems iv cards b(2)
    by (cases "mp_first_affected plan") (simp_all add: recorded_def apart_Cons)
  have step: "recorded (st_pages st) a payload b ivs (recorded (st_pages st) a payload b [(s, e)] plan)
      = recorded (st_pages st) a payload b (iv # ivs) plan"
    unfolding recorded_def cards
    by (cases "mp_first_affected plan") (simp_all add: iv clipped_Cons clipped_def differs_Un)
  have "record_intervals st a payload b ivs (recorded (st_pages st) a payload b [(s, e)] plan)
      = Ok (Some (recorded (st_pages st) a payload b (iv # ivs) plan))"
    unfolding step [symmetric]
    by (rule Cons.IH) (use Cons.prems iv cards in \<open>auto simp: apart_Cons recorded_def\<close>)
  with one show ?case
    by (simp add: iv or_none_def)
qed

lemma record_interval_skip: "snd iv < a \<Longrightarrow> record_interval st a payload b iv plan = Ok (Some plan)"
  by (cases iv) (simp add: record_interval_def)

lemma record_intervals_skip:
  "\<forall>iv\<in>set x. snd iv < a \<Longrightarrow>
    record_intervals st a payload b (x @ ivs) plan = record_intervals st a payload b ivs plan"
  by (induction x) (simp_all add: record_interval_skip or_none_def)

section \<open>The union of a range and its block\<close>

definition union_start :: "u64 \<Rightarrow> (u64 \<times> u64) list \<Rightarrow> u64" where
  "union_start a k = foldl min a (map fst k)"

definition union_end :: "u64 \<Rightarrow> (u64 \<times> u64) list \<Rightarrow> u64" where
  "union_end b k = foldl max b (map snd k)"

lemma union_bounds: "union_start a k \<le> a" "b \<le> union_end b k"
  by (simp_all add: union_start_def union_end_def foldl_min_bounds foldl_max_bounds)

lemma union_cover:
  assumes "a \<le> b" and t: "\<And>iv. iv \<in> set k \<Longrightarrow> touches a b iv"
  shows "{union_start a k..<union_end b k} = {a..<b} \<union> cover k"
proof (rule set_eqI)
  fix p
  have lo: "union_start a k = a \<or> (\<exists>e. (union_start a k, e) \<in> set k \<and> a \<le> e)"
    using foldl_min_bounds(3) [of a "map fst k"] t by (force simp: union_start_def touches_def not_less)
  have hi: "union_end b k = b \<or> (\<exists>s. (s, union_end b k) \<in> set k \<and> s \<le> b)"
    using foldl_max_bounds(3) [of b "map snd k"] t by (force simp: union_end_def touches_def not_less)
  have le: "union_start a k \<le> s" "e \<le> union_end b k" if "(s, e) \<in> set k" for s e
    using that by (force simp: union_start_def union_end_def intro: foldl_min_bounds(2) foldl_max_bounds(2))+
  have "p \<in> cover k" if "union_start a k \<le> p" "p < a"
    using lo that by (auto simp: mem_cover) (metis less_le_trans)
  moreover have "p \<in> cover k" if "b \<le> p" "p < union_end b k"
    using hi that by (auto simp: mem_cover) (metis order_trans)
  ultimately show "p \<in> {union_start a k..<union_end b k} \<longleftrightarrow> p \<in> {a..<b} \<union> cover k"
    using le union_bounds [of a k] union_bounds [of b k] assms(1)
    by (auto simp: mem_cover not_less not_le) (meson leI less_le_trans order_trans)+
qed

section \<open>The merge plan\<close>

definition merge_of :: "tcp_flow_state \<Rightarrow> u64 \<Rightarrow> bytes \<Rightarrow> usize \<Rightarrow> (u64 \<times> u64) list \<Rightarrow> pending_merge_plan" where
  "merge_of st a payload start k =
     (let b = a + length payload in
      \<lparr>mp_added_bytes = card ({a..<b} - cover (st_pending st)),
       mp_overlapping_bytes = card (cover (st_pending st) \<inter> {a..<b}),
       mp_overlapping_ranges = clipped a b k,
       mp_has_conflicting_overlap = differs (st_pages st) a payload (cover (st_pending st)),
       mp_segment_count = length (st_pending st) + 1 - length k,
       mp_emitted_segment_bytes = (if a = st_next_offset st then union_end b k - a else 0),
       mp_direct_output = (a = st_next_offset st \<and> k = []),
       mp_first_affected = (case k of [] \<Rightarrow> None | (s, e) # _ \<Rightarrow> Some s),
       mp_affected_segment_count = length k, mp_union_start = union_start a k, mp_union_end = union_end b k,
       mp_offset = a, mp_payload_start = start, mp_new_pages = [], mp_output = None\<rparr>)"

lemma cover_block:
  assumes m: "m = l @ k @ r" and l: "\<And>iv. iv \<in> set l \<Longrightarrow> snd iv < a" and r: "\<And>iv. iv \<in> set r \<Longrightarrow> b < fst iv"
  shows "cover m \<inter> {a..<b} = cover k \<inter> {a..<b}"
  using l r by (fastforce simp: m mem_cover)

lemma length_cover_le: "apart m \<Longrightarrow> length m \<le> card (cover m)"
proof (induction m)
  case (Cons iv m)
  obtain s e where iv: "iv = (s, e)"
    by fastforce
  have "card (cover (iv # m)) = card {s..<e} + card (cover m)"
    using apart_disjoint [of s e m] Cons.prems iv by (simp add: card_Un_disjoint)
  then show ?case
    using Cons iv by (auto simp: apart_Cons)
qed simp

lemma plan_pending_merge_ok:
  assumes ok: "pages_ok (st_pages st) (cover (st_pending st))" and ap: "apart (st_pending st)"
    and m: "st_pending st = l @ k @ r" and l: "\<And>iv. iv \<in> set l \<Longrightarrow> snd iv < a"
    and k: "\<And>iv. iv \<in> set k \<Longrightarrow> touches a (a + length payload) iv"
    and r: "\<And>iv. iv \<in> set r \<Longrightarrow> a + length payload < fst iv"
    and ne: "payload \<noteq> []" and lim: "a + length payload \<le> usize_max" "card (cover (st_pending st)) < usize_max"
  shows "plan_pending_merge st a payload start (st_next_offset st) = Ok (Some (merge_of st a payload start k))"
proof -
  let ?b = "a + length payload" and ?C = "cover (st_pending st)"
  define plan0 where "plan0 = \<lparr>mp_added_bytes = length payload, mp_overlapping_bytes = 0, mp_overlapping_ranges = [],
                  mp_has_conflicting_overlap = False, mp_segment_count = length (st_pending st),
                  mp_emitted_segment_bytes = 0, mp_direct_output = False, mp_first_affected = None,
                  mp_affected_segment_count = 0, mp_union_start = a, mp_union_end = ?b,
                  mp_offset = a, mp_payload_start = start, mp_new_pages = [], mp_output = None\<rparr>"
  have apk: "apart k" and sub: "cover k \<subseteq> ?C"
    using ap by (auto simp: m apart_append)
  have cov: "cover k \<inter> {a..<?b} = ?C \<inter> {a..<?b}"
    using cover_block [OF m l r] by simp
  have cnt: "length (st_pending st) < usize_max" "length k \<le> length (st_pending st)"
    using length_cover_le [OF ap] lim(2) by (auto simp: m)
  have ov: "card (?C \<inter> {a..<?b}) \<le> length payload"
    using card_mono [of "{a..<?b}" "?C \<inter> {a..<?b}"] by simp
  have added: "length payload - card (?C \<inter> {a..<?b}) = card ({a..<?b} - ?C)"
    by (simp add: card_Diff_subset_Int Int_commute)
  have dif: "differs (st_pages st) a payload (cover k) = differs (st_pages st) a payload ?C"
    using cov by (auto simp: differs_def set_eq_iff)
  obtain x where x: "\<forall>iv\<in>set x. snd iv < a"
    "(case bt_last_before (l @ k @ r) a of None \<Rightarrow> [] | Some iv \<Rightarrow> [iv]) @ bt_between (l @ k @ r) a ?b = x @ k"
    using last_before_block [of l k r a ?b] ap l k r by (metis le_add1 m)
  have "record_intervals st a payload ?b (x @ k) plan0 = Ok (Some (recorded (st_pages st) a payload ?b k plan0))"
    unfolding record_intervals_skip [OF x(1)]
    by (rule record_intervals_ok [OF ok refl lim(1) apk sub k]) (use cnt ov lim cov in \<open>auto simp: plan0_def\<close>)
  then have rec: "record_intervals st a payload ?b
      ((case bt_last_before (st_pending st) a of None \<Rightarrow> [] | Some iv \<Rightarrow> [iv]) @ bt_between (st_pending st) a ?b) plan0
    = Ok (Some (recorded (st_pages st) a payload ?b k plan0))"
    using x(2) m by metis
  have ue: "a \<le> union_end ?b k"
    using union_bounds(2) [of ?b k] by simp
  define full where "full = recorded (st_pages st) a payload ?b k plan0"
  have fields: "mp_overlapping_bytes full = card (?C \<inter> {a..<?b})" "mp_affected_segment_count full = length k"
    "mp_union_end full = union_end ?b k" "mp_first_affected full = None \<longleftrightarrow> k = []"
    by (auto simp: full_def recorded_def plan0_def cov union_end_def split: list.split)
  define plan1 where "plan1 = full\<lparr>mp_added_bytes := card ({a..<?b} - ?C),
    mp_direct_output := (a = st_next_offset st \<and> k = []), mp_segment_count := length (st_pending st) + 1 - length k\<rparr>"
  have arith: "checked_add a (length payload) = Some ?b"
    "checked_sub (length payload) (card (?C \<inter> {a..<?b})) = Some (card ({a..<?b} - ?C))"
    "checked_add (length (st_pending st)) 1 = Some (length (st_pending st) + 1)"
    "checked_sub (length (st_pending st) + 1) (length k) = Some (length (st_pending st) + 1 - length k)"
    using lim ov added cnt by (auto simp: checked_add_def checked_sub_def)
  have "plan_pending_merge st a payload start (st_next_offset st) =
    (if a = st_next_offset st then Ok (Some (plan1\<lparr>mp_emitted_segment_bytes := union_end ?b k - st_next_offset st\<rparr>))
     else Ok (Some plan1))"
    using ne ue fields unfolding plan_pending_merge_def Let_def arith or_none_def option.case plan0_def [symmetric]
    by (simp only: rec full_def [symmetric] let_ok.simps option.case fields arith if_False
        plan1_def [symmetric]) (auto simp: plan1_def fields)
  then show ?thesis
    using cov dif
    by (auto simp: plan1_def full_def recorded_def plan0_def merge_of_def union_start_def union_end_def Let_def)
qed

end
