(* ===== verification/Tcp_Store.thy ===== *)
theory Tcp_Store
  imports Tcp_Merge
begin

text \<open>
  Carrying out a merge plan: new pages are prepared and filled around the intervals already held, or
  the delivered bytes are assembled from payload and pages and the intervals are removed. In both
  cases bytes that were held first win.
\<close>

section \<open>Preparing and adopting pages\<close>

definition fresh_page :: page where
  "fresh_page = \<lparr>page_bytes = replicate PAGE_BYTES 0, page_live = 0\<rparr>"

lemma allocate_page_iff: "allocate_page alloc k = Ok p \<longleftrightarrow> alloc (AllocPage k) PAGE_BYTES \<and> p = fresh_page"
  by (auto simp: allocate_page_def fresh_page_def)

lemma prepare_pages_ok:
  assumes "for_each (prepare_page alloc pg) ks new = Ok new'" and "btree_ok new"
    and "\<And>k p. bt_get new k = Some p \<Longrightarrow> p = fresh_page"
  shows "btree_ok new' \<and> dom (bt_get new') = dom (bt_get new) \<union> (set ks - dom (bt_get pg))
    \<and> (\<forall>k p. bt_get new' k = Some p \<longrightarrow> p = fresh_page)"
  using assms
proof (induction ks arbitrary: new)
  case Nil
  then show ?case
    by auto
next
  case (Cons k ks)
  obtain new1 where one: "prepare_page alloc pg k new = Ok new1" and rest: "for_each (prepare_page alloc pg) ks new1 = Ok new'"
    using Cons.prems(1) by (auto simp: outcome_iff)
  show ?case
  proof (cases "bt_get pg k")
    case None
    then have new1: "new1 = bt_insert k fresh_page new"
      using one by (auto simp: prepare_page_def outcome_iff allocate_page_iff)
    then have ok1: "btree_ok new1" and get1: "bt_get new1 = (bt_get new)(k \<mapsto> fresh_page)"
      using Cons.prems(2) by (simp_all add: btree.ok_put btree.get_put)
    have "q = fresh_page" if "bt_get new1 j = Some q" for j q
      using that Cons.prems(3) [of j q] by (auto simp: get1 split: if_splits)
    note ih = Cons.IH [OF rest ok1 this]
    moreover have "dom (bt_get new1) \<union> (set ks - dom (bt_get pg)) = dom (bt_get new) \<union> (set (k # ks) - dom (bt_get pg))"
      using None by (auto simp: get1)
    ultimately show ?thesis
      by simp
  next
    case (Some p)
    with one have new1: "new1 = new"
      by (simp add: prepare_page_def)
    have "set (k # ks) - dom (bt_get pg) = set ks - dom (bt_get pg)"
      using Some by auto
    then show ?thesis
      using Cons.IH [OF rest [unfolded new1] Cons.prems(2,3)] by simp
  qed
qed

lemma prepare_page_no_panic: "prepare_page alloc pg k new \<noteq> Panic"
  by (simp add: prepare_page_def allocate_page_def)

lemma prepare_pages_no_panic: "for_each (prepare_page alloc pg) ks new \<noteq> Panic"
  by (induction ks arbitrary: new) (simp_all add: outcome_iff prepare_page_no_panic)

lemma adopt_pages_ok:
  assumes "btree_ok new" and "pages_ok pg C"
    and "\<And>k p. (k, p) \<in> set new \<Longrightarrow> p = fresh_page"
    and "\<And>k. k \<in> fst ` set new \<Longrightarrow> k \<notin> dom (bt_get pg)"
  shows "\<exists>pg'. for_each adopt_page new pg = Ok pg' \<and> pages_ok pg' C
    \<and> dom (bt_get pg') = dom (bt_get pg) \<union> fst ` set new
    \<and> (\<forall>p\<in>C. page_byte pg' p = page_byte pg p)"
  using assms
proof (induction new arbitrary: pg)
  case Nil
  then show ?case
    by simp
next
  case (Cons kp new)
  obtain k p where kp: "kp = (k, p)"
    by fastforce
  let ?pg = "bt_insert k p pg"
  have p: "p = fresh_page" and k: "bt_get pg k = None"
    using Cons.prems(3) [of k p] Cons.prems(4) [of k] by (auto simp: kp)
  have bt: "btree_ok pg" and sub: "\<And>q. q \<in> C \<Longrightarrow> q div PAGE_BYTES \<noteq> k"
    using Cons.prems(2) k by (auto simp: pages_ok_def)
  have get: "bt_get ?pg = (bt_get pg)(k \<mapsto> p)"
    using bt by (simp add: btree.get_put)
  have "live_in C k = {}"
    using sub by (auto simp: live_in_def)
  then have "pages_ok ?pg C"
    using Cons.prems(2) p by (intro pages_ok_put [OF Cons.prems(2)]) (auto simp: pages_ok_def fresh_page_def)
  moreover have "k' \<notin> dom (bt_get ?pg)" if "k' \<in> fst ` set new" for k'
    using that Cons.prems(1) Cons.prems(4) [of k'] by (auto simp: get kp btree_ok_Cons)
  moreover have "btree_ok new" "\<And>k p. (k, p) \<in> set new \<Longrightarrow> p = fresh_page"
    using Cons.prems(1,3) by (auto simp: kp btree_ok_Cons)
  ultimately obtain pg' where "for_each adopt_page new ?pg = Ok pg'" "pages_ok pg' C"
    "dom (bt_get pg') = dom (bt_get ?pg) \<union> fst ` set new" "\<forall>p\<in>C. page_byte pg' p = page_byte ?pg p"
    using Cons.IH [of ?pg] by blast
  moreover have "page_byte ?pg q = page_byte pg q" if "q \<in> C" for q
    using sub [OF that] by (simp add: page_byte_def get)
  moreover have "adopt_page (k, p) pg = Ok ?pg"
    by (simp add: adopt_page_def k)
  ultimately show ?case
    by (auto simp: kp get)
qed

section \<open>Filling the gaps\<close>

lemma pages_of_mono: "A \<subseteq> B \<Longrightarrow> pages_of A \<subseteq> pages_of B"
  by (auto simp: pages_of_def)

lemma fill_gap_ok:
  assumes b: "b = a + length payload" "b \<le> usize_max" and cur: "a \<le> cur" "cur \<le> b"
    and ok: "pages_ok pg C" and dm: "pages_of {cur..<b} \<subseteq> dom (bt_get pg)"
    and free: "C \<inter> {cur..<b} = ({s..<e} \<union> D) \<inter> {cur..<b}" and D: "\<And>p. p \<in> D \<Longrightarrow> e < p" and se: "s < e"
    and cur1: "cur1 = min (max cur e) b"
  shows "\<exists>pg'. fill_gap payload a b (s, e) (pg, cur) = Ok (pg', cur1)
    \<and> pages_ok pg' (C \<union> {cur..<cur1}) \<and> dom (bt_get pg') = dom (bt_get pg)
    \<and> (\<forall>p. page_byte pg' p = (if cur \<le> p \<and> p < cur1 \<and> p \<notin> C then Some (payload ! (p - a)) else page_byte pg p))"
proof -
  define stop where "stop = min s b"
  have mem: "p \<in> C \<longleftrightarrow> s \<le> p \<and> p < e \<or> p \<in> D" if "cur \<le> p" "p < b" for p
  proof -
    have "p \<in> C \<inter> {cur..<b} \<longleftrightarrow> p \<in> ({s..<e} \<union> D) \<inter> {cur..<b}"
      by (simp only: free)
    with that show ?thesis
      by simp
  qed
  have gap: "cur \<le> p \<and> p < cur1 \<and> p \<notin> C \<longleftrightarrow> cur \<le> p \<and> p < stop" for p
  proof (cases "cur \<le> p \<and> p < b")
    case True
    then show ?thesis
      using mem [of p] D [of p] se by (auto simp: cur1 stop_def)
  qed (auto simp: cur1 stop_def)
  have union: "C \<union> {cur..<cur1} = C \<union> {cur..<stop}"
    using gap by (auto simp: set_eq_iff)
  show ?thesis
  proof (cases "cur < stop")
    case True
    define part where "part = slice_of payload (cur - a) (stop - a)"
    have sb: "stop \<le> b"
      by (simp add: stop_def)
    have part: "get_range payload (cur - a) (stop - a) = Some part" "cur + length part = stop"
      using True cur b sb by (auto simp: get_range_def part_def)
    have "{cur..<stop} \<inter> C = {}"
      using gap by (auto simp: set_eq_iff)
    moreover have "pages_of {cur..<stop} \<subseteq> dom (bt_get pg)"
      using dm sb pages_of_mono [of "{cur..<stop}" "{cur..<b}"] by auto
    ultimately obtain pg' where "pages_insert cur part pg = Ok pg'" "pages_ok pg' (C \<union> {cur..<stop})"
      "dom (bt_get pg') = dom (bt_get pg)"
      "\<And>p. page_byte pg' p = (if cur \<le> p \<and> p < stop then Some (part ! (p - cur)) else page_byte pg p)"
      using pages_insert_ok [OF ok, of cur part] sb b(2) unfolding part(2) by (metis order_trans)
    moreover have "part ! (p - cur) = payload ! (p - a)" if "cur \<le> p" "p < stop" for p
      using that cur sb b by (simp add: part_def nth_slice_of)
    ultimately show ?thesis
      using True cur part(1) unfolding union gap
      by (simp add: fill_gap_def stop_def [symmetric] cur1) (auto simp: stop_def)
  next
    case False
    then have "fill_gap payload a b (s, e) (pg, cur) = Ok (pg, cur1)"
      unfolding fill_gap_def Let_def prod.case stop_def [symmetric] by (simp add: cur1)
    moreover have "{cur..<stop} = {}" "\<And>p. \<not> (cur \<le> p \<and> p < stop)"
      using False by auto
    ultimately show ?thesis
      using ok unfolding union gap by auto
  qed
qed

lemma fill_gaps_ok:
  assumes b: "b = a + length payload" "b \<le> usize_max"
  shows "a \<le> cur \<Longrightarrow> cur \<le> b \<Longrightarrow> pages_ok pg C \<Longrightarrow> pages_of {cur..<b} \<subseteq> dom (bt_get pg) \<Longrightarrow>
    C \<inter> {cur..<b} = cover ivs \<inter> {cur..<b} \<Longrightarrow> apart ivs \<Longrightarrow>
    \<exists>pg' cur'. for_each (fill_gap payload a b) ivs (pg, cur) = Ok (pg', cur') \<and> cur \<le> cur' \<and> cur' \<le> b
      \<and> pages_ok pg' (C \<union> {cur..<cur'}) \<and> dom (bt_get pg') = dom (bt_get pg) \<and> C \<inter> {cur'..<b} = {}
      \<and> (\<forall>p. page_byte pg' p = (if cur \<le> p \<and> p < cur' \<and> p \<notin> C then Some (payload ! (p - a)) else page_byte pg p))"
proof (induction ivs arbitrary: cur pg C)
  case Nil
  then show ?case
    by auto
next
  case (Cons iv ivs)
  obtain s e where iv: "iv = (s, e)"
    by fastforce
  define cur1 where "cur1 = min (max cur e) b"
  have D: "e < p" if "p \<in> cover ivs" for p
    using Cons.prems(6) that by (fastforce simp: iv apart_Cons mem_cover)
  have se: "s < e" and ap: "apart ivs"
    using Cons.prems(6) by (auto simp: iv apart_Cons)
  have free: "C \<inter> {cur..<b} = ({s..<e} \<union> cover ivs) \<inter> {cur..<b}"
    using Cons.prems(5) by (simp add: iv)
  have c1: "cur \<le> cur1" "cur1 \<le> b" "a \<le> cur1"
    using Cons.prems by (auto simp: cur1_def)
  from fill_gap_ok [OF b Cons.prems(1-4) free D se cur1_def] obtain pg1 where
    one: "fill_gap payload a b (s, e) (pg, cur) = Ok (pg1, cur1)" and ok1: "pages_ok pg1 (C \<union> {cur..<cur1})"
    and dm1: "dom (bt_get pg1) = dom (bt_get pg)"
    and byte1: "\<And>p. page_byte pg1 p = (if cur \<le> p \<and> p < cur1 \<and> p \<notin> C then Some (payload ! (p - a)) else page_byte pg p)"
    by blast
  have "pages_of {cur1..<b} \<subseteq> dom (bt_get pg1)"
    using Cons.prems(4) c1 pages_of_mono [of "{cur1..<b}" "{cur..<b}"] unfolding dm1 by auto
  moreover have "(C \<union> {cur..<cur1}) \<inter> {cur1..<b} = cover ivs \<inter> {cur1..<b}"
  proof -
    have "(C \<union> {cur..<cur1}) \<inter> {cur1..<b} = C \<inter> {cur..<b} \<inter> {cur1..<b}"
      using c1 by auto
    also have "\<dots> = cover ivs \<inter> {cur1..<b}"
      unfolding free using c1 by (auto simp: cur1_def)
    finally show ?thesis .
  qed
  ultimately obtain pg' cur' where w: "for_each (fill_gap payload a b) ivs (pg1, cur1) = Ok (pg', cur')" "cur1 \<le> cur'" "cur' \<le> b"
      "pages_ok pg' (C \<union> {cur..<cur1} \<union> {cur1..<cur'})" "dom (bt_get pg') = dom (bt_get pg1)"
      "(C \<union> {cur..<cur1}) \<inter> {cur'..<b} = {}"
    and byte': "\<And>p. page_byte pg' p = (if cur1 \<le> p \<and> p < cur' \<and> p \<notin> C \<union> {cur..<cur1}
      then Some (payload ! (p - a)) else page_byte pg1 p)"
    using Cons.IH [OF c1(3,2) ok1 _ _ ap] by blast
  have "C \<union> {cur..<cur1} \<union> {cur1..<cur'} = C \<union> {cur..<cur'}" "C \<inter> {cur'..<b} = {}"
    using c1 w(2,6) by auto
  moreover have "page_byte pg' p = (if cur \<le> p \<and> p < cur' \<and> p \<notin> C then Some (payload ! (p - a)) else page_byte pg p)" for p
    using c1 w(2) by (auto simp: byte' byte1)
  ultimately show ?case
    using one w dm1 c1 by (intro exI [of _ pg'] exI [of _ cur']) (simp add: iv)
qed

lemma store_payload_ok:
  assumes b: "b = a + length payload" "b \<le> usize_max" and ok: "pages_ok pg C"
    and dm: "pages_of {a..<b} \<subseteq> dom (bt_get pg)" and ap: "apart k"
    and free: "C \<inter> {a..<b} = cover k \<inter> {a..<b}"
  obtains pg' where "store_payload payload a k pg = Ok pg'" and "pages_ok pg' (C \<union> {a..<b})"
    and "dom (bt_get pg') = dom (bt_get pg)"
    and "\<And>p. page_byte pg' p = (if a \<le> p \<and> p < b \<and> p \<notin> C then Some (payload ! (p - a)) else page_byte pg p)"
proof -
  have ab: "a \<le> b"
    using b by simp
  from fill_gaps_ok [OF b order_refl ab ok dm free ap] obtain pg1 cur where
    w: "for_each (fill_gap payload a b) k (pg, a) = Ok (pg1, cur)" "a \<le> cur" "cur \<le> b"
      "pages_ok pg1 (C \<union> {a..<cur})" "dom (bt_get pg1) = dom (bt_get pg)" "C \<inter> {cur..<b} = {}"
    and byte1: "\<And>p. page_byte pg1 p = (if a \<le> p \<and> p < cur \<and> p \<notin> C then Some (payload ! (p - a)) else page_byte pg p)"
    by blast
  show thesis
  proof (cases "cur < b")
    case False
    then have "cur = b"
      using w(3) by simp
    with w byte1 b that [of pg1] show thesis
      by (simp add: store_payload_def)
  next
    case True
    define part where "part = drop (cur - a) payload"
    have part: "get_from payload (cur - a) = Some part" "cur + length part = b"
      using True w(2) b by (auto simp: get_from_def part_def)
    have "{cur..<b} \<inter> (C \<union> {a..<cur}) = {}"
      using w(6) by auto
    moreover have "pages_of {cur..<b} \<subseteq> dom (bt_get pg1)"
      using dm w(2) pages_of_mono [of "{cur..<b}" "{a..<b}"] unfolding w(5) by auto
    ultimately obtain pg' where ins: "pages_insert cur part pg1 = Ok pg'" "pages_ok pg' (C \<union> {a..<cur} \<union> {cur..<b})"
      "dom (bt_get pg') = dom (bt_get pg1)"
      and byte': "\<And>p. page_byte pg' p = (if cur \<le> p \<and> p < b then Some (part ! (p - cur)) else page_byte pg1 p)"
      using pages_insert_ok [OF w(4), of cur part] b(2) unfolding part(2) by metis
    have "part ! (p - cur) = payload ! (p - a)" if "cur \<le> p" "p < b" for p
      using that w(2) b by (simp add: part_def)
    then have "page_byte pg' p = (if a \<le> p \<and> p < b \<and> p \<notin> C then Some (payload ! (p - a)) else page_byte pg p)" for p
      using w(2,3,6) by (auto simp: byte' byte1)
    moreover have "C \<union> {a..<cur} \<union> {cur..<b} = C \<union> {a..<b}"
      using w(2,3) by auto
    moreover have "store_payload payload a k pg = Ok pg'"
      using w(1,2) b True part(1) ins(1) by (simp add: store_payload_def)
    ultimately show thesis
      using that [of pg'] ins w(5) by simp
  qed
qed

section \<open>Assembling the output\<close>

lemma copy_interval_ok:
  assumes ok: "pages_ok pg C" and iv: "u \<le> s" "s < e" "e \<le> u + length out" "{s..<e} \<subseteq> C"
    and lim: "e \<le> usize_max"
  shows "copy_interval pg u (s, e) out = Ok (copy_at out (s - u) (stored pg s e))"
proof -
  have rng: "get_range out (s - u) (s - u + (e - s)) = Some (slice_of out (s - u) (e - u))"
    and len: "s + length (slice_of out (s - u) (e - u)) = e"
    using iv by (auto simp: get_range_def)
  have "pages_copy_out pg s (slice_of out (s - u) (e - u)) = Ok (stored pg s e)"
    using pages_copy_out_ok [OF ok, of s "slice_of out (s - u) (e - u)"] iv lim unfolding len by simp
  moreover have "s - u + (e - s) \<le> length out"
    using iv by auto
  ultimately show ?thesis
    using iv unfolding copy_interval_def Let_def prod.case
    by (simp only: minus_or_panic_Ok less_imp_le let_ok.simps rng expect_simps)
      (simp add: write_range_def)
qed

lemma copy_intervals_ok:
  assumes ok: "pages_ok pg C"
  shows "(\<And>s e. (s, e) \<in> set ivs \<Longrightarrow> u \<le> s \<and> s < e \<and> e \<le> u + length out \<and> e \<le> usize_max) \<Longrightarrow>
    cover ivs \<subseteq> C \<Longrightarrow> apart ivs \<Longrightarrow>
    \<exists>out'. for_each (copy_interval pg u) ivs out = Ok out' \<and> length out' = length out
      \<and> (\<forall>i<length out. out' ! i = (if u + i \<in> cover ivs then the (page_byte pg (u + i)) else out ! i))"
proof (induction ivs arbitrary: out)
  case Nil
  then show ?case
    by simp
next
  case (Cons iv ivs)
  obtain s e where iv: "iv = (s, e)"
    by fastforce
  let ?out = "copy_at out (s - u) (stored pg s e)"
  have se: "u \<le> s" "s < e" "e \<le> u + length out" "e \<le> usize_max" "{s..<e} \<subseteq> C"
    using Cons.prems(1) [of s e] Cons.prems(2) by (auto simp: iv)
  have fits: "s - u + length (stored pg s e) \<le> length out"
    using se by auto
  then have len: "length ?out = length out"
    by (rule length_copy_at)
  have one: "copy_interval pg u (s, e) out = Ok ?out"
    using se by (intro copy_interval_ok [OF ok]) auto
  have nth: "?out ! i = (if u + i \<in> {s..<e} then the (page_byte pg (u + i)) else out ! i)" if "i < length out" for i
  proof -
    have "?out ! i = (if s - u \<le> i \<and> i < s - u + (e - s) then stored pg s e ! (i - (s - u)) else out ! i)"
      using nth_copy_at [OF fits that] by simp
    then show ?thesis
      using se by (auto simp: stored_def add.commute)
  qed
  have "\<exists>out'. for_each (copy_interval pg u) ivs ?out = Ok out' \<and> length out' = length ?out
      \<and> (\<forall>i<length ?out. out' ! i = (if u + i \<in> cover ivs then the (page_byte pg (u + i)) else ?out ! i))"
    by (rule Cons.IH) (use Cons.prems len iv in \<open>auto simp: apart_Cons\<close>)
  then show ?case
    using one nth unfolding len by (auto simp: iv)
qed

section \<open>Removing and replacing the block\<close>

lemma btree_from_split:
  assumes "\<And>x. x \<in> set l \<Longrightarrow> fst x < f" and "\<And>x. x \<in> set m \<Longrightarrow> f \<le> fst x"
  shows "bt_from (l @ m) f = m"
  using assms by (auto simp: bt_from_def filter_empty_conv filter_id_conv not_le)

lemma bt_remove_middle:
  assumes "btree_ok (l @ (s, e) # m)"
  shows "bt_remove s (l @ (s, e) # m) = l @ m" and "bt_get (l @ (s, e) # m) s = Some e"
proof -
  have "s \<notin> fst ` set l" "s \<notin> fst ` set m"
    using assms by (force simp: btree_ok_append btree_ok_Cons)+
  then have "filter (\<lambda>x. fst x \<noteq> s) l = l" "filter (\<lambda>x. fst x \<noteq> s) m = m"
    by (force simp: filter_id_conv)+
  then show "bt_remove s (l @ (s, e) # m) = l @ m"
    by (simp add: bt_remove_def)
  show "bt_get (l @ (s, e) # m) s = Some e"
    using assms by (simp add: bt_get_mem_iff)
qed

lemma remove_affected_keep:
  assumes "apart (l @ k @ r)" and "\<And>x. x \<in> set l \<Longrightarrow> fst x < f" and "\<And>x. x \<in> set (k @ r) \<Longrightarrow> f \<le> fst x"
  shows "remove_affected (length k) f False (l @ k @ r, pg) = Ok (l @ r, pg)"
  using assms
proof (induction k)
  case (Cons iv k)
  obtain s e where iv: "iv = (s, e)"
    by fastforce
  have frm: "bt_from (l @ (s, e) # k @ r) f = (s, e) # k @ r"
    using Cons.prems(2,3) by (intro btree_from_split) (auto simp: iv)
  have bt: "btree_ok (l @ (s, e) # k @ r)"
    using apart_btree [OF Cons.prems(1)] by (simp add: iv)
  have "apart (l @ k @ r)"
    using Cons.prems(1) by (auto simp: apart_append apart_Cons iv)
  then show ?case
    using Cons.IH Cons.prems(2,3) frm bt_remove_middle [OF bt] by (simp add: iv bt_first_def)
qed simp

lemma remove_affected_emit:
  assumes "apart (k @ r)" and "\<And>x. x \<in> set (k @ r) \<Longrightarrow> f \<le> fst x" and "pages_exact pg (cover (k @ r))"
  shows "\<exists>pg'. remove_affected (length k) f True (k @ r, pg) = Ok (r, pg') \<and> pages_exact pg' (cover r)
    \<and> (\<forall>p\<in>cover r. page_byte pg' p = page_byte pg p)"
  using assms
proof (induction k arbitrary: pg)
  case (Cons iv k)
  obtain s e where iv: "iv = (s, e)"
    by fastforce
  have frm: "bt_from ((s, e) # k @ r) f = (s, e) # k @ r"
    using btree_from_split [of "[]" f "(s, e) # k @ r"] Cons.prems(2) by (auto simp: iv)
  have bt: "btree_ok ([] @ (s, e) # k @ r)"
    using apart_btree [OF Cons.prems(1)] by (simp add: iv)
  have ap: "apart (k @ r)" "s < e" "{s..<e} \<inter> cover (k @ r) = {}"
    using Cons.prems(1) apart_disjoint [of s e "k @ r"] by (auto simp: iv apart_Cons)
  have "cover (iv # k @ r) - {s..<e} = cover (k @ r)"
    using ap(3) by (auto simp: iv)
  moreover obtain pg1 where "pages_remove s e pg = Ok pg1" "pages_exact pg1 (cover (iv # k @ r) - {s..<e})"
    "\<forall>p\<in>cover (iv # k @ r) - {s..<e}. page_byte pg1 p = page_byte pg p"
    using pages_remove_ok [of s e pg "cover (iv # k @ r)"] Cons.prems(3) ap(2) by (auto simp: iv)
  ultimately have one: "pages_remove s e pg = Ok pg1" "pages_exact pg1 (cover (k @ r))"
    "\<forall>p\<in>cover (k @ r). page_byte pg1 p = page_byte pg p"
    by simp_all
  from Cons.IH [OF ap(1) _ one(2)] Cons.prems(2) obtain pg' where
    "remove_affected (length k) f True (k @ r, pg1) = Ok (r, pg')" "pages_exact pg' (cover r)"
    "\<forall>p\<in>cover r. page_byte pg' p = page_byte pg1 p"
    by auto
  with one frm bt_remove_middle [OF bt] show ?case
    by (auto simp: iv bt_first_def)
qed simp

lemma bt_insert_middle:
  assumes "\<And>x. x \<in> set l \<Longrightarrow> fst x < u" and "\<And>x. x \<in> set r \<Longrightarrow> u < fst x"
  shows "bt_insert u v (l @ r) = l @ (u, v) # r" and "bt_get (l @ r) u = None"
proof -
  have "bt_insert u v r = (u, v) # r"
  proof (cases r)
    case (Cons x r')
    then show ?thesis
      using assms(2) [of x] by (cases x) simp
  qed simp
  then have "\<forall>x\<in>set l. fst x < u \<Longrightarrow> bt_insert u v (l @ r) = l @ (u, v) # r"
    by (induction l) auto
  with assms(1) show "bt_insert u v (l @ r) = l @ (u, v) # r"
    by blast
  show "bt_get (l @ r) u = None"
    using assms by (force simp: bt_get_def map_of_eq_None_iff)
qed

end
