(* ===== verification/Tcp_Place.thy ===== *)
theory Tcp_Place
  imports Tcp_Store
begin

text \<open>
  Where \<open>normalize_payload\<close> puts a segment: byte \<open>i\<close> of its payload is the stream byte at
  \<open>absolute_position + i\<close>, the part that was already delivered is cut off and compared with the
  history, and the rest lies in the window.
\<close>

definition keep_alive :: "tcp_flow_state \<Rightarrow> segment \<Rightarrow> bool" where
  "keep_alive st seg \<longleftrightarrow> length (seg_payload seg) = 1
     \<and> absolute_position st seg + 1 = int (st_next_offset st)
     \<and> \<not> (seg_syn seg \<or> seg_fin seg \<or> seg_rst seg)"

definition contradicts :: "tcp_flow_state \<Rightarrow> segment \<Rightarrow> bool" where
  "contradicts st seg \<longleftrightarrow>
     (\<exists>p b. absolute_position st seg \<le> int p \<and> int p < absolute_position st seg + int (length (seg_payload seg))
        \<and> delivered st p = Some b \<and> b \<noteq> seg_payload seg ! nat (int p - absolute_position st seg))"

definition placed :: "tcp_limits \<Rightarrow> tcp_flow_state \<Rightarrow> segment \<Rightarrow> incoming_payload \<Rightarrow> bool" where
  "placed limits st seg inc \<longleftrightarrow>
     in_sequence inc = seg_sequence seg + (if seg_syn seg then 1 else 0)
     \<and> in_payload_start inc \<le> length (seg_payload seg)
     \<and> in_payload inc = drop (in_payload_start inc) (seg_payload seg)
     \<and> in_retransmitted inc = in_payload_start inc
     \<and> st_next_offset st \<le> in_offset inc
     \<and> (in_payload inc \<noteq> [] \<longrightarrow> int (in_offset inc) = absolute_position st seg + int (in_payload_start inc))
     \<and> (in_payload_start inc = 0 \<or> absolute_position st seg + int (in_payload_start inc) \<le> int (st_next_offset st))
     \<and> in_remaining_end inc = in_offset inc + length (in_payload inc)
     \<and> in_remaining_end inc \<le> st_next_offset st + max_bytes_per_flow limits
     \<and> st_next_offset st + max_bytes_per_flow limits \<le> usize_max
     \<and> (in_conflicting inc \<longleftrightarrow> contradicts st seg \<and> \<not> keep_alive st seg)
     \<and> in_fin_offset inc = (if seg_fin seg
          then u64_try_from (absolute_position st seg + int (length (seg_payload seg))) else None)
     \<and> (\<forall>f. st_fin_offset st = Some f \<longrightarrow>
          in_remaining_end inc \<le> f \<and> (in_fin_offset inc = None \<or> in_fin_offset inc = Some f))
     \<and> (\<forall>f. in_fin_offset inc = Some f \<longrightarrow> st_next_offset st \<le> f)"

lemma validate_sequence_bounds_no_panic:
  "validate_sequence_bounds limits st offset payload fin \<noteq> Panic"
  by (simp add: validate_sequence_bounds_def outcome_iff split: option.split)

lemma validate_sequence_bounds_ok:
  assumes "validate_sequence_bounds limits st offset payload fin = Ok stop"
  shows "stop = offset + length payload" and "stop \<le> st_next_offset st + max_bytes_per_flow limits"
    and "st_next_offset st + max_bytes_per_flow limits \<le> usize_max"
    and "\<And>f. st_fin_offset st = Some f \<Longrightarrow> stop \<le> f \<and> (fin = None \<or> fin = Some f)"
    and "\<And>f. fin = Some f \<Longrightarrow> st_next_offset st \<le> f"
  using assms by (auto simp: validate_sequence_bounds_def outcome_iff checked_iff split: option.splits)

text \<open>The part of the payload before the next expected byte.\<close>

lemma contradicts_overlap:
  assumes "absolute_position st seg < int (st_next_offset st)" and tr: "history_tracks st"
    and before: "before = (if absolute_position st seg < 0
      then nat (min (- absolute_position st seg) (int (length (seg_payload seg)))) else 0)"
    and offset: "offset = nat (max (absolute_position st seg) 0)"
    and consumed: "consumed = min (st_next_offset st - offset) (length (drop before (seg_payload seg)))"
  shows "(\<exists>p b. offset \<le> p \<and> p < offset + consumed \<and> delivered st p = Some b
      \<and> b \<noteq> take consumed (drop before (seg_payload seg)) ! (p - offset)) \<longleftrightarrow> contradicts st seg"
proof -
  let ?x = "absolute_position st seg" and ?n = "length (seg_payload seg)"
  have in_range: "p < st_next_offset st" if "delivered st p = Some b" for p b
    using that tr by (auto simp: delivered_def history_tracks_def split: if_splits)
  have dom: "offset \<le> p \<and> p < offset + consumed \<longleftrightarrow> ?x \<le> int p \<and> int p < ?x + int ?n"
    if "p < st_next_offset st" for p
    using that by (auto simp: offset consumed before)
  have val: "take consumed (drop before (seg_payload seg)) ! (p - offset) = seg_payload seg ! nat (int p - ?x)"
    if "offset \<le> p" "p < offset + consumed" for p
  proof -
    have "before + (p - offset) = nat (int p - ?x)" "before \<le> ?n"
      using that by (auto simp: offset before consumed)
    then show ?thesis
      using that by simp
  qed
  show ?thesis
    unfolding contradicts_def using in_range dom val by metis
qed

text \<open>\<open>normalize_payload\<close> either refuses an offset past \<open>2\<^sup>6\<^sup>4\<close> or only the bounds check is left.\<close>

lemma normalize_payload_eq:
  assumes tr: "history_tracks st" and lim: "st_next_offset st \<le> usize_max"
    and fin: "fin = (if seg_fin seg then u64_try_from (absolute_position st seg + int (length (seg_payload seg))) else None)"
  shows "normalize_payload limits st seg = Err (flow_byte_error limits)
    \<or> (\<exists>start off. start \<le> length (seg_payload seg) \<and> st_next_offset st \<le> off
        \<and> (start < length (seg_payload seg) \<longrightarrow> int off = absolute_position st seg + int start)
        \<and> (start = 0 \<or> absolute_position st seg + int start \<le> int (st_next_offset st))
        \<and> normalize_payload limits st seg =
          let_ok (validate_sequence_bounds limits st off (drop start (seg_payload seg)) fin) (\<lambda>stop.
          Ok \<lparr>in_sequence = seg_sequence seg + (if seg_syn seg then 1 else 0), in_fin_offset = fin,
              in_payload = drop start (seg_payload seg), in_payload_start = start, in_offset = off,
              in_remaining_end = stop, in_retransmitted = start,
              in_conflicting = (contradicts st seg \<and> \<not> keep_alive st seg)\<rparr>))"
proof -
  let ?x = "absolute_position st seg" and ?n = "length (seg_payload seg)"
  define before where "before = (if ?x < 0 then nat (min (- ?x) (int ?n)) else 0)"
  define offset where "offset = nat (max ?x 0)"
  define payload where "payload = drop before (seg_payload seg)"
  define consumed where "consumed = min (st_next_offset st - offset) (length payload)"
  define overlap where "overlap = take consumed payload"
  define probe where "probe \<longleftrightarrow> ?n = 1 \<and> saturating_add offset 1 = st_next_offset st
    \<and> \<not> (seg_syn seg \<or> seg_fin seg \<or> seg_rst seg)"
  have bl: "before \<le> ?n"
    by (auto simp: before_def)
  show ?thesis
  proof (cases "max ?x 0 \<le> int usize_max")
    case False
    then have "u64_try_from (max ?x 0) = None"
      by (auto simp: u64_try_from_def)
    then show ?thesis
      by (simp add: normalize_payload_def)
  next
    case True
    then have off: "u64_try_from (max ?x 0) = Some offset"
      by (auto simp: u64_try_from_def offset_def)
    show ?thesis
    proof (cases "offset < st_next_offset st")
      case True
      have cl: "consumed \<le> length payload" "offset + length overlap \<le> usize_max" "length overlap = consumed"
        using True lim by (auto simp: consumed_def overlap_def)
      have "emitted_history_conflicts st offset overlap = Ok (contradicts st seg)"
        unfolding emitted_history_conflicts_ok [OF tr lim cl(2)] cl(3)
        unfolding overlap_def payload_def outcome.inject
        by (rule contradicts_overlap [OF _ tr before_def offset_def]) (use True in \<open>auto simp: offset_def consumed_def payload_def\<close>)
      moreover have "probe \<longleftrightarrow> keep_alive st seg \<or> probe \<and> \<not> contradicts st seg"
      proof (cases "?x < 0")
        case neg: True
        then have "probe \<Longrightarrow> \<not> contradicts st seg"
          by (auto simp: probe_def contradicts_def)
        with neg True show ?thesis
          by (auto simp: keep_alive_def)
      next
        case False
        then have "int offset = ?x" "saturating_add offset 1 = offset + 1"
          using True lim by (auto simp: offset_def saturating_add_def)
        then show ?thesis
          unfolding probe_def keep_alive_def by auto
      qed
      ultimately have conf: "(if probe then Ok False else emitted_history_conflicts st offset overlap)
          = Ok (contradicts st seg \<and> \<not> keep_alive st seg)"
        by auto
      have split: "split_at payload (min consumed (length payload)) = Some (overlap, drop consumed payload)"
        using cl(1) by (simp add: split_at_def overlap_def)
      have eq: "normalize_payload limits st seg =
          let_ok (ok_or (checked_add before consumed) (flow_byte_error limits)) (\<lambda>start.
          let_ok (validate_sequence_bounds limits st (st_next_offset st) (drop consumed payload) fin) (\<lambda>stop.
          Ok \<lparr>in_sequence = seg_sequence seg + (if seg_syn seg then 1 else 0), in_fin_offset = fin,
              in_payload = drop consumed payload, in_payload_start = start, in_offset = st_next_offset st,
              in_remaining_end = stop, in_retransmitted = saturating_add before consumed,
              in_conflicting = (contradicts st seg \<and> \<not> keep_alive st seg)\<rparr>))"
        unfolding normalize_payload_def Let_def before_def [symmetric] payload_def [symmetric] fin [symmetric] off
          ok_or_simps let_ok.simps saturating_sub_def consumed_def [symmetric] split expect_simps prod.case
          probe_def [symmetric] conf
        using True by (cases "checked_add before consumed") simp_all
      show ?thesis
      proof (cases "before + consumed \<le> usize_max")
        case True
        moreover have "drop consumed payload = drop (before + consumed) (seg_payload seg)"
          by (simp add: payload_def add.commute)
        moreover have "int (st_next_offset st) = ?x + int (before + consumed)" if "before + consumed < ?n"
          using that \<open>offset < st_next_offset st\<close> by (auto simp: consumed_def payload_def offset_def before_def split: if_splits)
        moreover have "?x + int (before + consumed) \<le> int (st_next_offset st)"
          using \<open>offset < st_next_offset st\<close> by (auto simp: consumed_def payload_def offset_def before_def)
        moreover have "before + consumed \<le> ?n"
          using cl(1) bl by (simp add: payload_def)
        ultimately show ?thesis
          unfolding eq
          by (intro disjI2 exI [of _ "before + consumed"] exI [of _ "st_next_offset st"])
            (simp add: checked_add_def saturating_add_def)
      qed (simp add: eq checked_add_def)
    next
      case False
      then have "\<not> contradicts st seg"
        using tr by (auto simp: contradicts_def delivered_def history_tracks_def offset_def split: if_splits)
      then have "normalize_payload limits st seg =
          let_ok (validate_sequence_bounds limits st offset payload fin) (\<lambda>stop.
          Ok \<lparr>in_sequence = seg_sequence seg + (if seg_syn seg then 1 else 0), in_fin_offset = fin,
              in_payload = payload, in_payload_start = before, in_offset = offset,
              in_remaining_end = stop, in_retransmitted = before,
              in_conflicting = (contradicts st seg \<and> \<not> keep_alive st seg)\<rparr>)"
        unfolding normalize_payload_def Let_def before_def [symmetric] payload_def [symmetric] fin [symmetric] off
          ok_or_simps let_ok.simps using False by simp
      moreover have "before = 0 \<or> ?x + int before \<le> int (st_next_offset st)"
        by (auto simp: before_def)
      moreover have "int offset = ?x + int before" if "before < ?n"
        using that by (auto simp: offset_def before_def split: if_splits)
      ultimately show ?thesis
        using False bl by (intro disjI2 exI [of _ before] exI [of _ offset]) (simp add: payload_def)
    qed
  qed
qed

lemma normalize_payload_ok:
  assumes "history_tracks st" and "st_next_offset st \<le> usize_max"
  shows "normalize_payload limits st seg \<noteq> Panic"
    and "normalize_payload limits st seg = Ok inc \<Longrightarrow> placed limits st seg inc"
proof -
  note eq = normalize_payload_eq [OF assms refl, of limits seg]
  show "normalize_payload limits st seg \<noteq> Panic"
    using eq validate_sequence_bounds_no_panic by (auto simp: outcome_iff)
  assume ok: "normalize_payload limits st seg = Ok inc"
  let ?fin = "if seg_fin seg then u64_try_from (absolute_position st seg + int (length (seg_payload seg))) else None"
  let ?inc = "\<lambda>start off stop. \<lparr>in_sequence = seg_sequence seg + (if seg_syn seg then 1 else 0), in_fin_offset = ?fin,
      in_payload = drop start (seg_payload seg), in_payload_start = start, in_offset = off,
      in_remaining_end = stop, in_retransmitted = start,
      in_conflicting = (contradicts st seg \<and> \<not> keep_alive st seg)\<rparr>"
  obtain start off where bounds: "start \<le> length (seg_payload seg)" "st_next_offset st \<le> off"
      "start < length (seg_payload seg) \<longrightarrow> int off = absolute_position st seg + int start"
      "start = 0 \<or> absolute_position st seg + int start \<le> int (st_next_offset st)"
    and n: "normalize_payload limits st seg =
      let_ok (validate_sequence_bounds limits st off (drop start (seg_payload seg)) ?fin) (\<lambda>stop. Ok (?inc start off stop))"
    using eq ok by (metis outcome.distinct(1))
  from ok [unfolded n] obtain stop where
    v: "validate_sequence_bounds limits st off (drop start (seg_payload seg)) ?fin = Ok stop"
    and inc: "inc = ?inc start off stop"
    unfolding let_ok_Ok_iff by blast
  show "placed limits st seg inc"
    using bounds validate_sequence_bounds_ok [OF v] unfolding inc placed_def by auto
qed

end
