(* ===== verification/Tcp_Flow.thy ===== *)
theory Tcp_Flow
  imports Tcp_Place
begin

text \<open>
  One push on one flow. The abstract view of a flow is the map of the bytes it holds beyond the
  delivered prefix; a push adds the payload where nothing was held, delivers the contiguous run that
  starts at the next expected offset and keeps the rest. The theorems say that the planned and
  committed push of the code does exactly this, keeps the invariant of the flow and charges exactly
  what it retains.
\<close>

section \<open>The abstract push\<close>

definition first_wins :: "(u64 \<Rightarrow> u8 option) \<Rightarrow> u64 \<Rightarrow> bytes \<Rightarrow> u64 \<Rightarrow> u8 option" where
  "first_wins m a bs p =
     (case m p of Some b \<Rightarrow> Some b
      | None \<Rightarrow> if a \<le> p \<and> p < a + length bs then Some (bs ! (p - a)) else None)"

text \<open>\<open>run m n out\<close>: the bytes of \<open>m\<close> from \<open>n\<close> on are \<open>out\<close>, followed by a gap.\<close>

definition run :: "(u64 \<Rightarrow> u8 option) \<Rightarrow> u64 \<Rightarrow> bytes \<Rightarrow> bool" where
  "run m n out \<longleftrightarrow> (\<forall>i<length out. m (n + i) = Some (out ! i)) \<and> m (n + length out) = None"

text \<open>The run of a map is unique.\<close>

lemma run_unique: "run m n out \<Longrightarrow> run m n out' \<Longrightarrow> out = out'"
proof -
  assume r: "run m n out" "run m n out'"
  have "\<not> length x < length y" if "run m n x" "run m n y" for x y
    using that by (auto simp: run_def)
  then have "length out = length out'"
    using r by (meson linorder_neqE_nat)
  with r show ?thesis
    by (auto simp: run_def intro!: nth_equalityI)
qed

definition push_effect :: "tcp_flow_state \<Rightarrow> u64 \<Rightarrow> bytes \<Rightarrow> tcp_flow_state \<Rightarrow> bytes \<Rightarrow> bool" where
  "push_effect st a bs st' out \<longleftrightarrow>
     run (first_wins (held st) a bs) (st_next_offset st) out
     \<and> st_next_offset st' = st_next_offset st + length out
     \<and> held st' = (\<lambda>p. if p < st_next_offset st' then None else first_wins (held st) a bs p)"

section \<open>History\<close>

definition with_history :: "history option \<Rightarrow> tcp_flow_state \<Rightarrow> tcp_flow_state" where
  "with_history h st = (case h of None \<Rightarrow> st | Some h \<Rightarrow> st\<lparr>st_history := h\<rparr>)"

lemma planned_history_allocation_bounds:
  assumes "required \<le> limit"
  shows "required \<le> planned_history_allocation current required limit"
    and "planned_history_allocation current required limit \<le> max current limit"
  using assms by (auto simp: planned_history_allocation_def Let_def)

lemma commit_history:
  assumes tr: "history_tracks st" and lim: "st_next_offset st \<le> usize_max"
    and prep: "prepare_emitted_history alloc st init capacity = Ok repl"
    and fits: "min (h_len (st_history st)) init \<le> capacity"
  obtains h where "with_history repl (trim_emitted_history init st)
      = st\<lparr>st_history_start := st_next_offset st - h_len h, st_history := h\<rparr>"
    and "history_ok h" and "history_contents h = drop (h_len (st_history st) - init) (history_contents (st_history st))"
    and "history_capacity h = capacity" and "h_len h = min (h_len (st_history st)) init"
    and "h_len h \<le> st_next_offset st"
proof -
  obtain st1 where st1: "trim_emitted_history init st = st1" "history_tracks st1"
    "history_contents (st_history st1) = drop (h_len (st_history st) - init) (history_contents (st_history st))"
    "history_capacity (st_history st1) = history_capacity (st_history st)"
    "st1 = st\<lparr>st_history_start := st_history_start st1, st_history := st_history st1\<rparr>"
    using trim_emitted_history_ok [OF tr lim] by metis
  have len: "length (drop (h_len (st_history st) - init) (history_contents (st_history st)))
      = min (h_len (st_history st)) init"
    by simp
  have nx: "st_next_offset st1 = st_next_offset st"
    by (subst st1(5)) simp
  have hs: "st_history_start st1 = st_next_offset st - h_len (st_history st1)" "h_len (st_history st1) \<le> st_next_offset st"
    using st1(2) nx by (auto simp: history_tracks_def)
  have l1: "h_len (st_history st1) = min (h_len (st_history st)) init"
    using st1(3) len by (metis length_history_contents)
  show thesis
  proof (cases repl)
    case None
    then have "history_capacity (st_history st) = capacity"
      using prepare_emitted_history_ok [OF tr fits, of alloc] prep by (auto split: if_splits)
    then show thesis
      using None st1 hs l1 by (intro that [of "st_history st1"]) (auto simp: with_history_def history_tracks_def)
  next
    case (Some h)
    then have h: "history_ok h" "history_contents h = drop (h_len (st_history st) - init) (history_contents (st_history st))"
      "history_capacity h = capacity"
      using prepare_emitted_history_ok [OF tr fits, of alloc] prep by (auto split: if_splits)
    have lh: "h_len h = min (h_len (st_history st)) init"
      using h(2) len by (metis length_history_contents)
    have "st1\<lparr>st_history := h\<rparr> = st\<lparr>st_history_start := st_next_offset st - h_len h, st_history := h\<rparr>"
      using st1(5) hs(1) l1 lh by (metis tcp_flow_state.surjective tcp_flow_state.update_convs(3)
          tcp_flow_state.update_convs(4))
    then show thesis
      using Some st1(1) h lh hs l1 by (intro that [of h]) (auto simp: with_history_def)
  qed
qed

section \<open>Applying a merge\<close>

lemma apart_order:
  assumes "apart (l @ (s, e) # m)"
  shows "\<And>x. x \<in> set l \<Longrightarrow> fst x < s \<and> snd x < s" and "\<And>x. x \<in> set m \<Longrightarrow> e < fst x"
proof -
  have a: "\<forall>x\<in>set l. snd x < s" "\<forall>x\<in>set l. fst x < snd x" "\<forall>x\<in>set m. e < fst x"
    using assms by (auto simp: apart_def sorted_wrt_append)
  then show "\<And>x. x \<in> set l \<Longrightarrow> fst x < s \<and> snd x < s" "\<And>x. x \<in> set m \<Longrightarrow> e < fst x"
    using less_trans by blast+
qed

lemma block_from:
  assumes ap: "apart (l @ k @ r)" and k: "k = (s, e) # k'"
  shows "bt_from (l @ k @ r) s = k @ r" and "\<And>x. x \<in> set l \<Longrightarrow> fst x < s" and "\<And>x. x \<in> set (k @ r) \<Longrightarrow> s \<le> fst x"
proof -
  note o = apart_order [of l s e "k' @ r"]
  have "s < e"
    using ap k by (auto simp: apart_append apart_Cons)
  then show ge: "\<And>x. x \<in> set (k @ r) \<Longrightarrow> s \<le> fst x" and lt: "\<And>x. x \<in> set l \<Longrightarrow> fst x < s"
    using o ap k by force+
  show "bt_from (l @ k @ r) s = k @ r"
    using ge lt by (intro btree_from_split) auto
qed

lemma union_in_list:
  assumes ap: "apart (l @ k @ r)" and ab: "a < b" and l: "\<And>iv. iv \<in> set l \<Longrightarrow> snd iv < a"
    and t: "\<And>iv. iv \<in> set k \<Longrightarrow> touches a b iv" and r: "\<And>iv. iv \<in> set r \<Longrightarrow> b < fst iv"
  shows "apart (l @ (union_start a k, union_end b k) # r)"
    and "cover (l @ (union_start a k, union_end b k) # r) = cover (l @ k @ r) \<union> {a..<b}"
proof -
  have us: "union_start a k \<in> insert a (fst ` set k)" "union_end b k \<in> insert b (snd ` set k)"
    using foldl_min_bounds(3) [of a "map fst k"] foldl_max_bounds(3) [of b "map snd k"]
    by (simp_all add: union_start_def union_end_def)
  have "snd x < union_start a k" if "x \<in> set l" for x
  proof -
    consider "union_start a k = a" | y where "y \<in> set k" "union_start a k = fst y"
      using us(1) by blast
    then show ?thesis
      using l [OF that] ap that by cases (auto simp: apart_append)
  qed
  moreover have "union_end b k < fst x" if "x \<in> set r" for x
  proof -
    consider "union_end b k = b" | y where "y \<in> set k" "union_end b k = snd y"
      using us(2) by blast
    then show ?thesis
      using r [OF that] ap that by cases (auto simp: apart_append)
  qed
  ultimately show "apart (l @ (union_start a k, union_end b k) # r)"
    using ap ab union_bounds [of a k] union_bounds [of b k] by (fastforce simp: apart_append apart_Cons)
  show "cover (l @ (union_start a k, union_end b k) # r) = cover (l @ k @ r) \<union> {a..<b}"
    using union_cover [of a b k] ab t by auto
qed

lemma pages_exact_grow:
  assumes ex: "pages_exact pg C" and ok: "pages_ok pg' (C \<union> A)" and dm: "dom (bt_get pg') = pages_of C \<union> pages_of A"
  shows "pages_exact pg' (C \<union> A)"
  using assms by (simp add: pages_exact_def pages_of_Un)

lemma apply_store_ok:
  assumes ap: "apart (st_pending st)" and ex: "pages_exact (st_pages st) (cover (st_pending st))"
    and m: "st_pending st = l @ k @ r" and l: "\<And>iv. iv \<in> set l \<Longrightarrow> snd iv < a"
    and k: "\<And>iv. iv \<in> set k \<Longrightarrow> touches a b iv" and r: "\<And>iv. iv \<in> set r \<Longrightarrow> b < fst iv"
    and b: "b = a + length payload" "b \<le> usize_max" and nx: "st_next_offset st \<noteq> a"
    and added: "\<not> {a..<b} \<subseteq> cover (st_pending st)"
    and new: "for_each (prepare_page alloc (st_pages st)) (page_keys a b) [] = Ok new"
    and full: "start \<le> length full" "drop start full = payload"
  obtains pg' where "apply_pending_merge st (merge_of st a payload start k\<lparr>mp_new_pages := new\<rparr>) full
      = Ok (st\<lparr>st_pending := l @ (union_start a k, union_end b k) # r, st_pages := pg'\<rparr>, None)"
    and "pages_exact pg' (cover (st_pending st) \<union> {a..<b})"
    and "\<And>p. p \<in> cover (st_pending st) \<union> {a..<b} \<Longrightarrow> page_byte pg' p =
      (if a \<le> p \<and> p < b \<and> p \<notin> cover (st_pending st) then Some (payload ! (p - a)) else page_byte (st_pages st) p)"
proof -
  let ?C = "cover (st_pending st)" and ?u = "union_start a k" and ?v = "union_end b k"
  define merge where "merge = merge_of st a payload start k\<lparr>mp_new_pages := new\<rparr>"
  have ab: "a < b"
    using added by (cases "a < b") auto
  have ok: "pages_ok (st_pages st) ?C" and dm: "dom (bt_get (st_pages st)) = pages_of ?C"
    using ex by (auto simp: pages_exact_def)
  have new': "btree_ok new" "dom (bt_get new) = pages_of {a..<b} - pages_of ?C"
    "\<And>k p. (k, p) \<in> set new \<Longrightarrow> p = fresh_page"
    using prepare_pages_ok [OF new] by (auto simp: dm set_page_keys bt_get_mem_iff btree.get_emp)
  have keys: "fst ` set new = pages_of {a..<b} - pages_of ?C"
    using new'(2) by (simp add: dom_bt_get)
  have notin: "k \<notin> dom (bt_get (st_pages st))" if "k \<in> fst ` set new" for k
    using that by (simp add: keys dm)
  have "\<exists>pg1. for_each adopt_page new (st_pages st) = Ok pg1 \<and> pages_ok pg1 ?C
      \<and> dom (bt_get pg1) = dom (bt_get (st_pages st)) \<union> fst ` set new
      \<and> (\<forall>p\<in>?C. page_byte pg1 p = page_byte (st_pages st) p)"
    using new'(1) ok new'(3) notin by (rule adopt_pages_ok)
  then obtain pg1 where
    adopt: "for_each adopt_page new (st_pages st) = Ok pg1" and ok1: "pages_ok pg1 ?C"
    and dm1: "dom (bt_get pg1) = dom (bt_get (st_pages st)) \<union> fst ` set new"
    and byte1: "\<forall>p\<in>?C. page_byte pg1 p = page_byte (st_pages st) p"
    by blast
  have dm1': "dom (bt_get pg1) = pages_of ?C \<union> pages_of {a..<b}"
    unfolding dm1 dm keys by auto
  have apk: "apart k"
    using ap by (simp add: m apart_append)
  have free: "?C \<inter> {a..<b} = cover k \<inter> {a..<b}"
    by (rule cover_block [OF m l r])
  obtain pg' where store: "store_payload payload a k pg1 = Ok pg'" "pages_ok pg' (?C \<union> {a..<b})"
      "dom (bt_get pg') = dom (bt_get pg1)"
    and byte': "\<And>p. page_byte pg' p = (if a \<le> p \<and> p < b \<and> p \<notin> ?C then Some (payload ! (p - a)) else page_byte pg1 p)"
    using store_payload_ok [OF b ok1 _ apk free] dm1' by (metis Un_upper2)
  define affected where "affected = (case mp_first_affected merge of None \<Rightarrow> []
    | Some first \<Rightarrow> take (mp_affected_segment_count merge) (bt_from (st_pending st) first))"
  have aff_rem: "affected = k \<and> (case mp_first_affected merge of None \<Rightarrow> Ok (st_pending st, pg')
        | Some first \<Rightarrow> remove_affected (mp_affected_segment_count merge) first False (st_pending st, pg')) = Ok (l @ r, pg')"
  proof (cases k)
    case Nil
    then show ?thesis
      by (simp add: affected_def merge_def merge_of_def m Let_def)
  next
    case (Cons iv k')
    obtain s e where "iv = (s, e)"
      by fastforce
    with Cons have ks: "k = (s, e) # k'"
      by simp
    note blk = block_from [OF ap [unfolded m] ks]
    show ?thesis
      using remove_affected_keep [OF ap [unfolded m] blk(2,3), of pg'] blk(1)
      by (simp add: affected_def merge_def merge_of_def m ks Let_def)
  qed
  then have aff: "affected = k" and rem: "(case mp_first_affected merge of None \<Rightarrow> Ok (st_pending st, pg')
        | Some first \<Rightarrow> remove_affected (mp_affected_segment_count merge) first False (st_pending st, pg')) = Ok (l @ r, pg')"
    by simp_all
  have u: "bt_insert ?u ?v (l @ r) = l @ (?u, ?v) # r" "bt_get (l @ r) ?u = None"
  proof -
    note o = apart_order [OF union_in_list(1) [OF ap [unfolded m] ab l k r]]
    have "?u < ?v"
      using union_bounds(1) [of a k] union_bounds(2) [of b k] ab by linarith
    then have "\<And>x. x \<in> set l \<Longrightarrow> fst x < ?u" "\<And>x. x \<in> set r \<Longrightarrow> ?u < fst x"
      using o less_trans by blast+
    note mid = bt_insert_middle [of l ?u r, OF this]
    show "bt_insert ?u ?v (l @ r) = l @ (?u, ?v) # r"
      by (rule mid(1))
    show "bt_get (l @ r) ?u = None"
      by (rule mid(2))
  qed
  have cnt: "card ({a..<b} - ?C) \<noteq> 0"
    using added by auto
  have "get_from full start = Some payload"
    using full by (simp add: get_from_def)
  moreover have f: "(mp_emitted_segment_bytes merge = 0) = True" "mp_added_bytes merge = card ({a..<b} - ?C)"
      "mp_direct_output merge = False" "mp_new_pages merge = new" "mp_payload_start merge = start"
      "mp_offset merge = a" "mp_union_start merge = ?u" "mp_union_end merge = ?v" "mp_output merge = None"
      "mp_segment_count merge = length l + 1 + length r"
    using nx by (simp_all add: merge_def merge_of_def Let_def b(1) [symmetric] m)
  ultimately have "apply_pending_merge st merge full = Ok (st\<lparr>st_pending := l @ (?u, ?v) # r, st_pages := pg'\<rparr>, None)"
    using adopt store(1) cnt u
    unfolding apply_pending_merge_def Let_def affected_def [symmetric] aff f not_True_eq_False if_False
    by (simp add: rem [unfolded f])
  moreover have "pages_exact pg' (?C \<union> {a..<b})"
    using store(2,3) dm1' by (intro pages_exact_grow [OF ex]) simp_all
  moreover have "page_byte pg' p = (if a \<le> p \<and> p < b \<and> p \<notin> ?C then Some (payload ! (p - a)) else page_byte (st_pages st) p)"
    if "p \<in> ?C \<union> {a..<b}" for p
    using that byte1 by (auto simp: byte')
  ultimately show thesis
    unfolding merge_def by (rule that)
qed

text \<open>A payload that starts at the next expected byte: every affected interval lies behind its start.\<close>

lemma union_start_front:
  assumes "\<And>iv. iv \<in> set k \<Longrightarrow> a \<le> fst iv"
  shows "union_start a k = a"
proof -
  have "union_start a k = a \<or> (\<exists>iv\<in>set k. union_start a k = fst iv)"
    using foldl_min_bounds(3) [of a "map fst k"] by (auto simp: union_start_def)
  then have "a \<le> union_start a k"
    using assms by auto
  then show ?thesis
    using union_bounds(1) [of a k] by simp
qed

lemma materialize_emit_ok:
  assumes ap: "apart (k @ r)" and ok: "pages_ok (st_pages st) (cover (st_pending st))"
    and m: "st_pending st = k @ r" and k: "k \<noteq> []" "\<And>iv. iv \<in> set k \<Longrightarrow> a < fst iv \<and> touches a b iv"
    and b: "b = a + length payload" "union_end b k \<le> usize_max" and nx: "st_next_offset st = a"
    and added: "payload \<noteq> []"
  shows "materialize_pending_merge alloc st a payload (merge_of st a payload start k) \<noteq> Panic"
    and "materialize_pending_merge alloc st a payload (merge_of st a payload start k) = Ok merge \<Longrightarrow>
      \<exists>out. merge = merge_of st a payload start k\<lparr>mp_output := Some out\<rparr> \<and> a + length out = union_end b k
        \<and> (\<forall>i<length out. out ! i = (if a + i \<in> cover k then the (page_byte (st_pages st) (a + i)) else payload ! i))"
proof -
  define plan where "plan = merge_of st a payload start k"
  define n where "n = union_end b k - a"
  have us: "union_start a k = a"
    using k(2) by (intro union_start_front) (auto dest: less_imp_le)
  have n: "a + n = union_end b k" "length payload \<le> n" "0 < n"
    using union_bounds(2) [of b k] b added by (cases payload; auto simp: n_def)+
  obtain s e k' where ks: "k = (s, e) # k'"
    using k(1) by (cases k) auto
  have blk: "bt_from (st_pending st) s = k @ r"
    using block_from(1) [of "[]" k r s e k'] ap m ks by simp
  define out0 where "out0 = copy_at (replicate n 0) 0 payload"
  have l0: "length out0 = n"
    using n(2) by (simp add: out0_def)
  have ends: "e \<le> union_end b k" if "(s, e) \<in> set k" for s e
    using that by (force simp: union_end_def intro: foldl_max_bounds(2))
  have "\<exists>out. for_each (copy_interval (st_pages st) a) k out0 = Ok out \<and> length out = length out0
      \<and> (\<forall>i<length out0. out ! i = (if a + i \<in> cover k then the (page_byte (st_pages st) (a + i)) else out0 ! i))"
  proof (rule copy_intervals_ok [OF ok])
    show "apart k"
      using ap by (simp add: apart_append)
    show "a \<le> s \<and> s < e \<and> e \<le> a + length out0 \<and> e \<le> usize_max" if "(s, e) \<in> set k" for s e
      using k(2) [OF that] ends [OF that] ap that n(1) b(2) by (auto simp: l0 apart_append apart_def)
  qed (auto simp: m)
  then obtain out where out: "for_each (copy_interval (st_pages st) a) k out0 = Ok out" "length out = n"
    "\<And>i. i < n \<Longrightarrow> out ! i = (if a + i \<in> cover k then the (page_byte (st_pages st) (a + i)) else out0 ! i)"
    unfolding l0 by blast
  have rest: "out0 ! i = payload ! i" if "i < n" "a + i \<notin> cover k" for i
  proof -
    have "{union_start a k..<union_end b k} = {a..<b} \<union> cover k"
      using k(2) b by (intro union_cover) auto
    then have "a + i \<in> {a..<b} \<union> cover k"
      using that n(1) us by auto
    then have "i < length payload"
      using that b by auto
    then show ?thesis
      using n(2) that(1) by (simp add: out0_def nth_copy_at)
  qed
  have f: "mp_added_bytes plan \<noteq> 0" "mp_direct_output plan = False" "mp_emitted_segment_bytes plan = n"
    "mp_union_start plan = a" "mp_first_affected plan = Some s" "mp_affected_segment_count plan = length k"
  proof -
    have "a < s"
      using k(2) [of "(s, e)"] ks by simp
    then have "a < fst x" if "x \<in> set (k @ r)" for x
      using block_from(3) [of "[]" k r, OF _ ks, of x] ap that by simp
    then have "a \<notin> cover (st_pending st)"
      unfolding mem_cover m by (metis fst_conv leD)
    moreover have "a \<in> {a..<a + length payload}"
      using added by simp
    ultimately have "\<not> {a..<a + length payload} \<subseteq> cover (st_pending st)"
      by blast
    then show "mp_added_bytes plan \<noteq> 0"
      by (simp add: plan_def merge_of_def Let_def)
  qed (use nx us in \<open>simp_all add: plan_def merge_of_def Let_def ks n_def b(1)\<close>)
  have "materialize_pending_merge alloc st a payload plan =
      (if alloc AllocOutput n then Ok (plan\<lparr>mp_output := Some out\<rparr>) else Err (TcpResource (TcpAllocationFailed n)))"
    using n(2,3) unfolding materialize_pending_merge_def f(2-6) Let_def
    by (simp add: f(1) write_range_def out0_def [symmetric] blk out(1))
  then show "materialize_pending_merge alloc st a payload (merge_of st a payload start k) \<noteq> Panic"
    "materialize_pending_merge alloc st a payload (merge_of st a payload start k) = Ok merge \<Longrightarrow>
      \<exists>out. merge = merge_of st a payload start k\<lparr>mp_output := Some out\<rparr> \<and> a + length out = union_end b k
        \<and> (\<forall>i<length out. out ! i = (if a + i \<in> cover k then the (page_byte (st_pages st) (a + i)) else payload ! i))"
    using out rest n(1) by (auto simp: plan_def split: if_splits)
qed

lemma apply_emit_ok:
  assumes ap: "apart (st_pending st)" and ex: "pages_exact (st_pages st) (cover (st_pending st))"
    and m: "st_pending st = k @ r" and k: "k \<noteq> []" and nx: "st_next_offset st = a"
    and added: "\<not> {a..<a + length payload} \<subseteq> cover (st_pending st)"
    and nz: "a < union_end (a + length payload) k"
  obtains pg' where "apply_pending_merge st (merge_of st a payload start k\<lparr>mp_output := Some out\<rparr>) full
      = Ok (st\<lparr>st_pending := r, st_pages := pg'\<rparr>, Some out)"
    and "pages_exact pg' (cover r)" and "\<And>p. p \<in> cover r \<Longrightarrow> page_byte pg' p = page_byte (st_pages st) p"
proof -
  define merge where "merge = merge_of st a payload start k\<lparr>mp_output := Some out\<rparr>"
  obtain s e k' where ks: "k = (s, e) # k'"
    using k by (cases k) auto
  have blk: "\<And>x. x \<in> set (k @ r) \<Longrightarrow> s \<le> fst x"
    using block_from(3) [of "[]" k r, OF _ ks] ap m by simp
  obtain pg' where rem: "remove_affected (length k) s True (k @ r, st_pages st) = Ok (r, pg')" "pages_exact pg' (cover r)"
    "\<forall>p\<in>cover r. page_byte pg' p = page_byte (st_pages st) p"
    using remove_affected_emit [of k r s "st_pages st"] ap ex blk by (auto simp: m)
  have f: "(mp_emitted_segment_bytes merge = 0) = False" "mp_added_bytes merge \<noteq> 0" "mp_direct_output merge = False"
    "mp_first_affected merge = Some s" "mp_affected_segment_count merge = length k"
    "mp_segment_count merge = length r + 1" "mp_output merge = Some out"
    using nx nz added k by (auto simp: merge_def merge_of_def Let_def ks m)
  have "apply_pending_merge st merge full = Ok (st\<lparr>st_pending := r, st_pages := pg'\<rparr>, Some out)"
    unfolding apply_pending_merge_def Let_def f(1,3-7) option.case m
    by (simp add: f(2) rem(1))
  then show thesis
    using that rem(2,3) unfolding merge_def by blast
qed

end
