(* ===== verification/Tcp_Push.thy ===== *)
theory Tcp_Push
  imports Tcp_Flow
begin

text \<open>
  From plan to committed flow. Four kinds of push remain after planning: nothing new, new bytes
  beyond a gap, bytes delivered directly, and bytes that close a gap. Each refines the abstract push
  of \<open>Tcp_Flow\<close>.
\<close>

section \<open>What an accepted plan says\<close>

lemma memory_charge_parts_iff:
  "memory_charge_parts storage n h keeps = Some c \<longleftrightarrow>
     c = storage + n * 64 + h + (if keeps then 256 else 0) \<and> c \<le> usize_max"
  by (auto simp: memory_charge_parts_def bind_eq_Some_conv checked_iff PENDING_SEGMENT_METADATA_CHARGE_def
      TCP_FLOW_STATE_METADATA_CHARGE_def)

lemma flow_memory_charge_iff:
  "flow_memory_charge st = Some c \<longleftrightarrow>
     c = length (st_pages st) * PAGE_CHARGE + length (st_pending st) * 64 + history_capacity (st_history st) + 256
     \<and> c \<le> usize_max"
  by (auto simp: flow_memory_charge_def bind_eq_Some_conv checked_iff memory_charge_parts_iff)

lemma plan_push_accounting_ok:
  assumes "plan_push_accounting input = Ok acc"
    and "limits = ai_limits input" "st = ai_state input"
    and "final_pending = ai_pending_bytes input - ai_emitted_segment_bytes input"
    and "segs = ai_segment_count input - (if ai_emitted_segment_bytes input \<noteq> 0 then 1 else 0)"
    and "init = max_bytes_per_flow limits - ai_pending_bytes input"
    and "fcap = max_bytes_per_flow limits - final_pending"
    and "kept = min (saturating_add (min (h_len (st_history st)) init) (ai_emitted_segment_bytes input)) fcap"
  shows "ac_initial_history_capacity acc = init"
    and "ac_history_allocation acc = planned_history_allocation (history_capacity (st_history st)) kept fcap"
    and "segs \<le> max_segments_per_flow limits"
    and "ai_aggregate_base_bytes input + (final_pending + kept) \<le> max_aggregate_bytes limits"
    and "ai_aggregate_base_memory_charge input + (ai_storage_bytes input + segs * 64 + ac_history_allocation acc
        + (if ai_retains_flow_state input then 256 else 0)) \<le> max_aggregate_bytes limits"
    and "ai_aggregate_base_memory_charge input + (ai_storage_bytes input + segs * 64 + ac_history_allocation acc
        + (if ai_retains_flow_state input then 256 else 0)) \<le> usize_max"
    and "ac_aggregate_bytes acc = (if ai_retains_flow_state input
        then ai_aggregate_base_bytes input + (final_pending + kept) else ai_aggregate_base_bytes input)"
    and "ac_aggregate_memory_charge acc = (if ai_retains_flow_state input
        then ai_aggregate_base_memory_charge input
          + (ai_storage_bytes input + segs * 64 + ac_history_allocation acc + 256)
        else ai_aggregate_base_memory_charge input)"
proof -
  have u: "\<not> max_segments_per_flow limits < segs \<and> (\<exists>ret mem ab am. checked_add final_pending kept = Some ret
      \<and> memory_charge_parts (ai_storage_bytes input) segs
            (planned_history_allocation (history_capacity (st_history st)) kept fcap) (ai_retains_flow_state input) = Some mem
      \<and> checked_add (ai_aggregate_base_bytes input) ret = Some ab
      \<and> checked_add (ai_aggregate_base_memory_charge input) mem = Some am
      \<and> \<not> (max_aggregate_bytes limits < ab \<or> max_aggregate_bytes limits < am)
      \<and> acc = \<lparr>ac_initial_history_capacity = init,
            ac_history_allocation = planned_history_allocation (history_capacity (st_history st)) kept fcap,
            ac_aggregate_bytes = (if ai_retains_flow_state input then ab else ai_aggregate_base_bytes input),
            ac_aggregate_memory_charge =
              (if ai_retains_flow_state input then am else ai_aggregate_base_memory_charge input)\<rparr>)"
    using assms(1)
    unfolding plan_push_accounting_def Let_def saturating_sub_def assms(2-8) [symmetric]
    by (cases "ai_retains_flow_state input") (simp_all add: outcome_iff, blast+)
  then show "ac_initial_history_capacity acc = init"
    and "ac_history_allocation acc = planned_history_allocation (history_capacity (st_history st)) kept fcap"
    and "segs \<le> max_segments_per_flow limits"
    and "ai_aggregate_base_bytes input + (final_pending + kept) \<le> max_aggregate_bytes limits"
    and "ai_aggregate_base_memory_charge input + (ai_storage_bytes input + segs * 64 + ac_history_allocation acc
        + (if ai_retains_flow_state input then 256 else 0)) \<le> max_aggregate_bytes limits"
    and "ai_aggregate_base_memory_charge input + (ai_storage_bytes input + segs * 64 + ac_history_allocation acc
        + (if ai_retains_flow_state input then 256 else 0)) \<le> usize_max"
    and "ac_aggregate_bytes acc = (if ai_retains_flow_state input
        then ai_aggregate_base_bytes input + (final_pending + kept) else ai_aggregate_base_bytes input)"
    and "ac_aggregate_memory_charge acc = (if ai_retains_flow_state input
        then ai_aggregate_base_memory_charge input
          + (ai_storage_bytes input + segs * 64 + ac_history_allocation acc + 256)
        else ai_aggregate_base_memory_charge input)"
    by (clarsimp simp: checked_iff memory_charge_parts_iff)+
qed

lemma plan_push_accounting_no_panic: "plan_push_accounting input \<noteq> Panic"
  by (simp add: plan_push_accounting_def Let_def outcome_iff split: prod.split)

lemma transient_peak_no_panic: "transient_peak limits st base planned \<noteq> Panic"
  by (simp add: transient_peak_def Let_def outcome_iff)

section \<open>Merging refines the abstract push\<close>

definition agree :: "tcp_flow_state \<Rightarrow> tcp_flow_state \<Rightarrow> bool" where
  "agree st st1 \<longleftrightarrow> st_next_offset st1 = st_next_offset st \<and> st_pending st1 = st_pending st \<and> st_pages st1 = st_pages st"

text \<open>
  A merge plan is sound when it announces the bytes \<open>out\<close> that become deliverable, the intervals
  \<open>pend\<close> that remain and the pages they need, and applying it produces exactly these.
\<close>

definition merge_sound ::
  "allocator \<Rightarrow> tcp_flow_state \<Rightarrow> u64 \<Rightarrow> bytes \<Rightarrow> usize \<Rightarrow> pending_merge_plan \<Rightarrow> bytes \<Rightarrow> (u64, u64) btree \<Rightarrow> bool" where
  "merge_sound alloc st a pl start merge out pend \<longleftrightarrow>
     run (first_wins (held st) a pl) (st_next_offset st) out
     \<and> mp_emitted_segment_bytes merge = length out
     \<and> mp_added_bytes merge = card ({a..<a + length pl} - cover (st_pending st))
     \<and> mp_segment_count merge = length pend + (if out = [] then 0 else 1)
     \<and> (mp_direct_output merge \<longrightarrow> out = pl \<and> pl \<noteq> [])
     \<and> apart pend
     \<and> cover pend = cover (st_pending st) \<union> {a..<a + length pl} - {..<st_next_offset st + length out}
     \<and> (if out = []
        then length (st_pages st)
          + length (filter (\<lambda>key. bt_get (st_pages st) key = None) (page_keys a (a + length pl))) = card (pages_of (cover pend))
        else remaining_count (st_pages st) (st_pending st) (mp_union_start merge) (mp_union_end merge)
          = (Ok (card (pages_of (cover pend))) :: (tcp_error, usize) outcome))
     \<and> materialize_pending_merge alloc st a pl merge \<noteq> Panic
     \<and> (\<forall>merge' st1 full. materialize_pending_merge alloc st a pl merge = Ok merge' \<longrightarrow> agree st st1 \<longrightarrow>
          start \<le> length full \<longrightarrow> drop start full = pl \<longrightarrow>
          (\<exists>pg. apply_pending_merge st1 merge' full = Ok (st1\<lparr>st_pending := pend, st_pages := pg\<rparr>,
                if mp_direct_output merge \<or> out = [] then None else Some out)
            \<and> pages_exact pg (cover pend) \<and> (\<forall>p\<in>cover pend. page_byte pg p = first_wins (held st) a pl p)))"

lemma materialize_keeps:
  assumes "materialize_pending_merge alloc st a pl merge = Ok merge'"
  shows "mp_overlapping_bytes merge' = mp_overlapping_bytes merge"
    and "mp_overlapping_ranges merge' = mp_overlapping_ranges merge"
    and "mp_has_conflicting_overlap merge' = mp_has_conflicting_overlap merge"
    and "mp_direct_output merge' = mp_direct_output merge"
  using assms unfolding materialize_pending_merge_def Let_def
  by (auto simp: outcome_iff split: if_splits)

lemma pages_missing_count:
  assumes ex: "pages_exact pages C"
  shows "length pages + length (filter (\<lambda>key. bt_get pages key = None) (page_keys a b)) = card (pages_of (C \<union> {a..<b}))"
proof -
  have fin: "finite C"
    using ex by (simp add: pages_exact_def pages_ok_def)
  have "set (filter (\<lambda>key. bt_get pages key = None) (page_keys a b)) = pages_of {a..<b} - dom (bt_get pages)"
    by (auto simp: set_page_keys)
  then have "length (filter (\<lambda>key. bt_get pages key = None) (page_keys a b)) = card (pages_of {a..<b} - pages_of C)"
    using ex distinct_card [of "filter (\<lambda>key. bt_get pages key = None) (page_keys a b)"] distinct_page_keys
    by (simp add: pages_exact_def)
  moreover have "card (pages_of C \<union> (pages_of {a..<b} - pages_of C)) = card (pages_of C) + card (pages_of {a..<b} - pages_of C)"
    using fin by (intro card_Un_disjoint) (auto simp: pages_of_def)
  ultimately show ?thesis
    using pages_exact_count [OF ex] by (simp add: pages_of_Un)
qed

lemma held_some: "pages_ok (st_pages st) (cover (st_pending st)) \<Longrightarrow> p \<in> cover (st_pending st) \<Longrightarrow>
    held st p = Some (the (page_byte (st_pages st) p))"
  by (metis held_def page_byte_some)

lemma first_wins_held:
  assumes "pages_ok (st_pages st) (cover (st_pending st))"
  shows "first_wins (held st) a bs p = (if p \<in> cover (st_pending st) then page_byte (st_pages st) p
    else if a \<le> p \<and> p < a + length bs then Some (bs ! (p - a)) else None)"
  using page_byte_some [OF assms, of p] by (auto simp: first_wins_def held_def split: option.split)

lemma first_wins_none:
  assumes "pages_ok (st_pages st) (cover (st_pending st))"
  shows "first_wins (held st) a bs p = None \<longleftrightarrow> p \<notin> cover (st_pending st) \<union> {a..<a + length bs}"
  using page_byte_some [OF assms, of p] by (auto simp: first_wins_held [OF assms])

lemma cover_beyond:
  assumes "\<And>s e. (s, e) \<in> set m \<Longrightarrow> n < s"
  shows "cover m \<inter> {..n} = {}"
  using assms by (fastforce simp: mem_cover)

lemma one_block:
  assumes ap: "apart (l @ k @ r)" and ab: "a < b" and l: "\<And>iv. iv \<in> set l \<Longrightarrow> snd iv < a"
    and k: "\<And>iv. iv \<in> set k \<Longrightarrow> touches a b iv" and r: "\<And>iv. iv \<in> set r \<Longrightarrow> b < fst iv"
    and sub: "{a..<b} \<subseteq> cover (l @ k @ r)"
  shows "length k = 1"
proof -
  have "{a..<b} \<subseteq> cover k"
    using cover_block [OF refl l r] sub by blast
  then have u: "{union_start a k..<union_end b k} = cover k"
    using union_cover [of a b k] ab k by auto
  have apk: "apart k"
    using ap by (simp add: apart_append)
  show ?thesis
  proof (cases k rule: remdups_adj.cases)
    case 1
    then show ?thesis
      using u ab union_bounds [of a k] union_bounds [of b k] by (simp add: cover_def)
  next
    case (3 x y zs)
    obtain s e s' e' where xy: "x = (s, e)" "y = (s', e')"
      by fastforce
    have o: "s < e" "e < s'" "s' < e'" "\<And>iv. iv \<in> set zs \<Longrightarrow> e < fst iv"
      using apk less_trans by (fastforce simp: 3 xy apart_Cons)+
    have "s \<in> cover k" "s' \<in> cover k"
      using o by (auto simp: 3 xy)
    then have "e \<in> cover k"
      using o unfolding u [symmetric] by auto
    then show ?thesis
      using o by (fastforce simp: 3 xy mem_cover)
  qed simp
qed

lemma merge_idle:
  assumes ex: "pages_exact (st_pages st) (cover (st_pending st))" and ap: "apart (st_pending st)"
    and gt: "\<And>s e. (s, e) \<in> set (st_pending st) \<Longrightarrow> st_next_offset st < s"
    and sub: "{a..<a + length pl} \<subseteq> cover (st_pending st)"
    and merge: "mp_added_bytes merge = 0" "mp_emitted_segment_bytes merge = 0"
      "mp_segment_count merge = length (st_pending st)" "\<not> mp_direct_output merge" "mp_output merge = None"
  shows "merge_sound alloc st a pl start merge [] (st_pending st)"
proof -
  have ok: "pages_ok (st_pages st) (cover (st_pending st))"
    using ex by (simp add: pages_exact_def)
  have un: "cover (st_pending st) \<union> {a..<a + length pl} = cover (st_pending st)"
    using sub by blast
  have far: "cover (st_pending st) \<inter> {..st_next_offset st} = {}"
    using gt by (rule cover_beyond)
  have far': "cover (st_pending st) - {..<st_next_offset st} = cover (st_pending st)"
    using far by fastforce
  have "materialize_pending_merge alloc st a pl merge = Ok merge"
    by (simp add: materialize_pending_merge_def merge)
  moreover have "apply_pending_merge st1 merge full = Ok (st1\<lparr>st_pending := st_pending st, st_pages := st_pages st\<rparr>, None)"
    if "agree st st1" for st1 full
    using that by (cases st1) (simp add: apply_pending_merge_def merge agree_def)
  moreover have "run (first_wins (held st) a pl) (st_next_offset st) []"
    using far un unfolding run_def first_wins_none [OF ok] by auto
  moreover have "first_wins (held st) a pl p = page_byte (st_pages st) p" if "p \<in> cover (st_pending st)" for p
    using that by (simp add: first_wins_held [OF ok])
  ultimately show ?thesis
    using ap ex pages_missing_count [OF ex, of a "a + length pl"] sub merge unfolding merge_sound_def
    by (auto simp: un far')
qed

lemma merge_store:
  assumes ex: "pages_exact (st_pages st) (cover (st_pending st))" and ap: "apart (st_pending st)"
    and gt: "\<And>s e. (s, e) \<in> set (st_pending st) \<Longrightarrow> st_next_offset st < s"
    and m: "st_pending st = l @ k @ r" and l: "\<And>iv. iv \<in> set l \<Longrightarrow> snd iv < a"
    and k: "\<And>iv. iv \<in> set k \<Longrightarrow> touches a b iv" and r: "\<And>iv. iv \<in> set r \<Longrightarrow> b < fst iv"
    and b: "b = a + length pl" "b \<le> usize_max" and nx: "st_next_offset st < a"
    and added: "\<not> {a..<b} \<subseteq> cover (st_pending st)"
  shows "merge_sound alloc st a pl start (merge_of st a pl start k) [] (l @ (union_start a k, union_end b k) # r)"
proof -
  let ?C = "cover (st_pending st)" and ?pend = "l @ (union_start a k, union_end b k) # r"
  define merge where "merge = merge_of st a pl start k"
  have ok: "pages_ok (st_pages st) ?C"
    using ex by (simp add: pages_exact_def)
  have ab: "a < b"
    using added by (cases "a < b") auto
  have far: "?C \<inter> {..st_next_offset st} = {}"
    using gt by (rule cover_beyond)
  have list: "apart ?pend" "cover ?pend = ?C \<union> {a..<b}"
    using union_in_list [OF ap [unfolded m] ab l k r] unfolding m by blast+
  have far': "?C \<union> {a..<b} - {..<st_next_offset st} = ?C \<union> {a..<b}"
    using far nx by fastforce
  have f: "mp_emitted_segment_bytes merge = 0" "mp_added_bytes merge = card ({a..<b} - ?C)" "\<not> mp_direct_output merge"
    "mp_segment_count merge = length ?pend" "mp_new_pages merge = []"
    using nx by (simp_all add: merge_def merge_of_def Let_def b(1) [symmetric] m)
  have mat: "materialize_pending_merge alloc st a pl merge =
      let_ok (for_each (prepare_page alloc (st_pages st)) (page_keys a b) []) (\<lambda>new. Ok (merge\<lparr>mp_new_pages := new\<rparr>))"
    using added b by (simp add: materialize_pending_merge_def f)
  have "run (first_wins (held st) a pl) (st_next_offset st) []"
    using far nx unfolding run_def first_wins_none [OF ok] by auto
  moreover have "\<exists>pg. apply_pending_merge st1 merge' full = Ok (st1\<lparr>st_pending := ?pend, st_pages := pg\<rparr>, None)
      \<and> pages_exact pg (cover ?pend) \<and> (\<forall>p\<in>cover ?pend. page_byte pg p = first_wins (held st) a pl p)"
    if mk: "materialize_pending_merge alloc st a pl merge = Ok merge'" and ag: "agree st st1"
      and full: "start \<le> length full" "drop start full = pl" for merge' st1 full
  proof -
    obtain new where new: "for_each (prepare_page alloc (st_pages st)) (page_keys a b) [] = Ok new"
      "merge' = merge\<lparr>mp_new_pages := new\<rparr>"
      using mk by (auto simp: mat outcome_iff)
    have same: "merge_of st1 a pl start k = merge_of st a pl start k" "st_pending st1 = st_pending st"
      "st_pages st1 = st_pages st" "st_next_offset st1 \<noteq> a"
      using ag nx by (simp_all add: agree_def merge_of_def)
    from apply_store_ok [of st1 l k r a b pl alloc new start full] obtain pg where
      "apply_pending_merge st1 merge' full = Ok (st1\<lparr>st_pending := ?pend, st_pages := pg\<rparr>, None)"
      "pages_exact pg (?C \<union> {a..<b})"
      "\<And>p. p \<in> ?C \<union> {a..<b} \<Longrightarrow> page_byte pg p =
        (if a \<le> p \<and> p < b \<and> p \<notin> ?C then Some (pl ! (p - a)) else page_byte (st_pages st) p)"
      unfolding same new(2) merge_def using ap ex m l k r b same(4) added new(1) full by metis
    then show ?thesis
      unfolding list(2) by (intro exI [of _ pg]) (auto simp: first_wins_held [OF ok] b(1) [symmetric])
  qed
  ultimately show ?thesis
    using list f pages_missing_count [OF ex, of a b] prepare_pages_no_panic [of alloc "st_pages st" "page_keys a b" "[]"]
    unfolding merge_sound_def merge_def [symmetric] b(1) [symmetric]
    by (simp add: far' mat outcome_iff)
qed

lemma merge_direct:
  assumes ex: "pages_exact (st_pages st) (cover (st_pending st))" and ap: "apart (st_pending st)"
    and r: "\<And>iv. iv \<in> set (st_pending st) \<Longrightarrow> b < fst iv"
    and b: "b = a + length pl" "b + PAGE_BYTES \<le> usize_max" and nx: "st_next_offset st = a" and pl: "pl \<noteq> []"
  shows "merge_sound alloc st a pl start (merge_of st a pl start []) pl (st_pending st)"
proof -
  let ?C = "cover (st_pending st)"
  define merge where "merge = merge_of st a pl start []"
  have ok: "pages_ok (st_pages st) ?C"
    using ex by (simp add: pages_exact_def)
  have far: "?C \<inter> {..b} = {}"
    using r by (intro cover_beyond) force
  have free: "?C - {a..<b} = ?C" "?C \<union> {a..<b} - {..<b} = ?C" "{a..<b} - ?C = {a..<b}"
    using far by fastforce+
  have f: "mp_emitted_segment_bytes merge = length pl" "mp_added_bytes merge = card ({a..<b} - ?C)" "mp_direct_output merge"
    "mp_segment_count merge = length (st_pending st) + 1" "mp_output merge = None" "mp_union_start merge = a" "mp_union_end merge = b"
    using nx by (simp_all add: merge_def merge_of_def Let_def b(1) [symmetric] union_start_def union_end_def) (simp add: b)
  have rem: "remaining_count (st_pages st) (st_pending st) a b = (Ok (card (pages_of ?C)) :: (tcp_error, usize) outcome)"
    using remaining_count_ok [OF ex apart_btree [OF ap], of a b] r ap b unfolding free
    by (fastforce simp: apart_def)
  have "first_wins (held st) a pl (a + i) = Some (pl ! i)" if "i < length pl" for i
    using far that b by (auto simp: first_wins_held [OF ok])
  moreover have "first_wins (held st) a pl b = None"
    using far b unfolding first_wins_none [OF ok] by auto
  ultimately have "run (first_wins (held st) a pl) (st_next_offset st) pl"
    by (simp add: run_def nx b)
  moreover have "\<exists>pg. apply_pending_merge st1 merge full = Ok (st1\<lparr>st_pending := st_pending st, st_pages := pg\<rparr>, None)
      \<and> pages_exact pg ?C \<and> (\<forall>p\<in>?C. page_byte pg p = first_wins (held st) a pl p)"
    if "agree st st1" for st1 full
    using that ex by (intro exI [of _ "st_pages st"], cases st1)
      (simp add: apply_pending_merge_def f agree_def first_wins_held [OF ok])
  ultimately show ?thesis
    using ap f rem pl unfolding merge_sound_def merge_def [symmetric] b(1) [symmetric] nx
    by (auto simp: materialize_pending_merge_def free b(1) [symmetric])
qed

lemma merge_emit:
  assumes ex: "pages_exact (st_pages st) (cover (st_pending st))" and ap: "apart (st_pending st)"
    and m: "st_pending st = k @ r" and k: "k \<noteq> []" "\<And>iv. iv \<in> set k \<Longrightarrow> a < fst iv \<and> touches a b iv"
    and r: "\<And>iv. iv \<in> set r \<Longrightarrow> b < fst iv"
    and b: "b = a + length pl" "union_end b k + PAGE_BYTES \<le> usize_max" and nx: "st_next_offset st = a" and pl: "pl \<noteq> []"
  shows "\<exists>out. merge_sound alloc st a pl start (merge_of st a pl start k) out r"
proof -
  let ?C = "cover (st_pending st)" and ?v = "union_end b k"
  define merge where "merge = merge_of st a pl start k"
  have ok: "pages_ok (st_pages st) ?C"
    using ex by (simp add: pages_exact_def)
  have t: "\<And>iv. iv \<in> set k \<Longrightarrow> touches a b iv"
    using k(2) by blast
  have us: "union_start a k = a"
    using k(2) by (intro union_start_front) (auto dest: less_imp_le)
  have ab: "a < b" "b \<le> ?v"
    using pl union_bounds(2) [of b k] by (simp_all add: b)
  have list: "apart ((a, ?v) # r)" "cover ((a, ?v) # r) = ?C \<union> {a..<b}"
    using union_in_list [of "[]" k r a b] ap ab r t us by (auto simp: m)
  have beyond: "cover r \<inter> {..?v} = {}"
    using list(1) by (intro cover_beyond) (auto simp: apart_Cons)
  have un: "{a..<?v} = {a..<b} \<union> cover k"
    using union_cover [of a b k] ab(1) t us by simp
  have bey: "?v < p" if "p \<in> cover r" for p
    using beyond that by (cases "p \<le> ?v") auto
  have mem: "p \<in> cover k \<or> p \<in> {a..<b} \<longleftrightarrow> a \<le> p \<and> p < ?v" for p
    using un by (auto simp: set_eq_iff)
  have "p \<in> ?C \<and> \<not> (a \<le> p \<and> p < ?v) \<longleftrightarrow> p \<in> cover r" "(p \<in> ?C \<or> p \<in> {a..<b}) \<and> \<not> p < ?v \<longleftrightarrow> p \<in> cover r"
    "p \<in> {a..<b} \<or> p \<in> ?C \<longleftrightarrow> a \<le> p \<and> p < ?v \<or> p \<in> cover r" for p
    using mem [of p] bey [of p] ab by (auto simp: m)
  then have left: "?C - {a..<?v} = cover r" "?C \<union> {a..<b} - {..<?v} = cover r" "{a..<b} \<union> ?C = {a..<?v} \<union> cover r"
    unfolding set_eq_iff Un_iff Diff_iff atLeastLessThan_iff lessThan_iff by blast+
  have split_k: "p \<in> ?C \<longleftrightarrow> p \<in> cover k" if "p < ?v" for p
    using that bey [of p] by (auto simp: m)
  have front: "?C \<inter> {..a} = {}"
  proof (rule cover_beyond)
    fix s e assume "(s, e) \<in> set (st_pending st)"
    then show "a < s"
      using k(2) [of "(s, e)"] r [of "(s, e)"] ab by (auto simp: m)
  qed
  have rem: "remaining_count (st_pages st) (st_pending st) a ?v = (Ok (card (pages_of (cover r))) :: (tcp_error, usize) outcome)"
    unfolding left(1) [symmetric]
  proof (rule remaining_count_ok [OF ex apart_btree [OF ap] _ b(2)])
    fix s e assume iv: "(s, e) \<in> set (st_pending st)"
    have "e \<le> ?v" if "(s, e) \<in> set k"
      using that by (force simp: union_end_def intro: foldl_max_bounds(2))
    moreover have "?v < s" if "(s, e) \<in> set r"
      using that list(1) by (auto simp: apart_Cons)
    moreover have "s < e"
      using iv ap by (auto simp: apart_def)
    ultimately show "s < e \<and> a \<le> s \<and> (e \<le> ?v \<or> ?v \<le> s)"
      using iv k(2) [of "(s, e)"] ab by (auto simp: m)
  qed
  have f: "mp_emitted_segment_bytes merge = ?v - a" "mp_added_bytes merge = card ({a..<b} - ?C)" "\<not> mp_direct_output merge"
    "mp_segment_count merge = length r + 1" "mp_union_start merge = a" "mp_union_end merge = ?v"
    using nx k us by (simp_all add: merge_def merge_of_def Let_def b(1) [symmetric] m)
  have lim: "?v \<le> usize_max"
    using b(2) by simp
  have mat: "materialize_pending_merge alloc st a pl merge \<noteq> Panic"
    unfolding merge_def using ap [unfolded m] ok m k b(1) lim nx pl by (rule materialize_emit_ok(1))
  have mat': "\<exists>out. merge' = merge\<lparr>mp_output := Some out\<rparr> \<and> a + length out = ?v
        \<and> (\<forall>i<length out. out ! i = (if a + i \<in> cover k then the (page_byte (st_pages st) (a + i)) else pl ! i))"
    if "materialize_pending_merge alloc st a pl merge = Ok merge'" for merge'
    using ap [unfolded m] ok m k b(1) lim nx pl that unfolding merge_def by (rule materialize_emit_ok(2))
  obtain out where out: "a + length out = ?v"
    "\<forall>i<length out. out ! i = (if a + i \<in> cover k then the (page_byte (st_pages st) (a + i)) else pl ! i)"
    "\<And>merge'. materialize_pending_merge alloc st a pl merge = Ok merge' \<Longrightarrow> merge' = merge\<lparr>mp_output := Some out\<rparr>"
  proof (cases "materialize_pending_merge alloc st a pl merge")
    case (Ok merge')
    then show thesis
      using mat' [OF Ok] that Ok by auto
  next
    case (Err e)
    show thesis
      using Err ab by (intro that [of "map (\<lambda>i. if a + i \<in> cover k then the (page_byte (st_pages st) (a + i)) else pl ! i)
          [0..<?v - a]"]) auto
  qed (use mat in simp)
  have "first_wins (held st) a pl (a + i) = Some (out ! i)" if "i < length out" for i
  proof (cases "a + i \<in> cover k")
    case True
    then show ?thesis
      using out that split_k [of "a + i"] page_byte_some [OF ok, of "a + i"] by (auto simp: first_wins_held [OF ok])
  next
    case False
    moreover have "a + i \<in> {a..<b}"
      using mem [of "a + i"] False that out(1) by simp
    ultimately show ?thesis
      using out that split_k [of "a + i"] b by (auto simp: first_wins_held [OF ok])
  qed
  moreover have "first_wins (held st) a pl ?v = None"
    using beyond left(3) unfolding first_wins_none [OF ok] b(1) [symmetric] by (auto simp: Un_commute)
  ultimately have "run (first_wins (held st) a pl) (st_next_offset st) out"
    by (simp add: run_def nx out(1))
  moreover have "\<exists>pg. apply_pending_merge st1 merge' full = Ok (st1\<lparr>st_pending := r, st_pages := pg\<rparr>, Some out)
      \<and> pages_exact pg (cover r) \<and> (\<forall>p\<in>cover r. page_byte pg p = first_wins (held st) a pl p)"
    if mk: "materialize_pending_merge alloc st a pl merge = Ok merge'" and ag: "agree st st1" for merge' st1 full
  proof -
    have same: "merge_of st1 a pl start k = merge_of st a pl start k" "st_pending st1 = st_pending st"
      "st_pages st1 = st_pages st" "st_next_offset st1 = a"
      using ag nx by (simp_all add: agree_def merge_of_def)
    have "a \<notin> ?C" "a \<in> {a..<a + length pl}"
      using front pl by auto
    then have "\<not> {a..<a + length pl} \<subseteq> ?C"
      by blast
    then obtain pg where
      "apply_pending_merge st1 merge' full = Ok (st1\<lparr>st_pending := r, st_pages := pg\<rparr>, Some out)"
      "pages_exact pg (cover r)" "\<And>p. p \<in> cover r \<Longrightarrow> page_byte pg p = page_byte (st_pages st) p"
      using apply_emit_ok [where st = st1 and k = k and r = r and a = a and payload = pl and start = start and out = out
          and full = full] out(3) [OF mk] ap ex m k(1) ab b
      unfolding same merge_def by (metis order.strict_trans2)
    then show ?thesis
      by (intro exI [of _ pg]) (simp add: first_wins_held [OF ok] m)
  qed
  ultimately have "merge_sound alloc st a pl start merge out r"
    using list(1) f rem mat ab out(1) unfolding merge_sound_def b(1) [symmetric] nx
    by (auto simp: left apart_Cons)
  then show ?thesis
    unfolding merge_def by blast
qed

text \<open>What a merge plan reports about the overlap with pending bytes.\<close>

definition overlap_reported :: "tcp_flow_state \<Rightarrow> u64 \<Rightarrow> bytes \<Rightarrow> pending_merge_plan \<Rightarrow> bool" where
  "overlap_reported st a pl merge \<longleftrightarrow>
     mp_overlapping_bytes merge = card (cover (st_pending st) \<inter> {a..<a + length pl})
     \<and> (\<Union>(s, e)\<in>set (mp_overlapping_ranges merge). {s..<e}) = cover (st_pending st) \<inter> {a..<a + length pl}
     \<and> (mp_has_conflicting_overlap merge \<longleftrightarrow>
          (\<exists>p x. a \<le> p \<and> p < a + length pl \<and> held st p = Some x \<and> x \<noteq> pl ! (p - a)))"

lemma clipped_cover: "(\<Union>(s, e)\<in>set (clipped a b k). {s..<e}) = cover k \<inter> {a..<b}"
  by (induction k) (auto simp: clipped_Cons clipped_def cover_def)

lemma overlap_merge_of:
  assumes ok: "pages_ok (st_pages st) (cover (st_pending st))"
    and m: "st_pending st = l @ k @ r" and l: "\<And>iv. iv \<in> set l \<Longrightarrow> snd iv < a"
    and r: "\<And>iv. iv \<in> set r \<Longrightarrow> a + length pl < fst iv"
  shows "overlap_reported st a pl (merge_of st a pl start k)"
proof -
  have "cover (st_pending st) \<inter> {a..<a + length pl} = cover k \<inter> {a..<a + length pl}"
    using m l r by (rule cover_block)
  moreover have "page_byte (st_pages st) p \<noteq> Some y \<longleftrightarrow> (\<exists>x. page_byte (st_pages st) p = Some x \<and> x \<noteq> y)"
    if "p \<in> cover (st_pending st)" for p y
    using page_byte_some [OF ok that] by (metis option.inject)
  then have "differs (st_pages st) a pl (cover (st_pending st)) \<longleftrightarrow>
      (\<exists>p x. a \<le> p \<and> p < a + length pl \<and> held st p = Some x \<and> x \<noteq> pl ! (p - a))"
    by (auto simp: differs_def held_def split: if_splits)
  ultimately show ?thesis
    by (simp add: overlap_reported_def merge_of_def Let_def clipped_cover)
qed

lemma overlap_empty:
  "mp_overlapping_bytes merge = 0 \<Longrightarrow> mp_overlapping_ranges merge = [] \<Longrightarrow> \<not> mp_has_conflicting_overlap merge \<Longrightarrow>
    overlap_reported st a [] merge"
  by (simp add: overlap_reported_def)

text \<open>Every plan for a placed payload is sound.\<close>

lemma plan_pending_merge_sound:
  assumes fl: "flow_ok limits st" and room: "st_next_offset st + max_bytes_per_flow limits + PAGE_BYTES \<le> usize_max"
    and a: "st_next_offset st \<le> a" and b: "a + length pl \<le> st_next_offset st + max_bytes_per_flow limits"
  obtains merge out pend where "plan_pending_merge st a pl start (st_next_offset st) = Ok (Some merge)"
    and "merge_sound alloc st a pl start merge out pend" and "overlap_reported st a pl merge"
proof -
  let ?C = "cover (st_pending st)" and ?b = "a + length pl"
  have ex: "pages_exact (st_pages st) ?C" and ok: "pages_ok (st_pages st) ?C" and ap: "apart (st_pending st)"
    and gt: "\<And>s e. (s, e) \<in> set (st_pending st) \<Longrightarrow> st_next_offset st < s"
    and le: "\<And>s e. (s, e) \<in> set (st_pending st) \<Longrightarrow> e \<le> st_next_offset st + max_bytes_per_flow limits"
    and lim: "?b \<le> usize_max" and "card ?C \<le> max_bytes_per_flow limits"
    using fl room b by (auto simp: flow_ok_def pages_exact_def)
  then have few: "card ?C < usize_max"
    using room by (simp add: PAGE_BYTES_def)
  show thesis
  proof (cases "pl = []")
    case True
    then show thesis
      using lim by (intro that) (auto simp: plan_pending_merge_def checked_add_def or_none_def
          intro: merge_idle [OF ex ap gt] overlap_empty)
  next
    case ne: False
    obtain l k r where m: "st_pending st = l @ k @ r" and l: "\<And>iv. iv \<in> set l \<Longrightarrow> snd iv < a"
      and k: "\<And>iv. iv \<in> set k \<Longrightarrow> touches a ?b iv" and r: "\<And>iv. iv \<in> set r \<Longrightarrow> ?b < fst iv"
      using block_split [OF ap, of a ?b] by auto
    define merge where "merge = merge_of st a pl start k"
    have plan: "plan_pending_merge st a pl start (st_next_offset st) = Ok (Some merge)"
      unfolding merge_def using ok ap m l k r ne lim few by (rule plan_pending_merge_ok)
    have rep: "overlap_reported st a pl merge"
      unfolding merge_def using ok m l r by (rule overlap_merge_of)
    have "\<exists>out pend. merge_sound alloc st a pl start merge out pend"
    proof -
      consider (idle) "{a..<?b} \<subseteq> ?C" | (store) "\<not> {a..<?b} \<subseteq> ?C" "st_next_offset st < a" | (front) "a = st_next_offset st"
        using a by linarith
      then show ?thesis
      proof cases
        case idle
        have "a \<in> ?C"
          using idle ne by auto
        then have "st_next_offset st \<noteq> a"
          using cover_beyond [OF gt] by fastforce
        moreover have "length k = 1"
          using one_block [of l k r a ?b] ap ne l k r idle m by simp
        ultimately have "merge_sound alloc st a pl start merge [] (st_pending st)"
          using idle by (intro merge_idle [OF ex ap gt]) (auto simp: merge_def merge_of_def Let_def m)
        then show ?thesis
          by blast
      next
        case store
        have "merge_sound alloc st a pl start merge [] (l @ (union_start a k, union_end ?b k) # r)"
          unfolding merge_def using ex ap gt m l k r refl lim store(2,1) by (rule merge_store)
        then show ?thesis
          by blast
      next
        case front
        have l0: "l = []"
        proof (rule ccontr)
          assume "l \<noteq> []"
          then obtain s e where "(s, e) \<in> set l"
            by (metis list.set_intros(1) neq_Nil_conv surj_pair)
          moreover from this have "s < e"
            using ap by (auto simp: m apart_def)
          ultimately show False
            using l [of "(s, e)"] gt [of s e] front by (simp add: m)
        qed
        have v: "union_end ?b k \<le> st_next_offset st + max_bytes_per_flow limits"
          using foldl_max_bounds(3) [of ?b "map snd k"] b le by (auto simp: union_end_def m) (meson le)
        show ?thesis
        proof (cases "k = []")
          case True
          have "merge_sound alloc st a pl start (merge_of st a pl start []) pl (st_pending st)"
          proof (rule merge_direct [OF ex ap _ refl _ front [symmetric] ne])
            show "?b < fst iv" if "iv \<in> set (st_pending st)" for iv
              using that r True by (simp add: m l0)
            show "?b + PAGE_BYTES \<le> usize_max"
              using b room by simp
          qed
          then show ?thesis
            unfolding merge_def True by blast
        next
          case False
          have "\<exists>out. merge_sound alloc st a pl start merge out r"
            unfolding merge_def
          proof (rule merge_emit [OF ex ap _ False _ r refl _ front [symmetric] ne])
            show "a < fst iv \<and> touches a ?b iv" if "iv \<in> set k" for iv
              using that k gt [of "fst iv" "snd iv"] unfolding front by (simp add: m)
          qed (use v room m l0 in simp_all)
          then show ?thesis
            by blast
        qed
      qed
    qed
    then show thesis
      using plan rep that by blast
  qed
qed

end
