(* ===== verification/Tcp_Refine.thy ===== *)
theory Tcp_Refine
  imports Tcp_Push
begin

text \<open>
  The push of one flow, from the plan to the committed state: it does not panic, refines the abstract
  push, keeps the invariant of the flow and leaves exactly the charges the plan announced.
\<close>

section \<open>Delivering data\<close>

lemma emit_data_ok:
  assumes tr: "history_tracks st" and lim: "st_next_offset st + length bs \<le> usize_max"
    and keep: "keep = min (h_len (st_history st) + length bs) (max_bytes - st_pending_bytes st)"
    and fits: "keep \<le> history_capacity (st_history st)"
  obtains h where "emit_data fkey bs max_bytes (st, events) =
      Ok (st\<lparr>st_next_offset := st_next_offset st + length bs, st_history_start := st_next_offset st + length bs - h_len h,
            st_history := h\<rparr>,
          events @ [Data fkey (st_base_sequence st + of_nat (st_next_offset st)) bs])"
    and "history_ok h" and "h_len h = keep" and "h_len h \<le> st_next_offset st + length bs"
    and "history_contents h = drop (h_len (st_history st) + length bs - keep) (history_contents (st_history st) @ bs)"
    and "history_capacity h = history_capacity (st_history st)"
proof -
  let ?st = "st\<lparr>st_next_offset := st_next_offset st + length bs\<rparr>"
  have tr': "history_ok (st_history ?st)" "st_history_start ?st + h_len (st_history ?st) = st_next_offset st"
    using tr by (simp_all add: history_tracks_def)
  obtain st' where st': "append_emitted_history (st_next_offset st) bs (max_bytes - st_pending_bytes st) ?st = Ok st'"
    "history_contents (st_history st') = drop (h_len (st_history st) + length bs - keep) (history_contents (st_history st) @ bs)"
    "history_ok (st_history st')" "st_history_start st' + h_len (st_history st') = st_next_offset st + length bs"
    "history_capacity (st_history st') = history_capacity (st_history st)"
    "st' = ?st\<lparr>st_history_start := st_history_start st', st_history := st_history st'\<rparr>"
    using append_emitted_history_ok [OF tr' lim, of keep "max_bytes - st_pending_bytes st"] keep fits by auto
  have "keep \<le> h_len (st_history st) + length bs"
    using keep by simp
  then have "h_len (st_history st') = keep"
    using arg_cong [OF st'(2), of length] by simp
  moreover have "st' = st\<lparr>st_next_offset := st_next_offset st + length bs,
      st_history_start := st_next_offset st + length bs - h_len (st_history st'), st_history := st_history st'\<rparr>"
    using st'(4,6) by (metis diff_add_inverse2)
  ultimately show thesis
    using st' lim by (intro that [of "st_history st'"])
      (simp_all add: emit_data_def checked_add_def saturating_sub_def, linarith?)
qed

section \<open>What the plan promises\<close>

definition closes :: "tcp_flow_state \<Rightarrow> segment \<Rightarrow> incoming_payload \<Rightarrow> u64 \<Rightarrow> bool" where
  "closes st seg inc next_offset \<longleftrightarrow> seg_rst seg
     \<or> (case (case st_fin_offset st of None \<Rightarrow> in_fin_offset inc | Some f \<Rightarrow> Some f) of
          None \<Rightarrow> False | Some f \<Rightarrow> f \<le> next_offset)"

lemma plan_merge_and_accounting_ok:
  assumes planned: "plan_merge_and_accounting limits st bb bm seg inc = Ok planned"
    and plan: "plan_pending_merge st (in_offset inc) (in_payload inc) (in_payload_start inc) (st_next_offset st) = Ok (Some merge)"
    and sound: "merge_sound alloc st (in_offset inc) (in_payload inc) (in_payload_start inc) merge out pend"
    and stop: "in_remaining_end inc = in_offset inc + length (in_payload inc)"
  obtains acc where "pm_merge planned = merge" and "pm_pending_bytes planned = st_pending_bytes st + mp_added_bytes merge"
    and "st_pending_bytes st + mp_added_bytes merge \<le> max_bytes_per_flow limits"
    and "validate_pending_final_offset st inc = Ok ()"
    and "pm_closed planned \<longleftrightarrow> closes st seg inc (st_next_offset st + length out)"
    and "plan_push_accounting
         \<lparr>ai_limits = limits, ai_state = st, ai_pending_bytes = pm_pending_bytes planned,
          ai_storage_bytes = card (pages_of (cover pend)) * PAGE_CHARGE,
          ai_emitted_segment_bytes = length out, ai_segment_count = mp_segment_count merge,
          ai_aggregate_base_bytes = bb, ai_aggregate_base_memory_charge = bm,
          ai_retains_flow_state = (\<not> pm_closed planned)\<rparr> = Ok acc"
    and "pm_initial_history_capacity planned = ac_initial_history_capacity acc"
    and "pm_history_allocation planned = ac_history_allocation acc"
    and "pm_aggregate_bytes planned = ac_aggregate_bytes acc"
    and "pm_aggregate_memory_charge planned = ac_aggregate_memory_charge acc"
proof -
  have em: "mp_emitted_segment_bytes merge = length out"
    and cnt: "if out = [] then length (st_pages st)
          + length (filter (\<lambda>key. bt_get (st_pages st) key = None) (page_keys (in_offset inc) (in_remaining_end inc)))
          = card (pages_of (cover pend))
        else remaining_count (st_pages st) (st_pending st) (mp_union_start merge) (mp_union_end merge)
          = (Ok (card (pages_of (cover pend))) :: (tcp_error, usize) outcome)"
    using sound by (auto simp: merge_sound_def stop split: if_splits)
  define counted :: "(tcp_error, usize \<times> usize) outcome" where "counted = (if length out \<noteq> 0
         then let_ok (remaining_count (st_pages st) (st_pending st) (mp_union_start merge) (mp_union_end merge)) (\<lambda>n.
              Ok (0, n))
         else let_ok (ok_or (checked_add (length (st_pages st)) (length (filter (\<lambda>key. bt_get (st_pages st) key = None)
                (page_keys (in_offset inc) (in_remaining_end inc))))) (aggregate_byte_error limits)) (\<lambda>n.
              Ok (length (filter (\<lambda>key. bt_get (st_pages st) key = None)
                (page_keys (in_offset inc) (in_remaining_end inc))), n)))"
  have count: "n = card (pages_of (cover pend))" if "counted = Ok (missing, n)" for missing n
    using cnt that by (auto simp: counted_def outcome_iff checked_iff split: if_splits)
  define pb where "pb = st_pending_bytes st + mp_added_bytes merge"
  have pb: "(case checked_add (st_pending_bytes st) (mp_added_bytes merge) of
           None \<Rightarrow> None | Some n \<Rightarrow> if n \<le> max_bytes_per_flow limits then Some n else None) = Some n
      \<longleftrightarrow> n = pb \<and> pb \<le> max_bytes_per_flow limits \<and> pb \<le> usize_max" for n
    by (auto simp: checked_iff pb_def split: option.split if_splits)
  have "let_ok (plan_pending_merge st (in_offset inc) (in_payload inc) (in_payload_start inc) (st_next_offset st)) f
      = f (Some merge)" for f :: "pending_merge_plan option \<Rightarrow> (tcp_error, planned_merge) outcome"
    by (simp add: plan)
  note step = planned [unfolded plan_merge_and_accounting_def this ok_or_simps let_ok.simps em Let_def, folded counted_def]
  have "\<exists>acc. validate_pending_final_offset st inc = Ok () \<and> pb \<le> max_bytes_per_flow limits
      \<and> pm_merge planned = merge \<and> pm_pending_bytes planned = pb
      \<and> pm_closed planned = closes st seg inc (st_next_offset st + length out)
      \<and> plan_push_accounting
         \<lparr>ai_limits = limits, ai_state = st, ai_pending_bytes = pb,
          ai_storage_bytes = card (pages_of (cover pend)) * PAGE_CHARGE,
          ai_emitted_segment_bytes = length out, ai_segment_count = mp_segment_count merge,
          ai_aggregate_base_bytes = bb, ai_aggregate_base_memory_charge = bm,
          ai_retains_flow_state = (\<not> closes st seg inc (st_next_offset st + length out))\<rparr> = Ok acc
      \<and> pm_initial_history_capacity planned = ac_initial_history_capacity acc
      \<and> pm_history_allocation planned = ac_history_allocation acc
      \<and> pm_aggregate_bytes planned = ac_aggregate_bytes acc
      \<and> pm_aggregate_memory_charge planned = ac_aggregate_memory_charge acc"
    using step unfolding let_ok_Ok_iff ok_or_iff pb checked_iff
    by (elim exE conjE) (clarsimp simp: let_ok_Ok_iff ok_or_iff checked_iff closes_def dest!: count)
  then show thesis
    unfolding pb_def by (elim exE conjE) (rule that; simp)
qed

lemma plan_merge_and_accounting_no_panic:
  assumes "plan_pending_merge st (in_offset inc) (in_payload inc) (in_payload_start inc) (st_next_offset st) = Ok (Some merge)"
    and "merge_sound alloc st (in_offset inc) (in_payload inc) (in_payload_start inc) merge out pend"
  shows "plan_merge_and_accounting limits st bb bm seg inc \<noteq> Panic"
proof -
  have "mp_emitted_segment_bytes merge = length out" "out \<noteq> [] \<longrightarrow>
      remaining_count (st_pages st) (st_pending st) (mp_union_start merge) (mp_union_end merge) \<noteq> (Panic :: (tcp_error, usize) outcome)"
    using assms(2) by (auto simp: merge_sound_def split: if_splits)
  moreover have "validate_pending_final_offset st inc \<noteq> Panic"
    by (simp add: validate_pending_final_offset_def split: option.split)
  ultimately show ?thesis
    by (simp add: plan_merge_and_accounting_def assms(1) outcome_iff Let_def plan_push_accounting_no_panic split: prod.split)
qed

text \<open>The history the plan keeps before delivery fits the planned allocation, which fits the flow limit.\<close>

lemma history_plan_bounds:
  fixes hlen :: nat
  assumes "init = limit - pb" and "pb \<le> limit" and "emitted \<le> pb" and "fcap = limit - (pb - emitted)"
    and "kept = min (saturating_add (min hlen init) emitted) fcap"
    and "allocation = planned_history_allocation current kept fcap"
    and "current \<le> limit" and "limit \<le> usize_max"
  shows "kept = min (min hlen init + emitted) fcap" and "min hlen init \<le> allocation" and "kept \<le> allocation"
    and "allocation \<le> limit" and "pb - emitted + kept \<le> limit"
proof -
  have "fcap \<le> usize_max"
    using assms(4,8) by simp
  then show kept: "kept = min (min hlen init + emitted) fcap"
    unfolding assms(5) saturating_add_def by linarith
  have "kept \<le> fcap" "fcap \<le> limit"
    using assms(4,5) by simp_all
  then show "kept \<le> allocation" "allocation \<le> limit"
    using planned_history_allocation_bounds [of kept fcap current] assms(6,7) by auto
  moreover have "min hlen init \<le> kept"
    unfolding kept using assms(1,3,4) by auto
  ultimately show "min hlen init \<le> allocation"
    by simp
  show "pb - emitted + kept \<le> limit"
    unfolding kept using assms(2,4) by auto
qed

text \<open>
  The contract between plan and commit: everything the commit relies on, with the bytes \<open>out\<close> it
  will deliver, the intervals \<open>pend\<close> it will keep and the length \<open>kept\<close> of the history it leaves.
\<close>

definition planned_push ::
  "allocator \<Rightarrow> tcp_limits \<Rightarrow> tcp_flow_state \<Rightarrow> usize \<Rightarrow> usize \<Rightarrow> segment \<Rightarrow> push_plan
     \<Rightarrow> incoming_payload \<Rightarrow> bytes \<Rightarrow> (u64, u64) btree \<Rightarrow> usize \<Rightarrow> usize \<Rightarrow> bool" where
  "planned_push alloc limits st bb bm seg plan inc out pend kept capacity \<longleftrightarrow>
     (let M = max_bytes_per_flow limits; pb = pp_pending_bytes plan; h0 = min (h_len (st_history st)) (M - pb);
          rb = card (cover pend) + kept;
          mc = card (pages_of (cover pend)) * PAGE_CHARGE + length pend * 64 + capacity in
      placed limits st seg inc
      \<and> (\<exists>merge. merge_sound alloc st (in_offset inc) (in_payload inc) (in_payload_start inc) merge out pend
           \<and> overlap_reported st (in_offset inc) (in_payload inc) merge
           \<and> materialize_pending_merge alloc st (in_offset inc) (in_payload inc) merge = Ok (pp_merge plan))
      \<and> prepare_emitted_history alloc st (M - pb) capacity = Ok (pp_history_replacement plan)
      \<and> pp_initial_history_capacity plan = M - pb
      \<and> pp_payload_sequence plan = in_sequence inc \<and> pp_incoming_fin_offset plan = in_fin_offset inc
      \<and> pp_retransmitted plan = in_payload_start inc \<and> pp_conflicting plan = in_conflicting inc
      \<and> pp_direct_payload plan = (if mp_direct_output (pp_merge plan)
           then Some (in_payload_start inc, in_payload_start inc + length (in_payload inc)) else None)
      \<and> pb = card (cover pend) + length out \<and> pb \<le> M
      \<and> h0 \<le> capacity \<and> kept \<le> capacity \<and> capacity \<le> M \<and> kept = min (h0 + length out) (M - card (cover pend))
      \<and> length pend \<le> max_segments_per_flow limits
      \<and> validate_pending_final_offset st inc = Ok ()
      \<and> pp_closed plan = closes st seg inc (st_next_offset st + length out)
      \<and> bb + rb \<le> max_aggregate_bytes limits \<and> bm + mc + (if pp_closed plan then 0 else 256) \<le> max_aggregate_bytes limits
      \<and> bm + mc + (if pp_closed plan then 0 else 256) \<le> usize_max
      \<and> pp_aggregate_bytes plan = (if pp_closed plan then bb else bb + rb)
      \<and> pp_aggregate_memory_charge plan = (if pp_closed plan then bm else bm + mc + 256))"

lemma merge_sound_card:
  assumes fl: "flow_ok limits st" and a: "st_next_offset st \<le> a"
    and sound: "merge_sound alloc st a pl start merge out pend"
  shows "card (cover pend) + length out = st_pending_bytes st + mp_added_bytes merge"
proof -
  let ?C = "cover (st_pending st)" and ?A = "{a..<a + length pl}" and ?n = "st_next_offset st"
  have ok: "pages_ok (st_pages st) ?C" and fin: "finite ?C" and pb: "st_pending_bytes st = card ?C"
    and gt: "\<And>s e. (s, e) \<in> set (st_pending st) \<Longrightarrow> ?n < s"
    using fl by (auto simp: flow_ok_def pages_exact_def pages_ok_def)
  have run: "run (first_wins (held st) a pl) ?n out" and cov: "cover pend = ?C \<union> ?A - {..<?n + length out}"
    and add: "mp_added_bytes merge = card (?A - ?C)"
    using sound by (simp_all add: merge_sound_def)
  have "p \<in> ?C \<union> ?A" if "p \<in> {?n..<?n + length out}" for p
  proof -
    have "first_wins (held st) a pl (?n + (p - ?n)) \<noteq> None"
      using run that unfolding run_def by (metis atLeastLessThan_iff le_add_diff_inverse less_diff_conv2 option.discI add.commute)
    then show ?thesis
      using that first_wins_none [OF ok, of a pl p] by auto
  qed
  moreover have "?n \<le> p" if "p \<in> ?C \<union> ?A" for p
    using that a gt by (fastforce simp: mem_cover)
  ultimately have "?C \<union> ?A = cover pend \<union> {?n..<?n + length out}"
    unfolding cov by fastforce
  moreover have "card (cover pend \<union> {?n..<?n + length out}) = card (cover pend) + length out"
    using fin unfolding cov by (subst card_Un_disjoint) auto
  moreover have "card (?C \<union> ?A) = card ?C + card (?A - ?C)"
    using fin card_Un_disjoint [of ?C "?A - ?C"] by auto
  ultimately show ?thesis
    using add pb by simp
qed

lemma planned_numbers:
  assumes fl: "flow_ok limits st" and M: "max_bytes_per_flow limits \<le> usize_max"
    and planned: "plan_merge_and_accounting limits st bb bm seg inc = Ok planned"
    and plan: "plan_pending_merge st (in_offset inc) (in_payload inc) (in_payload_start inc) (st_next_offset st) = Ok (Some merge)"
    and sound: "merge_sound alloc st (in_offset inc) (in_payload inc) (in_payload_start inc) merge out pend"
    and pl: "placed limits st seg inc"
    and defs: "M = max_bytes_per_flow limits" "pb = card (cover pend) + length out" "h0 = min (h_len (st_history st)) (M - pb)"
      "kept = min (h0 + length out) (M - card (cover pend))" "capacity = pm_history_allocation planned"
      "rb = card (cover pend) + kept" "mc = card (pages_of (cover pend)) * PAGE_CHARGE + length pend * 64 + capacity"
  shows "pm_merge planned = merge" and "pm_pending_bytes planned = pb" and "pb \<le> M"
    and "pm_initial_history_capacity planned = M - pb"
    and "h0 \<le> capacity" and "kept \<le> capacity" and "capacity \<le> M" and "length pend \<le> max_segments_per_flow limits"
    and "validate_pending_final_offset st inc = Ok ()"
    and "pm_closed planned = closes st seg inc (st_next_offset st + length out)"
    and "bb + rb \<le> max_aggregate_bytes limits" and "bm + mc + (if pm_closed planned then 0 else 256) \<le> max_aggregate_bytes limits"
    and "bm + mc + (if pm_closed planned then 0 else 256) \<le> usize_max"
    and "pm_aggregate_bytes planned = (if pm_closed planned then bb else bb + rb)"
    and "pm_aggregate_memory_charge planned = (if pm_closed planned then bm else bm + mc + 256)"
proof -
  have stop: "in_remaining_end inc = in_offset inc + length (in_payload inc)" and a: "st_next_offset st \<le> in_offset inc"
    using pl by (simp_all add: placed_def)
  have pb: "st_pending_bytes st + mp_added_bytes merge = pb"
    using merge_sound_card [OF fl a sound] by (simp add: defs)
  obtain acc where p: "pm_merge planned = merge" "pm_pending_bytes planned = pb" "pb \<le> M"
    "validate_pending_final_offset st inc = Ok ()" "pm_closed planned \<longleftrightarrow> closes st seg inc (st_next_offset st + length out)"
    and acc: "plan_push_accounting
         \<lparr>ai_limits = limits, ai_state = st, ai_pending_bytes = pb,
          ai_storage_bytes = card (pages_of (cover pend)) * PAGE_CHARGE,
          ai_emitted_segment_bytes = length out, ai_segment_count = mp_segment_count merge,
          ai_aggregate_base_bytes = bb, ai_aggregate_base_memory_charge = bm,
          ai_retains_flow_state = (\<not> pm_closed planned)\<rparr> = Ok acc"
    and q: "pm_initial_history_capacity planned = ac_initial_history_capacity acc" "capacity = ac_history_allocation acc"
      "pm_aggregate_bytes planned = ac_aggregate_bytes acc" "pm_aggregate_memory_charge planned = ac_aggregate_memory_charge acc"
    using plan_merge_and_accounting_ok [OF planned plan sound stop] pb defs(1,5) by metis
  have fp: "pb - length out = card (cover pend)"
    by (simp add: defs)
  have segs: "mp_segment_count merge - (if length out \<noteq> 0 then 1 else 0) = length pend"
    using sound by (simp add: merge_sound_def)
  define k where "k = min (saturating_add (min (h_len (st_history st)) (M - pb)) (length out)) (M - card (cover pend))"
  note ac = plan_push_accounting_ok [OF acc, unfolded push_accounting_input.simps fp segs, OF refl refl refl refl refl refl,
      folded defs(1), OF k_def]
  have cap: "history_capacity (st_history st) \<le> M"
    using fl by (simp add: flow_ok_def defs)
  have emit: "length out \<le> pb" and M': "M \<le> usize_max"
    using M by (simp_all add: defs)
  have "capacity = planned_history_allocation (history_capacity (st_history st)) k (M - card (cover pend))"
    using ac(2) q(2) by simp
  note hb = history_plan_bounds [OF refl p(3) emit refl, unfolded fp, OF k_def this cap M']
  have kk: "k = kept"
    using hb(1) by (simp add: defs)
  show "pm_merge planned = merge" "pm_pending_bytes planned = pb" "pb \<le> M" "validate_pending_final_offset st inc = Ok ()"
    "pm_closed planned = closes st seg inc (st_next_offset st + length out)"
    by (fact p)+
  show "pm_initial_history_capacity planned = M - pb" "h0 \<le> capacity" "kept \<le> capacity" "capacity \<le> M"
    unfolding q(1) ac(1) defs(3) kk [symmetric] by (rule refl hb)+
  show "length pend \<le> max_segments_per_flow limits" "bb + rb \<le> max_aggregate_bytes limits"
    unfolding defs(6) kk [symmetric] by (rule ac)+
  define pages where "pages = card (pages_of (cover pend)) * PAGE_CHARGE"
  have mc: "mc = pages + length pend * 64 + capacity"
    by (simp add: defs(7) pages_def)
  note ac' = ac(5-8) [folded q(2) pages_def]
  show "bm + mc + (if pm_closed planned then 0 else 256) \<le> max_aggregate_bytes limits"
    "bm + mc + (if pm_closed planned then 0 else 256) \<le> usize_max"
    using ac'(1,2) unfolding mc by (simp_all split: if_splits)
  show "pm_aggregate_bytes planned = (if pm_closed planned then bb else bb + rb)"
    "pm_aggregate_memory_charge planned = (if pm_closed planned then bm else bm + mc + 256)"
    unfolding q(3,4) ac'(3,4) mc defs(6) kk by simp_all
qed

lemma placed_window:
  assumes "placed limits st seg inc"
  shows "st_next_offset st \<le> in_offset inc"
    and "in_offset inc + length (in_payload inc) \<le> st_next_offset st + max_bytes_per_flow limits"
proof -
  have "in_remaining_end inc = in_offset inc + length (in_payload inc)"
    "in_remaining_end inc \<le> st_next_offset st + max_bytes_per_flow limits" "st_next_offset st \<le> in_offset inc"
    using assms unfolding placed_def by blast+
  then show "st_next_offset st \<le> in_offset inc"
    "in_offset inc + length (in_payload inc) \<le> st_next_offset st + max_bytes_per_flow limits"
    by simp_all
qed

text \<open>A placed payload always has a sound merge plan.\<close>

lemma normalized_merge:
  assumes fl: "flow_ok limits st" and room: "st_next_offset st + max_bytes_per_flow limits + PAGE_BYTES \<le> usize_max"
    and n: "normalize_payload limits st seg = Ok inc"
  obtains merge out pend where
    "plan_pending_merge st (in_offset inc) (in_payload inc) (in_payload_start inc) (st_next_offset st) = Ok (Some merge)"
    and "merge_sound alloc st (in_offset inc) (in_payload inc) (in_payload_start inc) merge out pend"
    and "overlap_reported st (in_offset inc) (in_payload inc) merge" and "placed limits st seg inc"
proof -
  have "history_tracks st" "st_next_offset st \<le> usize_max"
    using fl room by (simp_all add: flow_ok_def)
  then have pl: "placed limits st seg inc"
    using n by (rule normalize_payload_ok(2))
  note window = placed_window [OF pl]
  show thesis
    using window by (rule plan_pending_merge_sound [OF fl room]) (rule that [OF _ _ _ pl])
qed

lemma plan_push_planned:
  assumes fl: "flow_ok limits st" and room: "st_next_offset st + max_bytes_per_flow limits + PAGE_BYTES \<le> usize_max"
  shows "plan_push alloc limits st bb bm tm seg \<noteq> Panic"
    and "plan_push alloc limits st bb bm tm seg = Ok plan \<Longrightarrow>
      \<exists>inc out pend kept capacity. planned_push alloc limits st bb bm seg plan inc out pend kept capacity"
proof -
  have tr: "history_tracks st" and nx: "st_next_offset st \<le> usize_max" and M: "max_bytes_per_flow limits \<le> usize_max"
    using fl room by (simp_all add: flow_ok_def)
  note sound = normalized_merge [OF fl room]
  note numbers = planned_numbers [OF fl M _ _ _ _ refl refl refl refl refl refl refl]
  have step: "plan_merge_and_accounting limits st bb bm seg inc \<noteq> Panic"
    "\<And>planned. plan_merge_and_accounting limits st bb bm seg inc = Ok planned \<Longrightarrow>
        materialize_pending_merge alloc st (in_offset inc) (in_payload inc) (pm_merge planned) \<noteq> Panic
        \<and> prepare_emitted_history alloc st (pm_initial_history_capacity planned) (pm_history_allocation planned) \<noteq> Panic"
    if n: "normalize_payload limits st seg = Ok inc" for inc
  proof -
    obtain merge out pend where m:
      "plan_pending_merge st (in_offset inc) (in_payload inc) (in_payload_start inc) (st_next_offset st) = Ok (Some merge)"
      "merge_sound alloc st (in_offset inc) (in_payload inc) (in_payload_start inc) merge out pend" "placed limits st seg inc"
      using sound [OF n] by metis
    show "plan_merge_and_accounting limits st bb bm seg inc \<noteq> Panic"
      using m(1,2) by (rule plan_merge_and_accounting_no_panic)
    fix planned assume p: "plan_merge_and_accounting limits st bb bm seg inc = Ok planned"
    note num = numbers [OF p m]
    have "materialize_pending_merge alloc st (in_offset inc) (in_payload inc) (pm_merge planned) \<noteq> Panic"
      using m(2) unfolding num(1) by (simp add: merge_sound_def)
    moreover have "prepare_emitted_history alloc st (pm_initial_history_capacity planned) (pm_history_allocation planned) \<noteq> Panic"
      using prepare_emitted_history_ok [OF tr, of "pm_initial_history_capacity planned" "pm_history_allocation planned" alloc]
        num(4,5) by (auto split: if_splits)
    ultimately show "materialize_pending_merge alloc st (in_offset inc) (in_payload inc) (pm_merge planned) \<noteq> Panic
        \<and> prepare_emitted_history alloc st (pm_initial_history_capacity planned) (pm_history_allocation planned) \<noteq> Panic"
      by blast
  qed
  show "plan_push alloc limits st bb bm tm seg \<noteq> Panic"
    using step normalize_payload_ok(1) [OF tr nx] unfolding plan_push_def
    by (auto simp: outcome_iff transient_peak_no_panic split: if_splits)
  assume "plan_push alloc limits st bb bm tm seg = Ok plan"
  then obtain inc planned where n: "normalize_payload limits st seg = Ok inc"
    and p: "plan_merge_and_accounting limits st bb bm seg inc = Ok planned"
    and mat: "materialize_pending_merge alloc st (in_offset inc) (in_payload inc) (pm_merge planned) = Ok (pp_merge plan)"
    and prep: "prepare_emitted_history alloc st (pm_initial_history_capacity planned) (pm_history_allocation planned)
      = Ok (pp_history_replacement plan)"
    and f: "pp_payload_sequence plan = in_sequence inc" "pp_incoming_fin_offset plan = in_fin_offset inc"
      "pp_retransmitted plan = in_retransmitted inc" "pp_conflicting plan = in_conflicting inc"
      "pp_pending_bytes plan = pm_pending_bytes planned"
      "pp_initial_history_capacity plan = pm_initial_history_capacity planned" "pp_closed plan = pm_closed planned"
      "pp_aggregate_bytes plan = pm_aggregate_bytes planned"
      "pp_aggregate_memory_charge plan = pm_aggregate_memory_charge planned"
    and d: "pp_direct_payload plan = (if mp_direct_output (pp_merge plan)
           then Some (in_payload_start inc, in_payload_start inc + length (in_payload inc)) else None)"
    unfolding plan_push_def by (auto simp: outcome_iff checked_iff split: if_splits)
  obtain merge out pend where m:
    "plan_pending_merge st (in_offset inc) (in_payload inc) (in_payload_start inc) (st_next_offset st) = Ok (Some merge)"
    "merge_sound alloc st (in_offset inc) (in_payload inc) (in_payload_start inc) merge out pend" "placed limits st seg inc"
    "overlap_reported st (in_offset inc) (in_payload inc) merge"
    using sound [OF n] by metis
  note num = numbers [OF p m(1-3)]
  have rt: "in_retransmitted inc = in_payload_start inc"
    using m(3) by (simp add: placed_def)
  define kept where "kept = min (min (h_len (st_history st)) (max_bytes_per_flow limits - (card (cover pend) + length out))
      + length out) (max_bytes_per_flow limits - card (cover pend))"
  note num' = num [folded kept_def]
  have "planned_push alloc limits st bb bm seg plan inc out pend kept (pm_history_allocation planned)"
    unfolding planned_push_def Let_def f rt d num(1,2)
  proof (intro conjI)
    show "\<exists>merge. merge_sound alloc st (in_offset inc) (in_payload inc) (in_payload_start inc) merge out pend
           \<and> overlap_reported st (in_offset inc) (in_payload inc) merge
           \<and> materialize_pending_merge alloc st (in_offset inc) (in_payload inc) merge = Ok (pp_merge plan)"
      using m mat num(1) by blast
  qed (rule refl m(3) prep [unfolded num(4)] kept_def num')+
  then show "\<exists>inc out pend kept capacity. planned_push alloc limits st bb bm seg plan inc out pend kept capacity"
    by blast
qed

section \<open>The commit\<close>

text \<open>The report of bytes seen before: delivered ones cut off by placement and pending ones.\<close>

definition report :: "scoped_flow_key \<Rightarrow> tcp_flow_state \<Rightarrow> incoming_payload \<Rightarrow> (u32 \<times> u32) list \<Rightarrow> event list" where
  "report fkey st inc ranges =
     (let a = in_offset inc; pl = in_payload inc;
          n = saturating_add (in_payload_start inc) (card (cover (st_pending st) \<inter> {a..<a + length pl}));
          conflicting = (in_conflicting inc \<or>
            (\<exists>p x. a \<le> p \<and> p < a + length pl \<and> held st p = Some x \<and> x \<noteq> pl ! (p - a))) in
      if n \<noteq> 0 \<or> conflicting then [Retransmission fkey (in_sequence inc) n conflicting ranges] else [])"

definition data_event :: "scoped_flow_key \<Rightarrow> tcp_flow_state \<Rightarrow> bytes \<Rightarrow> event list" where
  "data_event fkey st out =
     (if out = [] then [] else [Data fkey (st_base_sequence st + of_nat (st_next_offset st)) out])"

definition reported_ranges :: "tcp_flow_state \<Rightarrow> incoming_payload \<Rightarrow> (u32 \<times> u32) list \<Rightarrow> bool" where
  "reported_ranges st inc ranges \<longleftrightarrow>
     (\<exists>rs. ranges = (if in_payload_start inc \<noteq> 0
              then [(in_sequence inc, in_sequence inc + of_nat (in_payload_start inc))] else [])
            @ map (\<lambda>(s, e). (st_base_sequence st + of_nat s, st_base_sequence st + of_nat e)) rs
        \<and> (\<Union>(s, e)\<in>set rs. {s..<e}) = cover (st_pending st) \<inter> {in_offset inc..<in_offset inc + length (in_payload inc)})"

definition committed ::
  "tcp_flow_state \<Rightarrow> instant \<Rightarrow> incoming_payload \<Rightarrow> bytes \<Rightarrow> (u64, u64) btree \<Rightarrow> usize \<Rightarrow> usize \<Rightarrow> tcp_flow_state \<Rightarrow> bool" where
  "committed st now inc out pend kept capacity st' \<longleftrightarrow>
     st_base_sequence st' = st_base_sequence st \<and> st_deadline st' = st_deadline st
     \<and> st_last_update st' = max (st_last_update st) now
     \<and> st_next_offset st' = st_next_offset st + length out
     \<and> st_pending st' = pend \<and> pages_exact (st_pages st') (cover pend)
     \<and> (\<forall>p\<in>cover pend. page_byte (st_pages st') p = first_wins (held st) (in_offset inc) (in_payload inc) p)
     \<and> st_pending_bytes st' = card (cover pend)
     \<and> history_tracks st' \<and> h_len (st_history st') = kept \<and> history_capacity (st_history st') = capacity
     \<and> history_contents (st_history st')
         = drop (h_len (st_history st) + length out - kept) (history_contents (st_history st) @ out)
     \<and> st_fin_offset st' = (case st_fin_offset st of None \<Rightarrow> in_fin_offset inc | Some f \<Rightarrow> Some f)"

lemma drop_suffix_append:
  assumes "ys = drop (n - m) xs" and "m \<le> n" and "k \<le> m + length zs" and "length xs = n"
  shows "drop (m + length zs - k) (ys @ zs) = drop (n + length zs - k) (xs @ zs)"
proof -
  have "m + length zs - k + (n - m) = n + length zs - k" "n - (n - m) = m" "m + length zs - k - m = n + length zs - k - n"
    using assms by auto
  then show ?thesis
    using assms(1,4) by simp
qed

lemma commit_flow_push_ok:
  assumes fl: "flow_ok limits st" and room: "st_next_offset st + max_bytes_per_flow limits \<le> usize_max"
    and pp: "planned_push alloc limits st bb bm seg plan inc out pend kept capacity"
    and direct: "direct = Option.bind (pp_direct_payload plan) (\<lambda>(x, y). checked_slice (seg_payload seg) x y)"
  obtains st' ranges where
    "commit_flow_push st fkey now (max_bytes_per_flow limits) plan direct (seg_payload seg)
       = Ok (st', report fkey st inc ranges @ data_event fkey st out)"
    and "reported_ranges st inc ranges" and "committed st now inc out pend kept capacity st'"
proof -
  define M where "M = max_bytes_per_flow limits"
  let ?pb = "pp_pending_bytes plan" and ?st0 = "st\<lparr>st_last_update := max (st_last_update st) now\<rparr>"
  let ?a = "in_offset inc" and ?pl = "in_payload inc" and ?start = "in_payload_start inc" and ?n = "st_next_offset st"
  define fin where "fin = (case st_fin_offset st of None \<Rightarrow> in_fin_offset inc | Some f \<Rightarrow> Some f)"
  have pl: "placed limits st seg inc" and prep: "prepare_emitted_history alloc st (M - ?pb) capacity = Ok (pp_history_replacement plan)"
    and init: "pp_initial_history_capacity plan = M - ?pb"
    and f: "pp_payload_sequence plan = in_sequence inc" "pp_incoming_fin_offset plan = in_fin_offset inc"
      "pp_retransmitted plan = ?start" "pp_conflicting plan = in_conflicting inc"
    and dir: "pp_direct_payload plan = (if mp_direct_output (pp_merge plan) then Some (?start, ?start + length ?pl) else None)"
    and pb: "?pb = card (cover pend) + length out" "?pb \<le> M"
    and cap: "min (h_len (st_history st)) (M - ?pb) \<le> capacity" "kept \<le> capacity"
    and kept: "kept = min (min (h_len (st_history st)) (M - ?pb) + length out) (M - card (cover pend))"
    using pp unfolding planned_push_def Let_def M_def by blast+
  obtain merge where sound: "merge_sound alloc st ?a ?pl ?start merge out pend" and rep: "overlap_reported st ?a ?pl merge"
    and mat: "materialize_pending_merge alloc st ?a ?pl merge = Ok (pp_merge plan)"
    using pp unfolding planned_push_def Let_def by blast
  note keeps = materialize_keeps [OF mat]
  have tr: "history_tracks ?st0" and "prepare_emitted_history alloc ?st0 = prepare_emitted_history alloc st"
    using fl by (simp_all add: flow_ok_def history_tracks_def prepare_emitted_history_def fun_eq_iff)
  then have prep0: "prepare_emitted_history alloc ?st0 (M - ?pb) capacity = Ok (pp_history_replacement plan)"
    using prep by simp
  obtain h where h: "with_history (pp_history_replacement plan) (trim_emitted_history (M - ?pb) ?st0)
      = ?st0\<lparr>st_history_start := ?n - h_len h, st_history := h\<rparr>"
    "history_ok h" "history_contents h = drop (h_len (st_history st) - (M - ?pb)) (history_contents (st_history st))"
    "history_capacity h = capacity" "h_len h = min (h_len (st_history st)) (M - ?pb)" "h_len h \<le> ?n"
    using commit_history [OF tr _ prep0] cap(1) room by auto
  define st1 where "st1 = ?st0\<lparr>st_history_start := ?n - h_len h, st_history := h\<rparr>"
  have full: "?start \<le> length (seg_payload seg)" "drop ?start (seg_payload seg) = ?pl"
    using pl by (simp_all add: placed_def)
  have "agree st st1"
    by (simp add: agree_def st1_def)
  then obtain pg where app: "apply_pending_merge st1 (pp_merge plan) (seg_payload seg)
        = Ok (st1\<lparr>st_pending := pend, st_pages := pg\<rparr>, if mp_direct_output merge \<or> out = [] then None else Some out)"
    and pg: "pages_exact pg (cover pend)" "\<forall>p\<in>cover pend. page_byte pg p = first_wins (held st) ?a ?pl p"
    using sound mat full unfolding merge_sound_def by blast
  define st2 where "st2 = st1\<lparr>st_pending := pend, st_pages := pg, st_pending_bytes := card (cover pend), st_fin_offset := fin\<rparr>"
  define ranges where "ranges = (if ?start \<noteq> 0 then [(in_sequence inc, in_sequence inc + of_nat ?start)] else [])
            @ map (\<lambda>(s, e). (st_base_sequence st + of_nat s, st_base_sequence st + of_nat e)) (mp_overlapping_ranges merge)"
  have rs: "reported_ranges st inc ranges"
    using rep by (auto simp: reported_ranges_def ranges_def overlap_reported_def)
  have dn: "mp_direct_output merge \<Longrightarrow> out = ?pl \<and> out \<noteq> []"
    using sound by (auto simp: merge_sound_def)
  have "checked_slice (seg_payload seg) ?start (?start + length ?pl) = Some ?pl"
    using full(1) unfolding full(2) [symmetric] by (simp add: checked_slice_def slice_of_def)
  then have dp: "direct = (if mp_direct_output merge then Some out else None)"
    using dn unfolding direct dir keeps by simp
  have commit: "commit_flow_push st fkey now M plan direct (seg_payload seg)
      = (if out = [] then Ok (st2, report fkey st inc ranges) else emit_data fkey out M (st2, report fkey st inc ranges))"
  proof -
    let ?x = "st1\<lparr>st_pending := pend, st_pages := pg, st_pending_bytes := ?pb\<rparr>"
    have fin': "(if st_fin_offset ?x = None then ?x\<lparr>st_fin_offset := in_fin_offset inc\<rparr> else ?x) = st2\<lparr>st_pending_bytes := ?pb\<rparr>"
      by (cases st) (auto simp: fin_def st1_def st2_def split: option.split)
    have r: "report fkey st inc ranges =
        (if saturating_add ?start (mp_overlapping_bytes merge) \<noteq> 0 \<or> in_conflicting inc \<or> mp_has_conflicting_overlap merge
         then [Retransmission fkey (in_sequence inc) (saturating_add ?start (mp_overlapping_bytes merge))
             (in_conflicting inc \<or> mp_has_conflicting_overlap merge) ranges] else [])"
    proof -
      have o: "mp_overlapping_bytes merge = card (cover (st_pending st) \<inter> {?a..<?a + length ?pl})"
        "mp_has_conflicting_overlap merge \<longleftrightarrow>
          (\<exists>p x. ?a \<le> p \<and> p < ?a + length ?pl \<and> held st p = Some x \<and> x \<noteq> ?pl ! (p - ?a))"
        using rep unfolding overlap_reported_def by blast+
      show ?thesis
        unfolding report_def Let_def o [symmetric] by (rule refl)
    qed
    have same: "st2\<lparr>st_pending_bytes := card (cover pend)\<rparr> = st2"
      by (simp add: st2_def)
    have ml: "let_ok (apply_pending_merge st1 (pp_merge plan) (seg_payload seg)) g
        = g (st1\<lparr>st_pending := pend, st_pages := pg\<rparr>, if mp_direct_output merge \<or> out = [] then None else Some out)"
      for g :: "tcp_flow_state \<times> bytes option \<Rightarrow> (tcp_error, tcp_flow_state \<times> event list) outcome"
      by (simp add: app)
    show ?thesis
      unfolding commit_flow_push_def Let_def init f keeps with_history_def [symmetric] h(1) st1_def [symmetric] ml prod.case
        fin' ranges_def [symmetric] r [symmetric] dp
      using dn pb(1) by (cases "mp_direct_output merge"; cases "out = []")
        (simp_all add: saturating_sub_def checked_sub_def same)
  qed
  have s2: "history_tracks st2" "st_next_offset st2 = ?n" "st_base_sequence st2 = st_base_sequence st" "st_history st2 = h"
    "st_pending_bytes st2 = card (cover pend)"
    using h(2,6) by (simp_all add: st2_def st1_def history_tracks_def)
  have hl: "h_len h \<le> h_len (st_history st)" "h_len (st_history st) - (M - ?pb) = h_len (st_history st) - h_len h"
    using h(5) by auto
  note hc = h(3) [unfolded hl(2)]
  show thesis
  proof (cases "out = []")
    case True
    have "kept = h_len h"
      using True h(5) pb kept by auto
    moreover have "committed st now inc out pend (h_len h) capacity st2"
      using True h(4) hc s2(1,2) pg by (simp add: committed_def st2_def st1_def fin_def)
    ultimately show thesis
      using True rs commit by (intro that [of st2 ranges]) (simp_all add: data_event_def M_def)
  next
    case False
    have len: "?n + length out \<le> usize_max"
      using pb room by (simp add: M_def)
    obtain h' where h': "emit_data fkey out M (st2, report fkey st inc ranges) =
        Ok (st2\<lparr>st_next_offset := ?n + length out, st_history_start := ?n + length out - h_len h', st_history := h'\<rparr>,
            report fkey st inc ranges @ [Data fkey (st_base_sequence st + of_nat ?n) out])"
      "history_ok h'" "h_len h' = kept" "h_len h' \<le> ?n + length out"
      "history_contents h' = drop (h_len h + length out - kept) (history_contents h @ out)" "history_capacity h' = capacity"
    proof (rule emit_data_ok [OF s2(1), unfolded s2(2-5), OF len])
      show "kept = min (h_len h + length out) (M - card (cover pend))"
        unfolding kept h(5) by (rule refl)
      show "kept \<le> history_capacity h"
        using cap(2) h(4) by simp
    qed (rule that; simp only: h(4))
    have "drop (h_len h + length out - kept) (history_contents h @ out)
        = drop (h_len (st_history st) + length out - kept) (history_contents (st_history st) @ out)"
    proof (rule drop_suffix_append [OF hc hl(1)])
      show "kept \<le> h_len h + length out"
        unfolding kept h(5) by (rule min.cobounded1)
    qed simp
    then have "committed st now inc out pend kept capacity
        (st2\<lparr>st_next_offset := ?n + length out, st_history_start := ?n + length out - h_len h', st_history := h'\<rparr>)"
      using h'(2-6) pg by (simp add: committed_def st2_def st1_def fin_def history_tracks_def)
    then show thesis
      using False rs commit h'(1) by (intro that) (auto simp: data_event_def M_def)
  qed
qed

text \<open>Interval ends are bounded by what bounds the covered bytes.\<close>

lemma apart_ends:
  assumes "apart m" and "\<And>p. p \<in> cover m \<Longrightarrow> p < b" and "(s, e) \<in> set m"
  shows "e \<le> b"
proof -
  have "s < e"
    using assms(1,3) by (auto simp: apart_def)
  then have "e - 1 \<in> cover m"
    using assms(3) by (fastforce simp: mem_cover)
  then show ?thesis
    using assms(2) by fastforce
qed

lemma validated_ends:
  assumes "apart (st_pending st)" and "validate_pending_final_offset st inc = Ok ()" and "in_fin_offset inc = Some f"
  shows "in_remaining_end inc \<le> f" and "p \<in> cover (st_pending st) \<Longrightarrow> p < f"
proof -
  show "in_remaining_end inc \<le> f"
    using assms(2,3) by (auto simp: validate_pending_final_offset_def split: if_splits)
  assume "p \<in> cover (st_pending st)"
  then obtain s e where p: "(s, e) \<in> set (st_pending st)" "p < e"
    by (auto simp: mem_cover)
  obtain m s' e' where m: "st_pending st = m @ [(s', e')]"
    using p(1) by (metis in_set_conv_decomp list.distinct(1) rev_exhaust surj_pair append_is_Nil_conv)
  then have "bt_last (st_pending st) = Some (s', e')"
    by (cases m) (simp_all add: bt_last_def)
  then have "e' \<le> f"
    using assms(2,3) by (auto simp: validate_pending_final_offset_def split: if_splits)
  moreover have "e \<le> e'"
    using assms(1) p(1) by (fastforce simp: m apart_append apart_Cons)
  ultimately show "p < f"
    using p(2) by simp
qed

lemma committed_effect:
  assumes fl: "flow_ok limits st" and room: "st_next_offset st + max_bytes_per_flow limits \<le> usize_max"
    and pp: "planned_push alloc limits st bb bm seg plan inc out pend kept capacity"
    and c: "committed st now inc out pend kept capacity st'"
  shows "push_effect st (in_offset inc) (in_payload inc) st' out"
    and "retained_bytes st' = Some (card (cover pend) + kept)"
    and "\<not> pp_closed plan \<Longrightarrow> flow_memory_charge st'
      = Some (card (pages_of (cover pend)) * PAGE_CHARGE + length pend * 64 + capacity + 256)"
    and "\<not> pp_closed plan \<Longrightarrow> flow_ok limits st'"
proof -
  let ?C = "cover (st_pending st)" and ?a = "in_offset inc" and ?b = "in_offset inc + length (in_payload inc)"
  let ?n = "st_next_offset st + length out" and ?M = "max_bytes_per_flow limits"
  have ok: "pages_ok (st_pages st) ?C"
    using fl by (simp add: flow_ok_def pages_exact_def)
  obtain merge where sound: "merge_sound alloc st ?a (in_payload inc) (in_payload_start inc) merge out pend"
    using pp unfolding planned_push_def Let_def by blast
  then have run: "run (first_wins (held st) ?a (in_payload inc)) (st_next_offset st) out" and ap: "apart pend"
    and cov: "cover pend = ?C \<union> {?a..<?b} - {..<?n}"
    unfolding merge_sound_def by blast+
  have pb: "card (cover pend) + length out \<le> ?M"
    and kept: "kept \<le> ?M - card (cover pend)" and segs: "length pend \<le> max_segments_per_flow limits" and cap: "capacity \<le> ?M"
    and val: "validate_pending_final_offset st inc = Ok ()" and closed: "pp_closed plan = closes st seg inc ?n"
    and pl: "placed limits st seg inc"
    using pp unfolding planned_push_def Let_def by auto
  have mc: "card (pages_of (cover pend)) * PAGE_CHARGE + length pend * 64 + capacity + 256 \<le> usize_max" if "\<not> pp_closed plan"
  proof -
    have "bm + (card (pages_of (cover pend)) * PAGE_CHARGE + length pend * 64 + capacity)
        + (if pp_closed plan then 0 else 256) \<le> usize_max"
      using pp unfolding planned_push_def Let_def by blast
    then show ?thesis
      using that by simp
  qed
  have sum: "card (cover pend) + kept \<le> ?M"
    using pb kept by simp
  have held': "held st' = (\<lambda>p. if p < ?n then None else first_wins (held st) ?a (in_payload inc) p)"
  proof
    fix p
    show "held st' p = (if p < ?n then None else first_wins (held st) ?a (in_payload inc) p)"
      using c first_wins_none [OF ok, of ?a "in_payload inc" p] cov by (auto simp: held_def committed_def)
  qed
  show "push_effect st ?a (in_payload inc) st' out"
    using run held' c by (simp add: push_effect_def committed_def)
  show "retained_bytes st' = Some (card (cover pend) + kept)"
    using c sum room by (simp add: retained_bytes_def committed_def checked_add_def)
  assume live: "\<not> pp_closed plan"
  show "flow_memory_charge st'
      = Some (card (pages_of (cover pend)) * PAGE_CHARGE + length pend * 64 + capacity + 256)"
    using mc [OF live] c pages_exact_count by (auto simp: flow_memory_charge_iff committed_def)
  have bound: "e \<le> x" if "(s, e) \<in> set pend" and "?b \<le> x" and "\<And>p. p \<in> ?C \<Longrightarrow> p < x" for s e x
    using that cov by (intro apart_ends [OF ap]) auto
  have old: "p < st_next_offset st + ?M" if "p \<in> ?C" for p
    using fl that by (fastforce simp: flow_ok_def mem_cover)
  have low: "?n < s" and high: "e \<le> ?n + ?M" if iv: "(s, e) \<in> set pend" for s e
  proof -
    have "s < e"
      using ap iv by (auto simp: apart_def)
    then have "s \<in> cover pend"
      using iv by (auto simp: mem_cover)
    moreover have "?n \<notin> cover pend"
      using run first_wins_none [OF ok, of ?a "in_payload inc" ?n] unfolding cov run_def by blast
    ultimately show "?n < s"
      unfolding cov by (metis Diff_iff lessThan_iff nat_neq_iff)
    show "e \<le> ?n + ?M"
      using placed_window(2) [OF pl] by (intro bound [OF iv]) (simp, force dest: old)
  qed
  have final: "?n < f \<and> (\<forall>(s, e)\<in>set pend. e \<le> f)" if f: "st_fin_offset st' = Some f" for f
  proof -
    have "?n < f"
      using f c live closed by (auto simp: committed_def closes_def split: option.splits)
    moreover have "?b \<le> f \<and> (\<forall>p\<in>?C. p < f)"
    proof (cases "st_fin_offset st")
      case None
      then have "in_fin_offset inc = Some f"
        using f c by (simp add: committed_def)
      then show ?thesis
        using validated_ends [OF _ val] fl pl by (auto simp: flow_ok_def placed_def)
    next
      case (Some f')
      then have "f' = f"
        using f c by (simp add: committed_def)
      then show ?thesis
        using Some fl pl by (fastforce simp: flow_ok_def placed_def mem_cover)
    qed
    ultimately show ?thesis
      using bound by blast
  qed
  show "flow_ok limits st'"
    using c low high final ap sum segs cap unfolding flow_ok_def committed_def by auto
qed

end
