(* ===== verification/Tcp_Reach.thy ===== *)
theory Tcp_Reach
  imports Tcp_Refine
begin

text \<open>
  The TCP reassembler as a state machine. The invariant of the flow table (every flow well formed,
  the shared aggregates exactly the sums over the flows and within their limits, the expiry index a
  mirror of the deadlines) holds in every reachable state; a push does not panic and does to one flow
  what \<open>Tcp_Refine\<close> says.
\<close>

section \<open>Plans do not read the clock fields\<close>

abbreviation at_time :: "tcp_flow_state \<Rightarrow> instant \<Rightarrow> instant option \<Rightarrow> tcp_flow_state" where
  "at_time st u d \<equiv> st\<lparr>st_last_update := u, st_deadline := d\<rparr>"

lemma clock_sel:
  "st_base_sequence (at_time st u d) = st_base_sequence st" "st_next_offset (at_time st u d) = st_next_offset st"
  "st_history_start (at_time st u d) = st_history_start st" "st_history (at_time st u d) = st_history st"
  "st_pending (at_time st u d) = st_pending st" "st_pages (at_time st u d) = st_pages st"
  "st_pending_bytes (at_time st u d) = st_pending_bytes st" "st_fin_offset (at_time st u d) = st_fin_offset st"
  by simp_all

lemma normalize_payload_clock: "normalize_payload limits (at_time st u d) seg = normalize_payload limits st seg"
  unfolding normalize_payload_def absolute_position_def validate_sequence_bounds_def emitted_history_conflicts_def clock_sel
  by (rule refl)

lemma record_intervals_clock: "record_intervals (at_time st u d) a pl b ivs = record_intervals st a pl b ivs"
proof (induction ivs)
  case (Cons iv ivs)
  have "record_interval (at_time st u d) a pl b iv = record_interval st a pl b iv"
    unfolding record_interval_def fun_eq_iff clock_sel by blast
  with Cons.IH show ?case
    by (intro ext) simp
qed (simp add: fun_eq_iff)

lemma plan_merge_and_accounting_clock:
  "plan_merge_and_accounting limits (at_time st u d) bb bm seg inc = plan_merge_and_accounting limits st bb bm seg inc"
proof -
  have "plan_push_accounting \<lparr>ai_limits = limits, ai_state = at_time st u d, ai_pending_bytes = a, ai_storage_bytes = b,
          ai_emitted_segment_bytes = c, ai_segment_count = e, ai_aggregate_base_bytes = f,
          ai_aggregate_base_memory_charge = g, ai_retains_flow_state = h\<rparr> =
      plan_push_accounting \<lparr>ai_limits = limits, ai_state = st, ai_pending_bytes = a, ai_storage_bytes = b,
          ai_emitted_segment_bytes = c, ai_segment_count = e, ai_aggregate_base_bytes = f,
          ai_aggregate_base_memory_charge = g, ai_retains_flow_state = h\<rparr>" for a b c e f g h
    unfolding plan_push_accounting_def push_accounting_input.select_convs Let_def clock_sel by (rule refl)
  note same = this
  show ?thesis
    unfolding plan_merge_and_accounting_def plan_pending_merge_def record_intervals_clock same
        validate_pending_final_offset_def clock_sel by (rule refl)
qed

lemma plan_push_clock: "plan_push alloc limits (at_time st u d) bb bm tm seg = plan_push alloc limits st bb bm tm seg"
proof -
  have "materialize_pending_merge alloc (at_time st u d) = materialize_pending_merge alloc st"
    "prepare_emitted_history alloc (at_time st u d) = prepare_emitted_history alloc st"
    "transient_peak limits (at_time st u d) = transient_peak limits st"
    unfolding fun_eq_iff materialize_pending_merge_def prepare_emitted_history_def transient_peak_def clock_sel by blast+
  note same = this
  show ?thesis
    unfolding plan_push_def normalize_payload_clock plan_merge_and_accounting_clock same by (rule refl)
qed

section \<open>One push on one flow\<close>

definition retained :: "tcp_flow_state \<Rightarrow> nat" where
  "retained st = h_len (st_history st) + st_pending_bytes st"

definition charge :: "tcp_flow_state \<Rightarrow> nat" where
  "charge st = length (st_pages st) * PAGE_CHARGE + length (st_pending st) * 64 + history_capacity (st_history st) + 256"

lemma retained_bytes_iff: "retained_bytes st = Some n \<longleftrightarrow> n = retained st \<and> n \<le> usize_max"
  by (auto simp: retained_bytes_def retained_def checked_iff)

lemma flow_memory_charge_charge: "flow_memory_charge st = Some n \<longleftrightarrow> n = charge st \<and> n \<le> usize_max"
  by (auto simp: flow_memory_charge_iff charge_def)

text \<open>
  \<open>flow_step limits st now seg st' out inc ranges closed\<close>: the segment is placed at \<open>inc\<close>, the
  abstract push delivers \<open>out\<close>, and the flow that remains remembers the end of the stream.
\<close>

definition flow_step ::
  "tcp_limits \<Rightarrow> tcp_flow_state \<Rightarrow> instant \<Rightarrow> segment \<Rightarrow> tcp_flow_state \<Rightarrow> bytes \<Rightarrow> incoming_payload
     \<Rightarrow> (u32 \<times> u32) list \<Rightarrow> bool \<Rightarrow> bool" where
  "flow_step limits st now seg st' out inc ranges closed \<longleftrightarrow>
     placed limits st seg inc \<and> reported_ranges st inc ranges
     \<and> push_effect st (in_offset inc) (in_payload inc) st' out
     \<and> st_base_sequence st' = st_base_sequence st \<and> st_deadline st' = st_deadline st
     \<and> st_last_update st' = max (st_last_update st) now
     \<and> st_fin_offset st' = (case st_fin_offset st of None \<Rightarrow> in_fin_offset inc | Some f \<Rightarrow> Some f)
     \<and> history_contents (st_history st') = drop (h_len (st_history st) + length out - h_len (st_history st'))
         (history_contents (st_history st) @ out)
     \<and> (closed \<longleftrightarrow> closes st seg inc (st_next_offset st'))
     \<and> st_next_offset st' + st_pending_bytes st' \<le> st_next_offset st + st_pending_bytes st + length (seg_payload seg)
     \<and> (\<not> closed \<longrightarrow> flow_ok limits st')"

lemma flow_push_ok:
  assumes fl: "flow_ok limits st" and room: "st_next_offset st + max_bytes_per_flow limits + PAGE_BYTES \<le> usize_max"
    and plan: "plan_push alloc limits st bb bm tm seg = Ok plan"
    and direct: "direct = Option.bind (pp_direct_payload plan) (\<lambda>(x, y). checked_slice (seg_payload seg) x y)"
  obtains st' out inc ranges where
    "commit_flow_push st fkey now (max_bytes_per_flow limits) plan direct (seg_payload seg)
       = Ok (st', report fkey st inc ranges @ data_event fkey st out)"
    and "flow_step limits st now seg st' out inc ranges (pp_closed plan)"
    and "bb + retained st' \<le> max_aggregate_bytes limits"
    and "\<not> pp_closed plan \<longrightarrow> bm + charge st' \<le> max_aggregate_bytes limits \<and> bm + charge st' \<le> usize_max"
    and "pp_aggregate_bytes plan = (if pp_closed plan then bb else bb + retained st')"
    and "pp_aggregate_memory_charge plan = (if pp_closed plan then bm else bm + charge st')"
proof -
  obtain inc out pend kept capacity where pp: "planned_push alloc limits st bb bm seg plan inc out pend kept capacity"
    using plan_push_planned(2) [OF fl room plan] by blast
  have room': "st_next_offset st + max_bytes_per_flow limits \<le> usize_max"
    using room by simp
  obtain st' ranges where commit: "commit_flow_push st fkey now (max_bytes_per_flow limits) plan direct (seg_payload seg)
       = Ok (st', report fkey st inc ranges @ data_event fkey st out)" and rr: "reported_ranges st inc ranges"
    and c: "committed st now inc out pend kept capacity st'"
    using commit_flow_push_ok [OF fl room' pp direct] by metis
  note eff = committed_effect [OF fl room' pp c]
  have pl: "placed limits st seg inc" and cl: "pp_closed plan = closes st seg inc (st_next_offset st + length out)"
    and bounds: "bb + (card (cover pend) + kept) \<le> max_aggregate_bytes limits"
      "pp_aggregate_bytes plan = (if pp_closed plan then bb else bb + (card (cover pend) + kept))"
    using pp unfolding planned_push_def Let_def by blast+
  define mc where "mc = card (pages_of (cover pend)) * PAGE_CHARGE + length pend * 64 + capacity"
  have mem: "bm + mc + (if pp_closed plan then 0 else 256) \<le> max_aggregate_bytes limits"
    "bm + mc + (if pp_closed plan then 0 else 256) \<le> usize_max"
    "pp_aggregate_memory_charge plan = (if pp_closed plan then bm else bm + mc + 256)"
    using pp unfolding planned_push_def Let_def mc_def by blast+
  obtain merge where sound: "merge_sound alloc st (in_offset inc) (in_payload inc) (in_payload_start inc) merge out pend"
    using pp unfolding planned_push_def Let_def by blast
  have "mp_added_bytes merge \<le> length (in_payload inc)"
    using sound card_mono [of "{in_offset inc..<in_offset inc + length (in_payload inc)}"]
    by (fastforce simp: merge_sound_def)
  moreover have "length (in_payload inc) \<le> length (seg_payload seg)"
    using pl by (simp add: placed_def)
  ultimately have grow: "st_next_offset st' + st_pending_bytes st'
      \<le> st_next_offset st + st_pending_bytes st + length (seg_payload seg)"
    using merge_sound_card [OF fl placed_window(1) [OF pl] sound] c by (simp add: committed_def)
  have ret: "retained st' = card (cover pend) + kept"
    using eff(2) by (simp add: retained_bytes_iff)
  have chg: "charge st' = mc + 256" if "\<not> pp_closed plan"
    using eff(3) [OF that] by (simp add: flow_memory_charge_charge mc_def)
  have "flow_step limits st now seg st' out inc ranges (pp_closed plan)"
    using pl rr eff(1,4) c cl grow by (simp add: flow_step_def committed_def)
  moreover have "\<not> pp_closed plan \<longrightarrow> bm + charge st' \<le> max_aggregate_bytes limits \<and> bm + charge st' \<le> usize_max"
    using mem(1,2) chg by (cases "pp_closed plan") simp_all
  ultimately show thesis
    using commit bounds mem(3) by (intro that [of st' inc ranges out]) (simp_all add: ret chg)
qed

section \<open>The flow table\<close>

text \<open>\<open>n\<close> bounds the payload bytes pushed so far; offsets stay far from \<open>2\<^sup>6\<^sup>4\<close> as long as \<open>n\<close> does.\<close>

definition table_core :: "tcp_limits \<Rightarrow> nat \<Rightarrow> reassembler \<Rightarrow> bool" where
  "table_core limits n r \<longleftrightarrow>
     tr_limits r = limits \<and> btree_ok (tr_flows r)
     \<and> (\<forall>k st. bt_get (tr_flows r) k = Some st \<longrightarrow> flow_ok limits st \<and> st_next_offset st + st_pending_bytes st \<le> n)
     \<and> tr_aggregate_bytes r = map_total retained (bt_get (tr_flows r))
     \<and> tr_aggregate_memory_charge r = map_total charge (bt_get (tr_flows r))
     \<and> tr_aggregate_bytes r \<le> max_aggregate_bytes limits
     \<and> tr_aggregate_memory_charge r \<le> max_aggregate_bytes limits
     \<and> tr_aggregate_memory_charge r \<le> usize_max
     \<and> length (tr_flows r) \<le> max_flows limits"

definition table_ok :: "tcp_limits \<Rightarrow> nat \<Rightarrow> reassembler \<Rightarrow> bool" where
  "table_ok limits n r \<longleftrightarrow> table_core limits n r \<and> btree_ok (tr_expiry r)
     \<and> mirrors (expiry_entries (tr_expiry r)) (bt_get (tr_flows r)) st_deadline"

lemmas table_ok_defs = table_ok_def table_core_def

lemma total_split:
  assumes "btree_ok m"
  shows "map_total f (bt_get m) = map_total f ((bt_get m)(k := None)) + (case bt_get m k of None \<Rightarrow> 0 | Some v \<Rightarrow> f v)"
  using btree.total_del [OF assms, of f k] by (simp add: btree.get_del [OF assms])

lemma total_update:
  assumes "btree_ok m"
  shows "map_total f ((bt_get m)(k \<mapsto> v)) = map_total f ((bt_get m)(k := None)) + f v"
  using btree.total_put [OF assms, of f k v] by (simp add: btree.get_put [OF assms] btree.get_del [OF assms])

lemma flow_ok_clock [simp]: "flow_ok limits (st\<lparr>st_deadline := d\<rparr>) \<longleftrightarrow> flow_ok limits st"
  by (simp add: flow_ok_def history_tracks_def)

lemma aggregates_without_ok:
  assumes ok: "table_ok limits n r" and M: "max_bytes_per_flow limits \<le> usize_max"
  shows "aggregates_without r (bt_get (tr_flows r) k)
    = Ok (map_total retained ((bt_get (tr_flows r))(k := None)), map_total charge ((bt_get (tr_flows r))(k := None)))"
proof -
  have bt: "btree_ok (tr_flows r)"
    and tot: "tr_aggregate_bytes r = map_total retained (bt_get (tr_flows r))"
      "tr_aggregate_memory_charge r = map_total charge (bt_get (tr_flows r))" "tr_aggregate_memory_charge r \<le> usize_max"
    using ok by (simp_all add: table_ok_defs)
  note split = total_split [OF bt, of retained k] total_split [OF bt, of charge k]
  show ?thesis
  proof (cases "bt_get (tr_flows r) k")
    case None
    then show ?thesis
      using split tot by (simp add: aggregates_without_def checked_sub_def)
  next
    case (Some st)
    then have "flow_ok limits st"
      using ok by (simp add: table_ok_defs)
    then have "retained st \<le> usize_max"
      using M by (simp add: flow_ok_def retained_def)
    then have "retained_bytes st = Some (retained st)" "flow_memory_charge st = Some (charge st)"
      using split tot Some by (simp_all add: retained_bytes_iff flow_memory_charge_charge)
    then show ?thesis
      using split tot Some by (simp add: aggregates_without_def checked_sub_def)
  qed
qed

lemma table_ok_flow:
  assumes "table_ok limits n r" and "bt_get (tr_flows r) k = Some st" and "n \<le> n'"
  shows "flow_ok limits st" and "st_next_offset st + st_pending_bytes st \<le> n'"
proof -
  have "flow_ok limits st \<and> st_next_offset st + st_pending_bytes st \<le> n"
    using assms(1,2) unfolding table_ok_defs by blast
  then show "flow_ok limits st" "st_next_offset st + st_pending_bytes st \<le> n'"
    using assms(3) by auto
qed

text \<open>The two ways a push leaves the table: a flow is stored, or it is closed and dropped.\<close>

lemma table_ok_store:
  assumes ok: "table_ok limits n r" and n: "n \<le> n'"
    and s: "flow_ok limits s" "st_next_offset s + st_pending_bytes s \<le> n'"
    and F: "btree_ok F" "bt_get F = (bt_get (tr_flows r))(k \<mapsto> s)"
    and E: "E = (if d \<noteq> st_deadline s then expiry_insert (st_deadline s) k (expiry_remove d k (tr_expiry r)) else tr_expiry r)"
      "d = Option.bind (bt_get (tr_flows r) k) st_deadline"
    and agg: "ab = map_total retained ((bt_get (tr_flows r))(k := None)) + retained s" "ab \<le> max_aggregate_bytes limits"
      "am = map_total charge ((bt_get (tr_flows r))(k := None)) + charge s" "am \<le> max_aggregate_bytes limits" "am \<le> usize_max"
    and count: "bt_get (tr_flows r) k = None \<Longrightarrow> length (tr_flows r) < max_flows limits"
  shows "table_ok limits n' (r\<lparr>tr_flows := F, tr_expiry := E, tr_aggregate_bytes := ab, tr_aggregate_memory_charge := am\<rparr>)"
proof -
  have bt: "btree_ok (tr_flows r)" "btree_ok (tr_expiry r)"
    and mi: "mirrors (expiry_entries (tr_expiry r)) (bt_get (tr_flows r)) st_deadline"
    using ok by (simp_all add: table_ok_defs)
  have "mirrors (expiry_entries E) (bt_get F) st_deadline"
    unfolding F(2) E(1) using expiry.mirrors_store [OF bt(2) mi E(2)] expiry.mirrors_store_same [OF mi] E(2) by simp
  moreover have "btree_ok E"
    unfolding E(1) using bt(2) by (simp add: expiry.ok_insert expiry.ok_remove)
  moreover have "length F \<le> max_flows limits"
  proof -
    have "length F = card (dom (bt_get F))" "length (tr_flows r) = card (dom (bt_get (tr_flows r)))"
      using F(1) bt(1) by (simp_all add: btree.count_dom)
    then show ?thesis
      using ok count btree.finite_dom [of "tr_flows r"] by (cases "bt_get (tr_flows r) k")
        (auto simp: F(2) table_ok_defs card_insert_if domIff insert_absorb)
  qed
  moreover have "flow_ok limits t \<and> st_next_offset t + st_pending_bytes t \<le> n'" if "bt_get F j = Some t" for j t
    using that table_ok_flow [OF ok _ n, of j t] s by (simp add: F(2) split: if_splits)
  ultimately show ?thesis
    using ok F(1) agg total_update [OF bt(1)] unfolding table_ok_defs by (simp add: F(2))
qed

lemma table_ok_drop:
  assumes ok: "table_ok limits n r" and n: "n \<le> n'"
    and F: "btree_ok F" "bt_get F = (bt_get (tr_flows r))(k := None)"
    and E: "E = expiry_remove d k (tr_expiry r)" "d = Option.bind (bt_get (tr_flows r) k) st_deadline"
    and agg: "ab = map_total retained ((bt_get (tr_flows r))(k := None))" "am = map_total charge ((bt_get (tr_flows r))(k := None))"
  shows "table_ok limits n' (r\<lparr>tr_flows := F, tr_expiry := E, tr_aggregate_bytes := ab, tr_aggregate_memory_charge := am\<rparr>)"
proof -
  have bt: "btree_ok (tr_flows r)" "btree_ok (tr_expiry r)"
    and mi: "mirrors (expiry_entries (tr_expiry r)) (bt_get (tr_flows r)) st_deadline"
    using ok by (simp_all add: table_ok_defs)
  have "length F = card (dom (bt_get F))" "length (tr_flows r) = card (dom (bt_get (tr_flows r)))"
    using F(1) bt(1) by (simp_all add: btree.count_dom)
  then have "length F \<le> length (tr_flows r)"
    using btree.finite_dom [of "tr_flows r"] by (simp add: F(2) card_Diff1_le)
  moreover have "mirrors (expiry_entries E) (bt_get F) st_deadline"
    unfolding F(2) E(1) by (rule expiry.mirrors_drop [OF bt(2) mi E(2)])
  moreover have "btree_ok E"
    unfolding E(1) using bt(2) by (rule expiry.ok_remove)
  moreover have "flow_ok limits t \<and> st_next_offset t + st_pending_bytes t \<le> n'" if "bt_get F j = Some t" for j t
    using that table_ok_flow [OF ok _ n, of j t] by (simp add: F(2) split: if_splits)
  ultimately show ?thesis
    using ok F(1) agg total_split [OF bt(1), of retained k] total_split [OF bt(1), of charge k] unfolding table_ok_defs
    by (simp add: F(2))
qed

section \<open>A push on the table\<close>

definition first_payload_sequence :: "segment \<Rightarrow> u32" where
  "first_payload_sequence seg = seg_sequence seg + (if seg_syn seg then 1 else 0)"

definition new_generation :: "reassembler \<Rightarrow> segment \<Rightarrow> bool" where
  "new_generation r seg \<longleftrightarrow> (case bt_get (tr_flows r) (seg_flow seg) of
     None \<Rightarrow> True | Some st \<Rightarrow> seg_syn seg \<and> st_base_sequence st \<noteq> first_payload_sequence seg)"

definition push_time :: "reassembler \<Rightarrow> segment \<Rightarrow> instant \<Rightarrow> instant" where
  "push_time r seg now =
     (case bt_get (tr_flows r) (seg_flow seg) of None \<Rightarrow> now | Some st \<Rightarrow> max (st_last_update st) now)"

definition push_deadline :: "reassembler \<Rightarrow> segment \<Rightarrow> instant \<Rightarrow> instant option" where
  "push_deadline r seg now = instant_checked_add (push_time r seg now) (idle_expiry (tr_limits r))"

text \<open>The flow a push works on: the stored one, or an empty one when the segment starts a generation.\<close>

definition flow_before :: "reassembler \<Rightarrow> segment \<Rightarrow> instant \<Rightarrow> tcp_flow_state" where
  "flow_before r seg now =
     (if new_generation r seg
      then tcp_flow_new (first_payload_sequence seg) (push_time r seg now) (push_deadline r seg now)
      else the (bt_get (tr_flows r) (seg_flow seg)))"

definition ignored :: "reassembler \<Rightarrow> segment \<Rightarrow> bool" where
  "ignored r seg \<longleftrightarrow> seg_payload seg = [] \<and> \<not> seg_syn seg \<and> \<not> seg_fin seg \<and> \<not> seg_rst seg
     \<and> bt_get (tr_flows r) (seg_flow seg) = None"

lemma tcp_push_eq:
  "tcp_push alloc seg now r =
    (if ignored r seg then Ok (r, [])
     else let_ok (ensure (\<not> (new_generation r seg
            \<and> saturating_sub (length (tr_flows r)) (if bt_get (tr_flows r) (seg_flow seg) = None then 0 else 1)
               \<ge> max_flows (tr_limits r))) (TcpResource (FlowLimit (max_flows (tr_limits r))))) (\<lambda>_.
       let_ok (aggregates_without r (bt_get (tr_flows r) (seg_flow seg))) (\<lambda>(bb, bm).
       let_ok (plan_push alloc (tr_limits r) (flow_before r seg now) bb bm (tr_aggregate_memory_charge r) seg) (\<lambda>plan.
       commit_push r seg now (new_generation r seg) plan))))"
proof -
  have gen: "((seg_syn seg \<or> bt_get (tr_flows r) (seg_flow seg) = None)
      \<and> (case bt_get (tr_flows r) (seg_flow seg) of None \<Rightarrow> True
         | Some st \<Rightarrow> st_base_sequence st \<noteq> seg_sequence seg + (if seg_syn seg then 1 else 0))) = new_generation r seg"
    by (auto simp: new_generation_def first_payload_sequence_def split: option.split)
  have "tcp_flow_new s now d = at_time (tcp_flow_new s u d') now d" for s d u d'
    by (simp add: tcp_flow_new_def)
  then have "let_ok (if new_generation r seg
          then Ok (tcp_flow_new (first_payload_sequence seg) now (instant_checked_add now (idle_expiry (tr_limits r))))
          else expect (bt_get (tr_flows r) (seg_flow seg)))
        (\<lambda>st. let_ok (plan_push alloc (tr_limits r) st bb bm tm seg) f)
      = let_ok (plan_push alloc (tr_limits r) (flow_before r seg now) bb bm tm seg) f" for bb bm tm
    and f :: "push_plan \<Rightarrow> (tcp_error, reassembler \<times> event list) outcome"
    by (cases "new_generation r seg"; cases "bt_get (tr_flows r) (seg_flow seg)")
      (simp_all add: flow_before_def plan_push_clock new_generation_def, (metis plan_push_clock)+)
  note state = this
  show ?thesis
    unfolding tcp_push_def Let_def gen ignored_def [symmetric] state
    unfolding first_payload_sequence_def [symmetric] state by (rule refl)
qed

text \<open>What an accepted push does: its events, the flow it leaves, and that it leaves the others alone.\<close>

definition pushed ::
  "tcp_limits \<Rightarrow> reassembler \<Rightarrow> instant \<Rightarrow> segment \<Rightarrow> reassembler \<Rightarrow> event list \<Rightarrow> tcp_flow_state \<Rightarrow> bytes \<Rightarrow> bool" where
  "pushed limits r now seg r' events st' out \<longleftrightarrow>
     (\<exists>inc ranges closed.
        flow_step limits (flow_before r seg now) now seg st' out inc ranges closed
        \<and> events = report (seg_flow seg) (flow_before r seg now) inc ranges @ data_event (seg_flow seg) (flow_before r seg now) out
            @ (if closed then [Closed (seg_flow seg) (seg_rst seg)] else [])
        \<and> bt_get (tr_flows r') = (bt_get (tr_flows r))(seg_flow seg :=
            if closed then None else Some (st'\<lparr>st_deadline := push_deadline r seg now\<rparr>)))"

lemma flow_before_ok:
  assumes ok: "table_ok limits n r"
  shows "flow_ok limits (flow_before r seg now)"
    and "st_next_offset (flow_before r seg now) + st_pending_bytes (flow_before r seg now) \<le> n"
proof -
  have "flow_ok limits (flow_before r seg now) \<and> st_next_offset (flow_before r seg now)
      + st_pending_bytes (flow_before r seg now) \<le> n"
  proof (cases "new_generation r seg")
    case True
    then show ?thesis
      using flow_ok_new by (simp add: flow_before_def) (simp add: tcp_flow_new_def)
  next
    case False
    then show ?thesis
      using table_ok_flow [OF ok, of "seg_flow seg" _ n] by (auto simp: flow_before_def new_generation_def split: option.splits)
  qed
  then show "flow_ok limits (flow_before r seg now)"
    "st_next_offset (flow_before r seg now) + st_pending_bytes (flow_before r seg now) \<le> n"
    by blast+
qed

lemma commit_push_ok:
  assumes ok: "table_ok limits n r" and room: "n + max_bytes_per_flow limits + PAGE_BYTES \<le> usize_max"
    and few: "new_generation r seg \<Longrightarrow>
      length (tr_flows r) - (if bt_get (tr_flows r) (seg_flow seg) = None then 0 else 1) < max_flows limits"
    and plan: "plan_push alloc limits (flow_before r seg now) (map_total retained ((bt_get (tr_flows r))(seg_flow seg := None)))
        (map_total charge ((bt_get (tr_flows r))(seg_flow seg := None))) tm seg = Ok plan"
  obtains r' events st' out where "commit_push r seg now (new_generation r seg) plan = Ok (r', events)"
    and "pushed limits r now seg r' events st' out" and "table_ok limits (n + length (seg_payload seg)) r'"
proof -
  define k where "k = seg_flow seg"
  define st where "st = flow_before r seg now"
  define dl where "dl = push_deadline r seg now"
  define bb where "bb = map_total retained ((bt_get (tr_flows r))(k := None))"
  define bm where "bm = map_total charge ((bt_get (tr_flows r))(k := None))"
  define direct where "direct = Option.bind (pp_direct_payload plan) (\<lambda>(x, y). checked_slice (seg_payload seg) x y)"
  define d where "d = Option.bind (bt_get (tr_flows r) k) st_deadline"
  note fb = flow_before_ok [OF ok, of seg now, folded st_def]
  have room': "st_next_offset st + max_bytes_per_flow limits + PAGE_BYTES \<le> usize_max"
    using fb(2) room by simp
  have L: "tr_limits r = limits" and bt: "btree_ok (tr_flows r)"
    using ok by (simp_all add: table_ok_defs)
  obtain st' out inc ranges where commit:
    "commit_flow_push st k now (max_bytes_per_flow limits) plan direct (seg_payload seg)
       = Ok (st', report k st inc ranges @ data_event k st out)"
    and step: "flow_step limits st now seg st' out inc ranges (pp_closed plan)"
    and agg: "bb + retained st' \<le> max_aggregate_bytes limits"
      "\<not> pp_closed plan \<longrightarrow> bm + charge st' \<le> max_aggregate_bytes limits \<and> bm + charge st' \<le> usize_max"
      "pp_aggregate_bytes plan = (if pp_closed plan then bb else bb + retained st')"
      "pp_aggregate_memory_charge plan = (if pp_closed plan then bm else bm + charge st')"
    by (rule flow_push_ok [OF fb(1) room' plan [folded st_def k_def, folded bb_def bm_def] direct_def]) (rule that)
  let ?s = "st'\<lparr>st_deadline := dl\<rparr>"
  define F where "F = (if pp_closed plan then bt_remove k (if new_generation r seg then tr_flows r else bt_insert k ?s (tr_flows r))
     else bt_insert k ?s (tr_flows r))"
  define E where "E = (if pp_closed plan then expiry_remove d k (tr_expiry r)
     else if d \<noteq> dl then expiry_insert dl k (expiry_remove d k (tr_expiry r)) else tr_expiry r)"
  define r' where "r' = r\<lparr>tr_flows := F, tr_expiry := E, tr_aggregate_bytes := pp_aggregate_bytes plan,
     tr_aggregate_memory_charge := pp_aggregate_memory_charge plan\<rparr>"
  define events where "events = report k st inc ranges @ data_event k st out
     @ (if pp_closed plan then [Closed k (seg_rst seg)] else [])"
  have F: "btree_ok F" "bt_get F = (bt_get (tr_flows r))(k := if pp_closed plan then None else Some ?s)"
    using bt by (auto simp: F_def btree.map_laws)
  have pt: "(case bt_get (tr_flows r) k of None \<Rightarrow> now | Some st \<Rightarrow> max (st_last_update st) now) = push_time r seg now"
    "instant_checked_add (push_time r seg now) (idle_expiry limits) = dl"
    by (simp_all add: push_time_def push_deadline_def dl_def k_def L)
  have commit': "commit_push r seg now (new_generation r seg) plan = Ok (r', events)"
  proof (cases "new_generation r seg")
    case True
    then have new: "tcp_flow_new (first_payload_sequence seg) (push_time r seg now) dl = st"
      by (simp add: st_def dl_def flow_before_def)
    have "st_deadline st' = dl"
      using step new by (simp add: flow_step_def tcp_flow_new_def) (metis tcp_flow_state.select_convs(10))
    then have "?s = st'"
      by simp
    then show ?thesis
      using True unfolding commit_push_def Let_def k_def [symmetric] direct_def [symmetric] L pt d_def [symmetric]
        first_payload_sequence_def [symmetric] new commit
      by (auto simp: r'_def F_def E_def events_def intro!: reassembler.equality)
  next
    case False
    then have "bt_get (tr_flows r) k = Some st"
      by (auto simp: new_generation_def st_def k_def flow_before_def split: option.splits)
    then have prev: "expect (bt_get (tr_flows r) k) = (Ok st :: (tcp_error, tcp_flow_state) outcome)"
      by simp
    show ?thesis
      using False unfolding commit_push_def Let_def k_def [symmetric] direct_def [symmetric] L pt d_def [symmetric] prev
      by (auto simp: commit r'_def F_def E_def events_def intro!: reassembler.equality)
  qed
  have "pushed limits r now seg r' events st' out"
    using step F(2) unfolding pushed_def st_def [symmetric] k_def [symmetric] events_def r'_def dl_def [symmetric] by fastforce
  moreover have "table_ok limits (n + length (seg_payload seg)) r'"
  proof (cases "pp_closed plan")
    case True
    then show ?thesis
      unfolding r'_def using F agg(3,4)
      by (intro table_ok_drop [OF ok _ F(1), where k = k]) (simp_all add: E_def d_def bb_def bm_def)
  next
    case False
    have grow: "st_next_offset ?s + st_pending_bytes ?s \<le> n + length (seg_payload seg)" "flow_ok limits ?s"
      using step fb(2) False by (simp_all add: flow_step_def)
    have same: "retained ?s = retained st'" "charge ?s = charge st'"
      by (simp_all add: retained_def charge_def)
    have room_left: "length (tr_flows r) < max_flows limits" if "bt_get (tr_flows r) k = None"
      using few that by (simp add: new_generation_def k_def)
    show ?thesis
      unfolding r'_def
      by (rule table_ok_store [OF ok _ grow(2,1), where k = k and d = d])
        (use F False agg room_left in \<open>simp_all add: E_def d_def same bb_def bm_def\<close>)
  qed
  ultimately show thesis
    by (rule that [OF commit'])
qed

text \<open>Pushing never panics, and an accepted push keeps the table.\<close>

lemma tcp_push_ok:
  assumes ok: "table_ok limits n r" and room: "n + max_bytes_per_flow limits + PAGE_BYTES \<le> usize_max"
  shows "tcp_push alloc seg now r \<noteq> Panic"
    and "tcp_push alloc seg now r = Ok (r', events) \<Longrightarrow> table_ok limits (n + length (seg_payload seg)) r'"
    and "tcp_push alloc seg now r = Ok (r', events) \<Longrightarrow> \<not> ignored r seg \<Longrightarrow>
      \<exists>st' out. pushed limits r now seg r' events st' out"
proof -
  let ?bb = "map_total retained ((bt_get (tr_flows r))(seg_flow seg := None))"
  let ?bm = "map_total charge ((bt_get (tr_flows r))(seg_flow seg := None))"
  have L: "tr_limits r = limits"
    using ok by (simp add: table_ok_defs)
  have agg: "aggregates_without r (bt_get (tr_flows r) (seg_flow seg)) = Ok (?bb, ?bm)"
    using room by (intro aggregates_without_ok [OF ok]) simp
  have room': "st_next_offset (flow_before r seg now) + max_bytes_per_flow limits + PAGE_BYTES \<le> usize_max"
    using flow_before_ok(2) [OF ok, of seg now] room by simp
  note nopanic = plan_push_planned(1) [OF flow_before_ok(1) [OF ok] room']
  have commit: "\<exists>r' events. commit_push r seg now (new_generation r seg) plan = Ok (r', events)
      \<and> (\<exists>st' out. pushed limits r now seg r' events st' out) \<and> table_ok limits (n + length (seg_payload seg)) r'"
    if "plan_push alloc limits (flow_before r seg now) ?bb ?bm (tr_aggregate_memory_charge r) seg = Ok plan"
      "\<not> (new_generation r seg
          \<and> saturating_sub (length (tr_flows r)) (if bt_get (tr_flows r) (seg_flow seg) = None then 0 else 1) \<ge> max_flows limits)"
    for plan
    using commit_push_ok [OF ok room _ that(1)] that(2) unfolding saturating_sub_def by (metis not_le)
  define plan where "plan = plan_push alloc limits (flow_before r seg now) ?bb ?bm (tr_aggregate_memory_charge r) seg"
  define full where "full \<longleftrightarrow> new_generation r seg
    \<and> saturating_sub (length (tr_flows r)) (if bt_get (tr_flows r) (seg_flow seg) = None then 0 else 1) \<ge> max_flows limits"
  have step: "tcp_push alloc seg now r = (if ignored r seg then Ok (r, [])
      else if full then Err (TcpResource (FlowLimit (max_flows limits)))
      else let_ok plan (commit_push r seg now (new_generation r seg)))"
    unfolding tcp_push_eq L agg full_def [symmetric] plan_def by simp
  consider "ignored r seg" "tcp_push alloc seg now r = Ok (r, [])" | e where "tcp_push alloc seg now r = Err e"
    | r1 ev where "\<not> ignored r seg" "tcp_push alloc seg now r = Ok (r1, ev)"
      "\<exists>st' out. pushed limits r now seg r1 ev st' out" "table_ok limits (n + length (seg_payload seg)) r1"
  proof (cases "ignored r seg \<or> full")
    case True
    then show thesis
      using that(1,2) step by (cases "ignored r seg") auto
  next
    case False
    then have push: "tcp_push alloc seg now r = let_ok plan (commit_push r seg now (new_generation r seg))"
      by (simp add: step)
    show thesis
    proof (cases plan)
      case (Ok p)
      then obtain r1 ev where "commit_push r seg now (new_generation r seg) p = Ok (r1, ev)"
        "\<exists>st' out. pushed limits r now seg r1 ev st' out" "table_ok limits (n + length (seg_payload seg)) r1"
        using commit [of p] False unfolding plan_def full_def by blast
      then show thesis
        using push Ok False that(3) by simp
    next
      case (Err e)
      then show thesis
        using push that(2) by simp
    next
      case Panic
      then show thesis
        using nopanic unfolding plan_def by simp
    qed
  qed
  note cases = this
  show "tcp_push alloc seg now r \<noteq> Panic"
    "tcp_push alloc seg now r = Ok (r', events) \<Longrightarrow> table_ok limits (n + length (seg_payload seg)) r'"
    "tcp_push alloc seg now r = Ok (r', events) \<Longrightarrow> \<not> ignored r seg \<Longrightarrow>
      \<exists>st' out. pushed limits r now seg r' events st' out"
    by (rule cases; use ok in \<open>simp add: ignored_def\<close>)+
qed

section \<open>Removing flows\<close>

text \<open>The farewell of a removed flow: the gap before its first pending byte, if any, and the eviction.\<close>

definition farewell :: "scoped_flow_key \<Rightarrow> tcp_flow_state \<Rightarrow> event list" where
  "farewell k st = (case st_pending st of [] \<Rightarrow> []
     | (s, _) # _ \<Rightarrow> [Gap k (st_base_sequence st + of_nat (st_next_offset st)) (st_base_sequence st + of_nat s)])
     @ [Evicted k (st_pending_bytes st)]"

definition entries_of :: "scoped_flow_key set \<Rightarrow> reassembler \<Rightarrow> (instant \<times> scoped_flow_key) set" where
  "entries_of ks r = {(t, k). k \<in> ks \<and> (\<exists>st. bt_get (tr_flows r) k = Some st \<and> st_deadline st = Some t)}"

lemma remove_flow_ok:
  assumes core: "table_core limits n r" and ix: "btree_ok (tr_expiry r)" and M: "max_bytes_per_flow limits \<le> usize_max"
  obtains r' where "remove_flow k (r, events) = (r', events @ (case bt_get (tr_flows r) k of None \<Rightarrow> [] | Some st \<Rightarrow> farewell k st))"
    and "table_core limits n r'" and "bt_get (tr_flows r') = (bt_get (tr_flows r))(k := None)"
    and "btree_ok (tr_expiry r')" and "expiry_entries (tr_expiry r') = expiry_entries (tr_expiry r) - entries_of {k} r"
proof (cases "bt_get (tr_flows r) k")
  case None
  then have "(bt_get (tr_flows r))(k := None) = bt_get (tr_flows r)" "entries_of {k} r = {}"
    by (auto simp: entries_of_def)
  then show thesis
    using None core ix by (intro that [of r]) (simp_all add: remove_flow_def)
next
  case (Some st)
  have bt: "btree_ok (tr_flows r)" and fl: "flow_ok limits st"
    and tot: "tr_aggregate_bytes r = map_total retained (bt_get (tr_flows r))"
      "tr_aggregate_memory_charge r = map_total charge (bt_get (tr_flows r))" "tr_aggregate_memory_charge r \<le> usize_max"
    using core Some unfolding table_core_def by blast+
  note split = total_split [OF bt, of retained k] total_split [OF bt, of charge k]
  have "retained_bytes st = Some (retained st)" "flow_memory_charge st = Some (charge st)"
    using split tot Some fl M by (simp_all add: retained_bytes_iff flow_memory_charge_charge flow_ok_def retained_def)
  note amounts = this
  have gap: "(case bt_first (st_pending st) of None \<Rightarrow> []
              | Some (s, _) \<Rightarrow> if s > st_next_offset st
                  then [Gap k (st_base_sequence st + of_nat (st_next_offset st)) (st_base_sequence st + of_nat s)] else [])
      @ [Evicted k (st_pending_bytes st)] = farewell k st"
    using fl by (cases "st_pending st") (auto simp: farewell_def bt_first_def flow_ok_def)
  define r' where "r' = r\<lparr>tr_flows := bt_remove k (tr_flows r), tr_expiry := expiry_remove (st_deadline st) k (tr_expiry r),
     tr_aggregate_bytes := tr_aggregate_bytes r - retained st, tr_aggregate_memory_charge := tr_aggregate_memory_charge r - charge st\<rparr>"
  have get: "bt_get (tr_flows r') = (bt_get (tr_flows r))(k := None)"
    using bt by (simp add: r'_def btree.map_laws)
  have "remove_flow k (r, events) = (r', events @ farewell k st)"
    unfolding remove_flow_def Let_def prod.case Some option.case gap amounts saturating_sub_def r'_def by (rule refl)
  moreover have "length (tr_flows r') \<le> length (tr_flows r)"
    by (simp add: r'_def bt_remove_def)
  moreover have "table_core limits n r'"
    using core get split Some calculation(2) bt unfolding table_core_def
    by (auto simp: r'_def btree.map_laws split: if_splits)
  moreover have "expiry_entries (tr_expiry r') = expiry_entries (tr_expiry r) - entries_of {k} r"
    using Some by (auto simp: r'_def expiry.entries_remove [OF ix] entries_of_def)
  moreover have "btree_ok (tr_expiry r')"
    using ix by (simp add: r'_def expiry.ok_remove)
  ultimately show thesis
    using Some get by (intro that [of r']) simp_all
qed

lemma remove_flows_ok:
  assumes "table_core limits n r" and "btree_ok (tr_expiry r)" and "max_bytes_per_flow limits \<le> usize_max" and "distinct ks"
  shows "\<exists>r'. fold remove_flow ks (r, events)
      = (r', events @ concat (map (\<lambda>k. case bt_get (tr_flows r) k of None \<Rightarrow> [] | Some st \<Rightarrow> farewell k st) ks))
    \<and> table_core limits n r' \<and> bt_get (tr_flows r') = (bt_get (tr_flows r)) |` (- set ks)
    \<and> btree_ok (tr_expiry r') \<and> expiry_entries (tr_expiry r') = expiry_entries (tr_expiry r) - entries_of (set ks) r"
  using assms
proof (induction ks arbitrary: r events)
  case Nil
  then show ?case
    by (auto simp: entries_of_def)
next
  case (Cons k ks)
  obtain r1 where r1: "remove_flow k (r, events) = (r1, events @ (case bt_get (tr_flows r) k of None \<Rightarrow> [] | Some st \<Rightarrow> farewell k st))"
    "table_core limits n r1" "bt_get (tr_flows r1) = (bt_get (tr_flows r))(k := None)"
    "btree_ok (tr_expiry r1)" "expiry_entries (tr_expiry r1) = expiry_entries (tr_expiry r) - entries_of {k} r"
    using remove_flow_ok [OF Cons.prems(1-3)] by metis
  have same: "map (\<lambda>j. case bt_get (tr_flows r1) j of None \<Rightarrow> [] | Some st \<Rightarrow> farewell j st) ks
      = map (\<lambda>j. case bt_get (tr_flows r) j of None \<Rightarrow> [] | Some st \<Rightarrow> farewell j st) ks"
    using Cons.prems(4) r1(3) by auto
  have "entries_of (set (k # ks)) r = entries_of (set ks) r1 \<union> entries_of {k} r"
    using Cons.prems(4) r1(3) by (auto simp: entries_of_def split: if_splits)
  then have ent: "expiry_entries (tr_expiry r1) - entries_of (set ks) r1
      = expiry_entries (tr_expiry r) - entries_of (set (k # ks)) r"
    unfolding r1(5) by blast
  have get: "(bt_get (tr_flows r1)) |` (- set ks) = (bt_get (tr_flows r)) |` (- set (k # ks))"
    by (auto simp: r1(3) restrict_map_def fun_eq_iff)
  show ?case
    using Cons.IH [OF r1(2,4) Cons.prems(3), of "events @ (case bt_get (tr_flows r) k of None \<Rightarrow> [] | Some st \<Rightarrow> farewell k st)"]
      Cons.prems(4) unfolding ent get same by (simp add: r1(1))
qed

definition farewells :: "reassembler \<Rightarrow> scoped_flow_key list \<Rightarrow> event list" where
  "farewells r ks = concat (map (\<lambda>k. case bt_get (tr_flows r) k of None \<Rightarrow> [] | Some st \<Rightarrow> farewell k st) ks)"

text \<open>The index may already have lost entries of the removed keys, as in \<open>expire\<close>.\<close>

lemma removal_ok:
  assumes ok: "table_ok limits n r" and M: "max_bytes_per_flow limits \<le> usize_max" and dist: "distinct ks"
    and E: "btree_ok E" "expiry_entries (tr_expiry r) - entries_of (set ks) r \<subseteq> expiry_entries E"
      "expiry_entries E \<subseteq> expiry_entries (tr_expiry r)"
    and rem: "remove_flows ks (r\<lparr>tr_expiry := E\<rparr>) = (r', events)"
  shows "table_ok limits n r'" and "bt_get (tr_flows r') = (bt_get (tr_flows r)) |` (- set ks)" and "events = farewells r (sort ks)"
proof -
  let ?r = "r\<lparr>tr_expiry := E\<rparr>"
  have "table_core limits n ?r" "btree_ok (tr_expiry ?r)" "distinct (sort ks)"
    using ok E dist by (simp_all add: table_ok_def table_core_def)
  from remove_flows_ok [OF this(1,2) M this(3), of "[]"] rem
  have r': "table_core limits n r'" "bt_get (tr_flows r') = (bt_get (tr_flows r)) |` (- set ks)" "btree_ok (tr_expiry r')"
    "expiry_entries (tr_expiry r') = expiry_entries E - entries_of (set ks) ?r" "events = farewells r (sort ks)"
    by (auto simp: remove_flows_def farewells_def)
  have "entries_of (set ks) ?r = entries_of (set ks) r"
    by (simp add: entries_of_def)
  then have "expiry_entries (tr_expiry r') = expiry_entries (tr_expiry r) - entries_of (set ks) r"
    using r'(4) E(2,3) by auto
  moreover have "mirrors (expiry_entries (tr_expiry r)) (bt_get (tr_flows r)) st_deadline"
    using ok by (simp add: table_ok_def)
  ultimately have "mirrors (expiry_entries (tr_expiry r')) (bt_get (tr_flows r')) st_deadline"
    unfolding r'(2) by (auto simp: mirrors_def entries_of_def restrict_map_def split: if_splits)
  then show "table_ok limits n r'"
    using r'(1,3) by (simp add: table_ok_def)
  show "bt_get (tr_flows r') = (bt_get (tr_flows r)) |` (- set ks)" "events = farewells r (sort ks)"
    by (fact r')+
qed

definition expired_flows :: "instant \<Rightarrow> reassembler \<Rightarrow> scoped_flow_key set" where
  "expired_flows now r = {k. \<exists>st d. bt_get (tr_flows r) k = Some st \<and> st_deadline st = Some d \<and> d \<le> now}"

lemma sort_distinct: "distinct ks \<Longrightarrow> sort ks = sorted_list_of_set (set ks)"
  by (simp add: sorted_list_of_set_sort_remdups distinct_remdups_id)

lemma drain_distinct:
  assumes "btree_ok index" and m: "mirrors (expiry_entries index) table deadline" and "drain_expired now index = (ks, rest)"
  shows "distinct ks"
proof -
  obtain gone where g: "index = gone @ rest" "ks = map (snd \<circ> fst) gone"
    using drain_expired_split [OF assms(3)] by blast
  have "distinct (map fst gone)"
    using btree_ok_distinct [OF assms(1)] by (simp add: g)
  moreover have "inj_on snd (expiry_entries index)"
    using m by (auto simp: mirrors_def inj_on_def)
  then have "inj_on snd (set (map fst gone))"
    by (rule inj_on_subset) (auto simp: expiry_entries_def g)
  ultimately show ?thesis
    unfolding g(2) by (metis distinct_map map_map)
qed

lemma tcp_expire_ok:
  assumes ok: "table_ok limits n r" and M: "max_bytes_per_flow limits \<le> usize_max"
    and ex: "tcp_expire now r = (r', events)"
  shows "table_ok limits n r'"
    and "bt_get (tr_flows r') = (bt_get (tr_flows r)) |` (- expired_flows now r)"
    and "events = farewells r (sorted_list_of_set (expired_flows now r))"
proof -
  have bt: "btree_ok (tr_expiry r)" and mi: "mirrors (expiry_entries (tr_expiry r)) (bt_get (tr_flows r)) st_deadline"
    using ok by (simp_all add: table_ok_def)
  obtain ks E where d: "drain_expired now (tr_expiry r) = (ks, E)"
    by fastforce
  have ks: "set ks = expired_flows now r"
    using expiry.mirrors_drain(1) [OF bt mi d] by (simp add: expired_flows_def)
  note dist = drain_distinct [OF bt mi d]
  have rest: "expiry_entries E = {(d, k) \<in> expiry_entries (tr_expiry r). now < d}"
    by (rule expiry.drain_rest [OF bt d])
  have "remove_flows ks (r\<lparr>tr_expiry := E\<rparr>) = (r', events)"
    using ex d by (simp add: tcp_expire_def take_expired_def)
  moreover have "expiry_entries (tr_expiry r) - entries_of (set ks) r \<subseteq> expiry_entries E"
    unfolding rest ks using mi by (auto simp: entries_of_def mirrors_def expired_flows_def not_le)
  moreover have "expiry_entries E \<subseteq> expiry_entries (tr_expiry r)"
    unfolding rest by blast
  ultimately have "table_ok limits n r'" "bt_get (tr_flows r') = (bt_get (tr_flows r)) |` (- set ks)" "events = farewells r (sort ks)"
    using removal_ok [OF ok M dist expiry.ok_drain [OF bt d]] by simp_all
  then show "table_ok limits n r'" "bt_get (tr_flows r') = (bt_get (tr_flows r)) |` (- expired_flows now r)"
    "events = farewells r (sorted_list_of_set (expired_flows now r))"
    by (simp_all add: ks sort_distinct [OF dist])
qed

lemma tcp_flush_ok:
  assumes ok: "table_ok limits n r" and M: "max_bytes_per_flow limits \<le> usize_max"
    and ex: "tcp_flush r = (r', events)"
  shows "table_ok limits n r'" and "tr_flows r' = []" and "events = farewells r (map fst (tr_flows r))"
proof -
  have bt: "btree_ok (tr_flows r)" "btree_ok (tr_expiry r)"
    using ok by (simp_all add: table_ok_defs)
  have dist: "distinct (map fst (tr_flows r))" "sort (map fst (tr_flows r)) = map fst (tr_flows r)"
    using bt(1) by (simp_all add: btree_ok_distinct btree_ok_def strict_sorted_imp_sorted sorted_sort_id)
  have "remove_flows (map fst (tr_flows r)) (r\<lparr>tr_expiry := tr_expiry r\<rparr>) = (r', events)"
    using ex by (simp add: tcp_flush_def)
  from removal_ok [OF ok M dist(1) bt(2) _ _ this]
  have "table_ok limits n r'" "bt_get (tr_flows r') = (bt_get (tr_flows r)) |` (- set (map fst (tr_flows r)))"
    "events = farewells r (map fst (tr_flows r))"
    by (simp_all add: dist(2) del: set_map)
  moreover have "(bt_get (tr_flows r)) |` (- set (map fst (tr_flows r))) = (\<lambda>_. None)"
    by (auto simp: restrict_map_def fun_eq_iff bt_get_def map_of_eq_None_iff)
  then have "tr_flows r' = []"
    using calculation(2) dom_bt_get [of "tr_flows r'"] by simp
  ultimately show "table_ok limits n r'" "tr_flows r' = []" "events = farewells r (map fst (tr_flows r))"
    by blast+
qed

lemma evict_flow_ok:
  assumes ok: "table_ok limits n r" and M: "max_bytes_per_flow limits \<le> usize_max" and ex: "evict_flow k r = (r', events)"
  shows "table_ok limits n r'" and "bt_get (tr_flows r') = (bt_get (tr_flows r))(k := None)" and "events = farewells r [k]"
proof -
  have bt: "btree_ok (tr_expiry r)"
    using ok by (simp_all add: table_ok_defs)
  have "remove_flows [k] (r\<lparr>tr_expiry := tr_expiry r\<rparr>) = (r', events)" "distinct [k]"
    using ex by (simp_all add: evict_flow_def)
  from removal_ok [OF ok M this(2) bt _ _ this(1)]
  show "table_ok limits n r'" "bt_get (tr_flows r') = (bt_get (tr_flows r))(k := None)" "events = farewells r [k]"
    by (auto simp: restrict_map_def fun_eq_iff)
qed

end
