(* ===== verification/Tcp_Stream.thy ===== *)
theory Tcp_Stream
  imports Tcp_Reach
begin

text \<open>
  The reassembler as a state machine and what it delivers. Every reachable state keeps the table
  invariant; and when the segments of a flow carry slices of one byte stream, in any order and with
  any overlap, the data events spell a prefix of that stream that ends at the first missing byte.
\<close>

section \<open>Reachable states\<close>

text \<open>\<open>n\<close> counts the payload bytes of the accepted pushes; the allocator may change between pushes.\<close>

inductive tcp_reachable :: "tcp_limits \<Rightarrow> nat \<Rightarrow> reassembler \<Rightarrow> bool" for limits where
  start: "tcp_new clock limits = Ok r \<Longrightarrow> tcp_reachable limits 0 r"
| push: "tcp_reachable limits n r \<Longrightarrow> tcp_push alloc seg now r = Ok (r', events) \<Longrightarrow>
    tcp_reachable limits (n + length (seg_payload seg)) r'"
| expire: "tcp_reachable limits n r \<Longrightarrow> tcp_expire now r = (r', events) \<Longrightarrow> tcp_reachable limits n r'"
| flush: "tcp_reachable limits n r \<Longrightarrow> tcp_flush r = (r', events) \<Longrightarrow> tcp_reachable limits n r'"
| evict: "tcp_reachable limits n r \<Longrightarrow> evict_flow k r = (r', events) \<Longrightarrow> tcp_reachable limits n r'"

lemma tcp_new_ok: "tcp_new clock limits = Ok r \<Longrightarrow> table_ok limits 0 r"
  by (auto simp: tcp_new_def outcome_iff table_ok_defs bt_get_def map_total_def mirrors_def
      expiry_entries_def)

lemma tcp_reachable_ok:
  assumes "tcp_reachable limits n r" and "n + max_bytes_per_flow limits + PAGE_BYTES \<le> usize_max"
  shows "table_ok limits n r"
  using assms
proof (induction rule: tcp_reachable.induct)
  case (push n r alloc seg now r' events)
  then show ?case
    using tcp_push_ok(2) [of limits n r] by simp
next
  case (expire n r now r' events)
  then show ?case
    using tcp_expire_ok(1) [of limits n r] by simp
next
  case (flush n r r' events)
  then show ?case
    using tcp_flush_ok(1) [of limits n r] by simp
next
  case (evict n r k r' events)
  then show ?case
    using evict_flow_ok(1) [of limits n r] by simp
qed (rule tcp_new_ok)

section \<open>Streams\<close>

text \<open>A segment that carries the bytes of the stream \<open>S\<close> from position \<open>p\<close> on, for the initial sequence number \<open>b\<close>.\<close>

definition carries :: "(nat \<Rightarrow> u8) \<Rightarrow> u32 \<Rightarrow> nat \<Rightarrow> segment \<Rightarrow> bool" where
  "carries S b p seg \<longleftrightarrow> first_payload_sequence seg = b + of_nat p
     \<and> seg_payload seg = map S [p..<p + length (seg_payload seg)]"

definition remembers :: "(nat \<Rightarrow> u8) \<Rightarrow> tcp_flow_state \<Rightarrow> bool" where
  "remembers S st \<longleftrightarrow> (\<forall>p b. held st p = Some b \<longrightarrow> b = S p)
     \<and> history_contents (st_history st) = map S [st_next_offset st - h_len (st_history st)..<st_next_offset st]"

lemma carries_position:
  assumes "carries S (st_base_sequence st) p seg" and "\<bar>int p - int (st_next_offset st)\<bar> < 2 ^ 31"
  shows "absolute_position st seg = int p"
  using assms serial_offset_positions [OF assms(2), of "st_base_sequence st"]
  by (simp add: carries_def absolute_position_def first_payload_sequence_def)

text \<open>Where the bytes of a placed segment are, and what they say.\<close>

lemma placed_bytes:
  assumes pl: "placed limits st seg inc" and c: "carries S (st_base_sequence st) p seg"
    and near: "\<bar>int p - int (st_next_offset st)\<bar> < 2 ^ 31"
  shows "i < length (in_payload inc) \<Longrightarrow> in_payload inc ! i = S (in_offset inc + i)"
    and "{in_offset inc..<in_offset inc + length (in_payload inc)} \<union> {..<st_next_offset st}
      = {p..<p + length (seg_payload seg)} \<union> {..<st_next_offset st}"
proof -
  let ?start = "in_payload_start inc" and ?n = "length (seg_payload seg)"
  have x: "absolute_position st seg = int p"
    using c near by (rule carries_position)
  have f: "?start \<le> ?n" "in_payload inc = drop ?start (seg_payload seg)"
    "in_payload inc \<noteq> [] \<Longrightarrow> in_offset inc = p + ?start" "?start = 0 \<or> p + ?start \<le> st_next_offset st"
    "st_next_offset st \<le> in_offset inc"
    using pl x unfolding placed_def by (auto simp flip: of_nat_add)
  have S: "seg_payload seg ! j = S (p + j)" if "j < ?n" for j
    using c that unfolding carries_def by (metis add.commute diff_add_inverse nth_map_upt)
  show "in_payload inc ! i = S (in_offset inc + i)" if "i < length (in_payload inc)" for i
  proof -
    have "in_payload inc \<noteq> []" "?start + i < ?n"
      using that f(2) by auto
    then show ?thesis
      using f(1-3) S [of "?start + i"] by (simp add: add.assoc)
  qed
  show "{in_offset inc..<in_offset inc + length (in_payload inc)} \<union> {..<st_next_offset st}
      = {p..<p + ?n} \<union> {..<st_next_offset st}"
  proof (cases "in_payload inc = []")
    case True
    then have "?start = ?n"
      using f(1,2) by simp
    then have "?n = 0 \<or> p + ?n \<le> st_next_offset st"
      using f(4) by auto
    then show ?thesis
      using True by auto
  next
    case False
    then have "length (in_payload inc) = ?n - ?start" "in_offset inc = p + ?start"
      using f(2,3) by simp_all
    then show ?thesis
      using f(1,4) by auto
  qed
qed

definition got :: "tcp_flow_state \<Rightarrow> nat set" where
  "got st = {..<st_next_offset st} \<union> {p. held st p \<noteq> None}"

text \<open>
  One step of the stream: the flow delivers stream bytes up to the first position it has not got, has
  got exactly the bytes of the segment on top of the earlier ones, and reports no conflict.
\<close>

lemma flow_step_stream:
  assumes fl: "flow_ok limits st" and rem: "remembers S st" and c: "carries S (st_base_sequence st) p seg"
    and near: "\<bar>int p - int (st_next_offset st)\<bar> < 2 ^ 31"
    and step: "flow_step limits st now seg st' out inc ranges closed"
  shows "out = map S [st_next_offset st..<st_next_offset st']" and "st_next_offset st' = st_next_offset st + length out"
    and "remembers S st'" and "got st' = got st \<union> {p..<p + length (seg_payload seg)}" and "st_next_offset st' \<notin> got st'"
proof -
  let ?n = "st_next_offset st" and ?n' = "st_next_offset st'" and ?a = "in_offset inc" and ?pl = "in_payload inc"
  let ?m = "first_wins (held st) ?a ?pl"
  have pl: "placed limits st seg inc" and eff: "push_effect st ?a ?pl st' out"
    and hist: "history_contents (st_history st') = drop (h_len (st_history st) + length out - h_len (st_history st'))
         (history_contents (st_history st) @ out)"
    using step by (simp_all add: flow_step_def)
  have run: "run ?m ?n out" and n': "?n' = ?n + length out" and held': "held st' = (\<lambda>q. if q < ?n' then None else ?m q)"
    using eff by (simp_all add: push_effect_def)
  note b = placed_bytes [OF pl c near]
  have m: "x = S q" if "?m q = Some x" for q x
    using that rem b(1) [of "q - ?a"] by (auto simp: first_wins_def remembers_def split: option.splits if_splits)
  have dom: "?m q \<noteq> None \<longleftrightarrow> held st q \<noteq> None \<or> q \<in> {?a..<?a + length ?pl}" for q
    by (auto simp: first_wins_def split: option.split)
  have get: "out ! i = S (?n + i)" if "i < length out" for i
    using run that m unfolding run_def by metis
  show out: "out = map S [?n..<?n']"
    using get n' by (intro nth_equalityI) auto
  show "?n' = ?n + length out"
    by (rule n')
  have end_gap: "?m ?n' = None"
    using run n' by (simp add: run_def)
  have below: "q \<in> {?n..<?n'} \<Longrightarrow> ?m q \<noteq> None" for q
    using run unfolding run_def n' by (metis atLeastLessThan_iff le_add_diff_inverse nat_add_left_cancel_less option.discI)
  have "got st' = {..<?n'} \<union> {q. ?m q \<noteq> None}"
    by (auto simp: got_def held')
  also have "\<dots> = {..<?n} \<union> {q. ?m q \<noteq> None}"
    using below n' by (auto simp: not_less)
  also have "\<dots> = got st \<union> {?a..<?a + length ?pl}"
    unfolding dom got_def by auto
  also have "\<dots> = got st \<union> {p..<p + length (seg_payload seg)}"
    using b(2) unfolding got_def by auto
  finally show got': "got st' = got st \<union> {p..<p + length (seg_payload seg)}" .
  show "?n' \<notin> got st'"
    using end_gap by (simp add: got_def held')
  have "h_len (st_history st) \<le> ?n"
    using fl by (auto simp: flow_ok_def history_tracks_def)
  moreover have "h_len (st_history st') \<le> h_len (st_history st) + length out"
    using arg_cong [OF hist, of length] by simp
  moreover have "history_contents (st_history st) @ out = map S [?n - h_len (st_history st)..<?n']"
  proof -
    have "map S [?n - h_len (st_history st)..<?n'] = map S [?n - h_len (st_history st)..<?n] @ map S [?n..<?n']"
      unfolding n' using upt_add_eq_append [of "?n - h_len (st_history st)" ?n "length out"] by simp
    then show ?thesis
      using rem unfolding remembers_def out [symmetric] by simp
  qed
  ultimately have "history_contents (st_history st') = map S [?n' - h_len (st_history st')..<?n']"
    using n' by (simp add: hist drop_map)
  then show "remembers S st'"
    using m by (auto simp: remembers_def held' split: if_splits)
qed

section \<open>Runs\<close>

fun tcp_push_all :: "allocator \<Rightarrow> (segment \<times> instant) list \<Rightarrow> reassembler \<Rightarrow> (tcp_error, reassembler \<times> event list) outcome" where
  "tcp_push_all alloc [] r = Ok (r, [])"
| "tcp_push_all alloc ((seg, now) # rest) r =
     let_ok (tcp_push alloc seg now r) (\<lambda>(r, events).
     let_ok (tcp_push_all alloc rest r) (\<lambda>(r, more). Ok (r, events @ more)))"

definition delivered_bytes :: "scoped_flow_key \<Rightarrow> event list \<Rightarrow> bytes" where
  "delivered_bytes k events =
     concat (map (\<lambda>e. case e of Data k' _ bs \<Rightarrow> if k' = k then bs else [] | _ \<Rightarrow> []) events)"

lemma delivered_bytes_append [simp]: "delivered_bytes k (x @ y) = delivered_bytes k x @ delivered_bytes k y"
  by (simp add: delivered_bytes_def)

lemma delivered_bytes_simps [simp]:
  "delivered_bytes k [] = []" "delivered_bytes k (report k' st inc ranges) = []" "delivered_bytes k [Closed k' b] = []"
  "delivered_bytes k (data_event k' st out) = (if k' = k then out else [])"
  by (auto simp: delivered_bytes_def report_def data_event_def Let_def)

text \<open>What the run of a flow promises about a state: the stream bytes it got, the next one it waits for.\<close>

definition on_stream :: "(nat \<Rightarrow> u8) \<Rightarrow> nat \<Rightarrow> u32 \<Rightarrow> tcp_flow_state \<Rightarrow> bool" where
  "on_stream S N b st \<longleftrightarrow> remembers S st \<and> st_base_sequence st = b \<and> st_fin_offset st = None
     \<and> got st \<subseteq> {..<N} \<and> st_next_offset st \<notin> got st"

lemma on_stream_next: "on_stream S N b st \<Longrightarrow> st_next_offset st = (LEAST q. q \<notin> got st)"
  by (rule sym, rule Least_equality) (auto simp: on_stream_def got_def not_less)

lemma clock_fields [simp]:
  "held (st\<lparr>st_deadline := d\<rparr>) = held st" "got (st\<lparr>st_deadline := d\<rparr>) = got st"
  "on_stream S N b (st\<lparr>st_deadline := d\<rparr>) = on_stream S N b st"
  by (simp_all add: held_def got_def on_stream_def remembers_def fun_eq_iff)

definition plain :: "segment \<Rightarrow> bool" where
  "plain seg \<longleftrightarrow> \<not> seg_syn seg \<and> \<not> seg_fin seg \<and> \<not> seg_rst seg"

lemma tcp_push_stream:
  assumes ok: "table_ok limits n r" and room: "n + max_bytes_per_flow limits + PAGE_BYTES \<le> usize_max"
    and push: "tcp_push alloc seg now r = Ok (r', events)"
    and k: "bt_get (tr_flows r) k = Some st" and on: "on_stream S N b st" and N: "N < 2 ^ 31"
    and seg: "seg_flow seg = k \<Longrightarrow> plain seg \<and> carries S b p seg \<and> p + length (seg_payload seg) \<le> N"
  obtains st' where "bt_get (tr_flows r') k = Some st'" and "on_stream S N b st'"
    and "got st' = got st \<union> (if seg_flow seg = k then {p..<p + length (seg_payload seg)} else {})"
    and "delivered_bytes k events = map S [st_next_offset st..<st_next_offset st']"
    and "st_next_offset st \<le> st_next_offset st'"
proof (cases "ignored r seg")
  case True
  then have "r' = r" "events = []" "seg_flow seg \<noteq> k"
    using push k by (auto simp: tcp_push_eq ignored_def)
  then show thesis
    using k on by (intro that [of st]) simp_all
next
  case False
  obtain st1 out where p: "pushed limits r now seg r' events st1 out"
    using tcp_push_ok(3) [OF ok room push False] by blast
  then obtain inc ranges closed where step: "flow_step limits (flow_before r seg now) now seg st1 out inc ranges closed"
    and ev: "events = report (seg_flow seg) (flow_before r seg now) inc ranges @ data_event (seg_flow seg) (flow_before r seg now) out
            @ (if closed then [Closed (seg_flow seg) (seg_rst seg)] else [])"
    and get: "bt_get (tr_flows r') = (bt_get (tr_flows r))(seg_flow seg :=
            if closed then None else Some (st1\<lparr>st_deadline := push_deadline r seg now\<rparr>))"
    unfolding pushed_def by blast
  show thesis
  proof (cases "seg_flow seg = k")
    case True
    then have s: "plain seg" "carries S b p seg" "p + length (seg_payload seg) \<le> N"
      using seg by blast+
    have fb: "flow_before r seg now = st"
      using k True s(1) by (simp add: flow_before_def new_generation_def plain_def)
    have fl: "flow_ok limits st"
      by (rule table_ok_flow(1) [OF ok k order.refl])
    have st: "remembers S st" "carries S (st_base_sequence st) p seg" "st_fin_offset st = None" "st_base_sequence st = b"
      using on s(2) by (simp_all add: on_stream_def)
    have "st_next_offset st \<le> N"
      using on by (auto simp: on_stream_def got_def)
    then have "\<bar>int p - int (st_next_offset st)\<bar> < 2 ^ 31"
      using s(3) N by auto
    note str = flow_step_stream [OF fl st(1,2) this step [unfolded fb]]
    have nofin: "in_fin_offset inc = None"
      using step s(1) unfolding flow_step_def placed_def plain_def by simp
    then have live: "\<not> closed" and fin: "st_fin_offset st1 = None" and base: "st_base_sequence st1 = b"
      using step s(1) st(3,4) unfolding flow_step_def fb closes_def plain_def by simp_all
    have "on_stream S N b st1"
      using str on s(3) fin base by (auto simp: on_stream_def)
    then show thesis
      using str live True fb
      by (intro that [of "st1\<lparr>st_deadline := push_deadline r seg now\<rparr>"]) (simp_all add: get ev)
  next
    case False
    then show thesis
      using k on by (intro that [of st]) (simp_all add: get ev)
  qed
qed

lemma tcp_push_all_stream:
  assumes "tcp_push_all alloc segs r = Ok (r', events)" and "table_ok limits n r"
    and "n + length (concat (map (seg_payload \<circ> fst) segs)) + max_bytes_per_flow limits + PAGE_BYTES \<le> usize_max"
    and "bt_get (tr_flows r) k = Some st" and "on_stream S N b st" and "N < 2 ^ 31"
    and "\<And>seg now. (seg, now) \<in> set segs \<Longrightarrow> seg_flow seg = k \<Longrightarrow>
      plain seg \<and> carries S b (pos seg) seg \<and> pos seg + length (seg_payload seg) \<le> N"
  shows "\<exists>st'. bt_get (tr_flows r') k = Some st' \<and> on_stream S N b st'
    \<and> got st' = got st \<union> (\<Union>(seg, now)\<in>{x \<in> set segs. seg_flow (fst x) = k}. {pos seg..<pos seg + length (seg_payload seg)})
    \<and> delivered_bytes k events = map S [st_next_offset st..<st_next_offset st'] \<and> st_next_offset st \<le> st_next_offset st'"
  using assms
proof (induction segs arbitrary: r st n events)
  case (Cons x segs)
  obtain seg now where x: "x = (seg, now)"
    by fastforce
  obtain r1 e1 e2 where push: "tcp_push alloc seg now r = Ok (r1, e1)" "tcp_push_all alloc segs r1 = Ok (r', e2)"
    "events = e1 @ e2"
    using Cons.prems(1) by (auto simp: x outcome_iff)
  have room: "n + max_bytes_per_flow limits + PAGE_BYTES \<le> usize_max"
    using Cons.prems(3) by simp
  obtain st1 where st1: "bt_get (tr_flows r1) k = Some st1" "on_stream S N b st1"
    "got st1 = got st \<union> (if seg_flow seg = k then {pos seg..<pos seg + length (seg_payload seg)} else {})"
    "delivered_bytes k e1 = map S [st_next_offset st..<st_next_offset st1]" "st_next_offset st \<le> st_next_offset st1"
    using tcp_push_stream [OF Cons.prems(2) room push(1) Cons.prems(4-6), of "pos seg"] Cons.prems(7) x by auto
  have ok1: "table_ok limits (n + length (seg_payload seg)) r1"
    by (rule tcp_push_ok(2) [OF Cons.prems(2) room push(1)])
  obtain st' where st': "bt_get (tr_flows r') k = Some st'" "on_stream S N b st'"
    "got st' = got st1 \<union> (\<Union>(seg, now)\<in>{x \<in> set segs. seg_flow (fst x) = k}. {pos seg..<pos seg + length (seg_payload seg)})"
    "delivered_bytes k e2 = map S [st_next_offset st1..<st_next_offset st']" "st_next_offset st1 \<le> st_next_offset st'"
  proof -
    have "n + length (seg_payload seg) + length (concat (map (seg_payload \<circ> fst) segs)) + max_bytes_per_flow limits
        + PAGE_BYTES \<le> usize_max"
      using Cons.prems(3) by (simp add: x comp_def)
    moreover have "plain sg \<and> carries S b (pos sg) sg \<and> pos sg + length (seg_payload sg) \<le> N"
      if "(sg, t) \<in> set segs" "seg_flow sg = k" for sg t
      using Cons.prems(7) [of sg t] that by simp
    ultimately show thesis
      using Cons.IH [OF push(2) ok1 _ st1(1,2) Cons.prems(6)] that by blast
  qed
  have "got st' = got st \<union> (\<Union>(seg, now)\<in>{y \<in> set (x # segs). seg_flow (fst y) = k}. {pos seg..<pos seg + length (seg_payload seg)})"
    unfolding st'(3) st1(3) x by auto
  moreover have "delivered_bytes k events = map S [st_next_offset st..<st_next_offset st']"
    using st1(4,5) st'(4,5) push(3) upt_add_eq_append [of "st_next_offset st" "st_next_offset st1" "st_next_offset st' - st_next_offset st1"]
    by (simp flip: map_append)
  ultimately show ?case
    using st'(1,2,5) st1(5) by auto
qed auto

end
