(* ===== verification/Tcp_Theorems.thy ===== *)
theory Tcp_Theorems
  imports Tcp_Stream
begin

text \<open>
  The promises of the TCP reassembler, each stated over the operations of the code and shown on a
  concrete run: a flow whose sequence numbers wrap, a segment beyond a gap, and the one that closes it.
\<close>

section \<open>A concrete run\<close>

definition demo_limits :: tcp_limits where
  "demo_limits = \<lparr>max_flows = 2, max_bytes_per_flow = 16, max_aggregate_bytes = 8192, max_segments_per_flow = 4, idle_expiry = 10\<rparr>"

definition demo_key :: scoped_flow_key where
  "demo_key = ScopedFlowKey 0 (FlowKey (V4 1) 80 (V4 2) 81)"

definition demo_segment :: "u32 \<Rightarrow> bytes \<Rightarrow> segment" where
  "demo_segment s bs = \<lparr>seg_flow = demo_key, seg_sequence = s, seg_payload = bs, seg_syn = False, seg_fin = False, seg_rst = False\<rparr>"

definition demo_start :: reassembler where
  "demo_start = \<lparr>tr_limits = demo_limits, tr_flows = [], tr_expiry = [], tr_aggregate_bytes = 0, tr_aggregate_memory_charge = 0\<rparr>"

definition demo_flow :: tcp_flow_state where
  "demo_flow = \<lparr>st_base_sequence = 4294967295, st_next_offset = 3, st_history_start = 0,
     st_history = \<lparr>h_storage = [1, 2, 3], h_start = 0, h_len = 3\<rparr>, st_pending = [], st_pages = [], st_pending_bytes = 0,
     st_fin_offset = None, st_last_update = 5, st_deadline = Some 15\<rparr>"

definition demo_table :: reassembler where
  "demo_table = \<lparr>tr_limits = demo_limits, tr_flows = [(demo_key, demo_flow)], tr_expiry = [((15, demo_key), ())],
     tr_aggregate_bytes = 3, tr_aggregate_memory_charge = 259\<rparr>"

lemmas demo_defs = demo_limits_def demo_key_def demo_segment_def demo_start_def demo_flow_def demo_table_def

lemmas tcp_eval = tcp_push_def commit_push_def plan_push_def commit_flow_push_def emit_data_def apply_pending_merge_def
  normalize_payload_def absolute_position_def validate_sequence_bounds_def emitted_history_conflicts_def u64_try_from_def
  plan_merge_and_accounting_def plan_pending_merge_def record_interval_def validate_pending_final_offset_def
  plan_push_accounting_def transient_peak_def materialize_pending_merge_def prepare_emitted_history_def
  planned_history_allocation_def memory_charge_parts_def aggregates_without_def tcp_flow_new_def
  remaining_count_def page_keys_def trim_emitted_history_def append_emitted_history_def history_new_def
  history_capacity_def history_extend_def history_slices_def history_drain_prefix_def history_clear_def
  history_default_def history_is_empty_def history_wrap_def saturating_add_def saturating_sub_def checked_add_def
  checked_sub_def checked_mul_def usize_max_def instant_checked_add_def instant_max_def PAGE_BYTES_def PAGE_CHARGE_def
  PENDING_SEGMENT_METADATA_CHARGE_def TCP_FLOW_STATE_METADATA_CHARGE_def Let_def bt_get_def bt_first_def bt_last_def
  bt_last_before_def bt_between_def bt_from_def or_none_def expiry_insert_def expiry_remove_def checked_slice_def
  slice_of_def serial_offset_def count_removed_def upt_rec aggregate_byte_error_def saturating_mul_def
  flow_memory_charge_def retained_bytes_def get_range_def write_range_def copy_at_def split_at_def get_from_def
  prepare_page_def allocate_page_def adopt_page_def fill_gap_def store_payload_def pages_insert_def page_slices_def
  pages_remove_def pages_copy_out_def pages_equals_def copy_interval_def bt_remove_def less_scoped_flow_key_def

lemma demo_new: "tcp_new 0 demo_limits = Ok demo_start"
  by (simp add: tcp_new_def tcp_limits_validate_def tcp_violation_def expiry_violation_def instant_checked_add_def
      instant_max_def demo_defs MAX_BYTES_PER_FLOW_def SERIAL_HALF_def)

lemma demo_push: "tcp_push (\<lambda>_ _. True) (demo_segment 4294967295 [1, 2, 3]) 5 demo_start
    = Ok (demo_table, [Data demo_key 4294967295 [1, 2, 3]])"
  by (simp add: tcp_eval demo_defs)

lemma demo_reachable: "tcp_reachable demo_limits 3 demo_table"
  using tcp_reachable.push [OF tcp_reachable.start [OF demo_new] demo_push] by (simp add: demo_segment_def numeral_3_eq_3)

lemma demo_room: "3 + max_bytes_per_flow demo_limits + PAGE_BYTES \<le> usize_max"
  by (simp add: demo_limits_def PAGE_BYTES_def usize_max_def)

lemma demo_next: "tcp_push_all (\<lambda>_ _. True) [(demo_segment 4 [6, 7], 6), (demo_segment 1 [3, 4, 5, 6], 6)] demo_table
    = Ok (demo_table\<lparr>tr_flows := [(demo_key, demo_flow\<lparr>st_next_offset := 7,
          st_history := \<lparr>h_storage = [1, 2, 3, 4, 5, 6, 7], h_start = 0, h_len = 7\<rparr>, st_last_update := 6, st_deadline := Some 16\<rparr>)],
        tr_expiry := [((16, demo_key), ())], tr_aggregate_bytes := 7, tr_aggregate_memory_charge := 263\<rparr>,
      [Retransmission demo_key 1 2 False [(1, 2), (4, 5)], Data demo_key 2 [4, 5, 6, 7]])"
  by (simp add: tcp_eval demo_defs)

section \<open>Properties\<close>

text \<open>
  C5: Memory is bounded and the books are exact. In every reachable state the two aggregates are the
  sums over the flows of what each retains and is charged, both stay within the aggregate limit, the
  number of flows within its limit, and every flow within its byte and segment limits, with its
  pending intervals inside the reordering window.
\<close>
theorem tcp_memory_bounded:
  assumes "tcp_reachable limits n r" and "n + max_bytes_per_flow limits + PAGE_BYTES \<le> usize_max"
  shows "tr_aggregate_memory_charge r = (\<Sum>(k, st)\<leftarrow>tr_flows r. charge st)
    \<and> tr_aggregate_bytes r = (\<Sum>(k, st)\<leftarrow>tr_flows r. retained st)
    \<and> tr_aggregate_memory_charge r \<le> max_aggregate_bytes limits \<and> tr_aggregate_bytes r \<le> max_aggregate_bytes limits
    \<and> flow_count r \<le> max_flows limits
    \<and> (\<forall>(k, st)\<in>set (tr_flows r). retained st \<le> max_bytes_per_flow limits
        \<and> length (st_pending st) \<le> max_segments_per_flow limits
        \<and> cover (st_pending st) \<subseteq> {st_next_offset st<..<st_next_offset st + max_bytes_per_flow limits})"
proof -
  have ok: "table_ok limits n r"
    using assms by (rule tcp_reachable_ok)
  then have bt: "btree_ok (tr_flows r)"
    by (simp add: table_ok_defs)
  have "retained st \<le> max_bytes_per_flow limits \<and> length (st_pending st) \<le> max_segments_per_flow limits
      \<and> cover (st_pending st) \<subseteq> {st_next_offset st<..<st_next_offset st + max_bytes_per_flow limits}"
    if "(k, st) \<in> set (tr_flows r)" for k st
  proof -
    have "flow_ok limits st"
      using table_ok_flow(1) [OF ok _ order.refl, of k st] that bt by (simp add: bt_get_mem_iff)
    then show ?thesis
      by (fastforce simp: flow_ok_def retained_def mem_cover)
  qed
  then show ?thesis
    using ok map_total_bt_get [OF bt] by (auto simp: table_ok_defs flow_count_def)
qed

theorem tcp_memory_bounded_witness:
  "tr_aggregate_memory_charge demo_table = (\<Sum>(k, st)\<leftarrow>tr_flows demo_table. charge st)
    \<and> tr_aggregate_memory_charge demo_table \<le> 8192 \<and> flow_count demo_table = 1"
  using tcp_memory_bounded [OF demo_reachable demo_room] by (simp add: demo_limits_def flow_count_def demo_table_def)

text \<open>
  C9: Pushing a segment never panics: in no reachable state does any index, slice, subtraction,
  assertion or \<open>expect\<close> of planning or commit fail, whatever the segment, the clock and the allocator;
  the outcome is an accepted push or one of the documented errors.
\<close>
theorem tcp_push_never_panics:
  assumes "tcp_reachable limits n r" and "n + max_bytes_per_flow limits + PAGE_BYTES \<le> usize_max"
  shows "(\<exists>r' events. tcp_push alloc seg now r = Ok (r', events)) \<or> (\<exists>e. tcp_push alloc seg now r = Err e)"
  using tcp_push_ok(1) [OF tcp_reachable_ok [OF assms] assms(2), of alloc seg now] by (cases "tcp_push alloc seg now r") auto

theorem tcp_push_never_panics_witness:
  "\<exists>e. tcp_push (\<lambda>_ _. False) (demo_segment 4 [6, 7]) 6 demo_table = Err e"
proof -
  have "tcp_push (\<lambda>_ _. False) (demo_segment 4 [6, 7]) 6 demo_table \<noteq> Ok x" for x
    by (simp add: tcp_eval demo_defs)
  then show ?thesis
    using tcp_push_never_panics [OF demo_reachable demo_room, of "\<lambda>_ _. False" "demo_segment 4 [6, 7]" 6] by auto
qed

text \<open>
  C7: An accepted push refines the abstract push. The segment is placed by signed 32-bit distance from
  the next expected byte; bytes already held win over new ones; exactly the contiguous run that starts
  at the next expected byte is delivered, in one event; the rest stays pending; conflicts and
  retransmitted bytes are reported exactly; the flow closes on RST or when its FIN is reached; the
  history is the end of the delivered stream; and every other flow is left as it was.
\<close>
theorem tcp_push_refines:
  assumes "tcp_reachable limits n r" and "n + max_bytes_per_flow limits + PAGE_BYTES \<le> usize_max"
    and "tcp_push alloc seg now r = Ok (r', events)" and "\<not> ignored r seg"
  shows "\<exists>st' out. pushed limits r now seg r' events st' out"
  by (rule tcp_push_ok(3) [OF tcp_reachable_ok [OF assms(1,2)] assms(2-4)])

theorem tcp_push_refines_witness:
  "\<exists>st' out. pushed demo_limits demo_start 5 (demo_segment 4294967295 [1, 2, 3]) demo_table
     [Data demo_key 4294967295 [1, 2, 3]] st' out"
proof -
  have "\<not> ignored demo_start (demo_segment 4294967295 [1, 2, 3])"
    by (simp add: ignored_def demo_defs)
  then show ?thesis
    using tcp_push_refines [OF tcp_reachable.start [OF demo_new] _ demo_push] demo_room by simp
qed

text \<open>
  C1: Reassembly is independent of arrival order. When the plain segments of one flow carry slices of
  one stream, wherever they start, however they overlap, in whatever order they arrive, interleaved with
  segments of other flows, and wherever the 32-bit sequence numbers wrap, the data events of an accepted
  run spell the stream from the next expected byte to the first byte no segment carried.
\<close>
theorem tcp_stream_in_any_order:
  assumes "tcp_reachable limits n r"
    and "n + length (concat (map (seg_payload \<circ> fst) segs)) + max_bytes_per_flow limits + PAGE_BYTES \<le> usize_max"
    and "bt_get (tr_flows r) k = Some st" and "on_stream S N b st" and "N < 2 ^ 31"
    and "\<And>seg now. (seg, now) \<in> set segs \<Longrightarrow> seg_flow seg = k \<Longrightarrow>
      plain seg \<and> carries S b (pos seg) seg \<and> pos seg + length (seg_payload seg) \<le> N"
    and "tcp_push_all alloc segs r = Ok (r', events)"
    and "G = got st \<union> (\<Union>(seg, now)\<in>{x \<in> set segs. seg_flow (fst x) = k}. {pos seg..<pos seg + length (seg_payload seg)})"
  shows "delivered_bytes k events = map S [st_next_offset st..<LEAST q. q \<notin> G]
    \<and> flow_next_sequence r' k = Some (b + of_nat (LEAST q. q \<notin> G))"
proof -
  have "n + max_bytes_per_flow limits + PAGE_BYTES \<le> usize_max"
    using assms(2) by simp
  then have ok: "table_ok limits n r"
    by (rule tcp_reachable_ok [OF assms(1)])
  have "\<exists>st'. bt_get (tr_flows r') k = Some st' \<and> on_stream S N b st' \<and> got st' = G
      \<and> delivered_bytes k events = map S [st_next_offset st..<st_next_offset st'] \<and> st_next_offset st \<le> st_next_offset st'"
    unfolding assms(8) using assms(7) ok assms(2-6) by (rule tcp_push_all_stream)
  then obtain st' where "bt_get (tr_flows r') k = Some st'" "on_stream S N b st'" "got st' = G"
    "delivered_bytes k events = map S [st_next_offset st..<st_next_offset st']"
    by blast
  then show ?thesis
    using on_stream_next [of S N b st'] by (simp add: flow_next_sequence_def on_stream_def)
qed

lemma demo_on_stream: "on_stream (\<lambda>p. of_nat p + 1) 7 4294967295 demo_flow"
proof -
  have "held demo_flow p = None" for p
    by (simp add: held_def demo_flow_def)
  then show ?thesis
    by (simp add: on_stream_def remembers_def got_def demo_flow_def history_contents_def history_wrap_def
        history_capacity_def upt_rec)
qed

theorem tcp_stream_in_any_order_witness:
  "delivered_bytes demo_key [Retransmission demo_key 1 2 False [(1, 2), (4, 5)], Data demo_key 2 [4, 5, 6, 7]]
    = map (\<lambda>p. of_nat p + 1) [3..<LEAST q. q \<notin> {..<3} \<union> ({5..<7} \<union> {2..<6})]"
proof -
  let ?segs = "[(demo_segment 4 [6, 7], 6), (demo_segment 1 [3, 4, 5, 6], 6)] :: (segment \<times> instant) list"
  let ?pos = "\<lambda>seg. if seg_sequence seg = 4 then 5 else 2" and ?S = "\<lambda>p. of_nat p + 1 :: u8"
  have room: "3 + length (concat (map (seg_payload \<circ> fst) ?segs)) + max_bytes_per_flow demo_limits + PAGE_BYTES \<le> usize_max"
    by (simp add: demo_defs PAGE_BYTES_def usize_max_def)
  have get: "bt_get (tr_flows demo_table) demo_key = Some demo_flow"
    by (simp add: bt_get_def demo_table_def)
  have segs: "plain seg \<and> carries ?S 4294967295 (?pos seg) seg \<and> ?pos seg + length (seg_payload seg) \<le> 7"
    if "(seg, now) \<in> set ?segs" for seg now
    using that by (auto simp: plain_def carries_def first_payload_sequence_def demo_segment_def upt_rec)
  have "got demo_flow = {..<3}"
    by (simp add: got_def held_def demo_flow_def lessThan_def)
  moreover have "(\<Union>(seg, now)\<in>{x \<in> set ?segs. seg_flow (fst x) = demo_key}. {?pos seg..<?pos seg + length (seg_payload seg)})
      = {5..<7} \<union> {2..<6}"
  proof -
    have "{x \<in> set ?segs. seg_flow (fst x) = demo_key} = set ?segs"
      by (auto simp: demo_segment_def)
    then show ?thesis
      by (simp only:) (simp add: demo_segment_def)
  qed
  ultimately show ?thesis
    using tcp_stream_in_any_order [OF demo_reachable room get demo_on_stream _ segs demo_next refl]
    by (simp add: demo_flow_def)
qed

text \<open>
  C13: Expiry is exact. \<open>expire\<close> removes the flows whose deadline has passed and no other, in key order,
  with the farewell of each (the gap before its first pending byte, then the eviction), and the
  deadline index again lists exactly the deadlines of the flows that remain.
\<close>
theorem tcp_expire_exact:
  assumes "tcp_reachable limits n r" and "n + max_bytes_per_flow limits + PAGE_BYTES \<le> usize_max"
    and "tcp_expire now r = (r', events)"
  shows "bt_get (tr_flows r') = (bt_get (tr_flows r)) |` (- expired_flows now r)
    \<and> events = farewells r (sorted_list_of_set (expired_flows now r))
    \<and> expiry_entries (tr_expiry r') = {(d, k). \<exists>st. bt_get (tr_flows r') k = Some st \<and> st_deadline st = Some d}"
proof -
  have "max_bytes_per_flow limits \<le> usize_max"
    using assms(2) by simp
  note ex = tcp_expire_ok [OF tcp_reachable_ok [OF assms(1,2)] this assms(3)]
  then show ?thesis
    by (simp add: table_ok_defs mirrors_def)
qed

lemma demo_expired: "expired_flows 20 demo_table = {demo_key}"
  by (auto simp: expired_flows_def demo_table_def demo_flow_def bt_get_def split: if_splits)

theorem tcp_expire_exact_witness:
  "snd (tcp_expire 20 demo_table) = [Evicted demo_key 0] \<and> bt_get (tr_flows (fst (tcp_expire 20 demo_table))) demo_key = None"
proof -
  obtain r' events where e: "tcp_expire 20 demo_table = (r', events)"
    by fastforce
  have "farewells demo_table [demo_key] = [Evicted demo_key 0]"
    by (simp add: farewells_def farewell_def demo_table_def demo_flow_def bt_get_def)
  then show ?thesis
    using tcp_expire_exact [OF demo_reachable demo_room e] by (simp add: e demo_expired)
qed

text \<open>
  C16: Flushing releases everything. Afterwards no flow is left, both aggregates are zero and the index
  is empty, and every flow had its farewell.
\<close>
theorem tcp_flush_releases_everything:
  assumes "tcp_reachable limits n r" and "n + max_bytes_per_flow limits + PAGE_BYTES \<le> usize_max"
    and "tcp_flush r = (r', events)"
  shows "tr_flows r' = [] \<and> tr_expiry r' = [] \<and> tr_aggregate_bytes r' = 0 \<and> tr_aggregate_memory_charge r' = 0
    \<and> events = concat (map (\<lambda>(k, st). farewell k st) (tr_flows r))"
proof -
  have "max_bytes_per_flow limits \<le> usize_max"
    using assms(2) by simp
  note fl = tcp_flush_ok [OF tcp_reachable_ok [OF assms(1,2)] this assms(3)]
  have bt: "btree_ok (tr_flows r)"
    using tcp_reachable_ok [OF assms(1,2)] by (simp add: table_ok_defs)
  have "expiry_entries (tr_expiry r') = {}"
    using fl(1,2) by (simp add: table_ok_defs mirrors_def bt_get_def)
  moreover have "farewells r (map fst (tr_flows r)) = concat (map (\<lambda>(k, st). farewell k st) (tr_flows r))"
    unfolding farewells_def map_map
    by (rule arg_cong [where f = concat], rule map_cong) (auto simp: bt_get_mem_iff [OF bt, THEN iffD2])
  ultimately show ?thesis
    using fl by (simp add: table_ok_defs map_total_bt_get expiry_entries_def)
qed

theorem tcp_flush_releases_everything_witness: "snd (tcp_flush demo_table) = [Evicted demo_key 0]"
proof -
  obtain r' events where e: "tcp_flush demo_table = (r', events)"
    by fastforce
  show ?thesis
    unfolding e snd_conv using tcp_flush_releases_everything [OF demo_reachable demo_room e]
    by (simp add: farewell_def demo_table_def demo_flow_def)
qed

end
