(* ===== verification/Headers.thy ===== *)
theory Headers
  imports Keys
begin

text \<open>
  The bounded walker over raw link, VLAN and IP header bytes (\<open>protocol/headers.rs\<close>) with the link
  types, VLAN tags and IP protocol numbers it reads (\<open>packet/link.rs\<close>,
  \<open>capture_file/link_type.rs\<close>, \<open>protocol/network.rs\<close>). A slice is a byte list; offsets stay
  within a slice, whose length is far below \<open>usize_max\<close>, so they are added as naturals. An
  iterator is a record with a \<open>next\<close> function that returns the item and the iterator after it.
\<close>

section \<open>Reading bytes\<close>

text \<open>\<open>first_chunk\<close>, \<open>u16::from_be_bytes([a, b])\<close> and \<open>u16::try_from\<close> of a length.\<close>

definition first_chunk :: "nat \<Rightarrow> bytes \<Rightarrow> bytes option" where
  "first_chunk n xs = (if n \<le> length xs then Some (take n xs) else None)"

definition be16 :: "u8 \<Rightarrow> u8 \<Rightarrow> u16" where
  "be16 a b = of_nat (be_nat [a, b])"

definition u16_try_from :: "usize \<Rightarrow> u16 option" where
  "u16_try_from n = (if n < 65536 then Some (of_nat n) else None)"

section \<open>Protocol numbers\<close>

definition HOP_BY_HOP :: u8 where "HOP_BY_HOP = 0"
definition TCP :: u8 where "TCP = 6"
definition UDP :: u8 where "UDP = 17"
definition ROUTING :: u8 where "ROUTING = 43"
definition FRAGMENT :: u8 where "FRAGMENT = 44"
definition ESP :: u8 where "ESP = 50"
definition AH :: u8 where "AH = 51"
definition ICMPV6 :: u8 where "ICMPV6 = 58"
definition NO_NEXT_HEADER :: u8 where "NO_NEXT_HEADER = 59"
definition DESTINATION_OPTIONS :: u8 where "DESTINATION_OPTIONS = 60"
definition SCTP :: u8 where "SCTP = 132"

lemmas ip_protocol_defs =
  HOP_BY_HOP_def TCP_def UDP_def ROUTING_def FRAGMENT_def ESP_def AH_def ICMPV6_def
  NO_NEXT_HEADER_def DESTINATION_OPTIONS_def SCTP_def

section \<open>Link types\<close>

datatype link_type = LinkType u32

datatype builtin_root = BsdNull | RootEthernet | RawIp | BsdLoop | LinuxSll | RootIpv4 | RootIpv6 | LinuxSll2

definition LINK_ETHERNET :: link_type where
  "LINK_ETHERNET = LinkType 1"

definition BUILTIN_ROOTS :: "(link_type \<times> builtin_root) list" where
  "BUILTIN_ROOTS =
     [(LinkType 0, BsdNull), (LINK_ETHERNET, RootEthernet), (LinkType 101, RawIp), (LinkType 12, RawIp),
      (LinkType 108, BsdLoop), (LinkType 113, LinuxSll), (LinkType 228, RootIpv4),
      (LinkType 229, RootIpv6), (LinkType 276, LinuxSll2)]"

definition root_protocol :: "link_type \<Rightarrow> builtin_root option" where
  "root_protocol t = map_option snd (find (\<lambda>e. fst e = t) BUILTIN_ROOTS)"

definition for_root_protocol :: "builtin_root \<Rightarrow> link_type option" where
  "for_root_protocol p = map_option fst (find (\<lambda>e. snd e = p) BUILTIN_ROOTS)"

definition is_raw_ip :: "link_type \<Rightarrow> bool" where
  "is_raw_ip t \<longleftrightarrow> root_protocol t \<in> {Some RawIp, Some RootIpv4, Some RootIpv6}"

section \<open>VLAN tags\<close>

datatype vlan_kind = Ieee8021Q | Ieee8021Ad

fun vlan_ether_type :: "vlan_kind \<Rightarrow> u16" where
  "vlan_ether_type Ieee8021Q = 0x8100"
| "vlan_ether_type Ieee8021Ad = 0x88a8"

definition vlan_from_ether_type :: "u16 \<Rightarrow> vlan_kind option" where
  "vlan_from_ether_type t =
     (if t = 0x8100 then Some Ieee8021Q else if t = 0x88a8 then Some Ieee8021Ad else None)"

record vlan_tag =
  tag_kind :: vlan_kind
  tag_priority :: u8
  tag_drop_eligible :: bool
  tag_vlan_id :: u16

definition vlan_from_tci :: "vlan_kind \<Rightarrow> u16 \<Rightarrow> vlan_tag" where
  "vlan_from_tci kind tci =
     \<lparr>tag_kind = kind, tag_priority = ucast (drop_bit 13 tci),
      tag_drop_eligible = (tci AND 0x1000 \<noteq> 0), tag_vlan_id = tci AND 0x0fff\<rparr>"

definition vlan_tci :: "vlan_tag \<Rightarrow> u16" where
  "vlan_tci t =
     (push_bit 13 (ucast (tag_priority t) AND 7)
      OR (if tag_drop_eligible t then push_bit 12 1 else 0)) OR (tag_vlan_id t AND 0x0fff)"

section \<open>Errors\<close>

datatype header =
  EthernetHeader | VlanTagHeader | IpHeader | Ipv4Header | Ipv4Option | Ipv6Header | Ipv6ExtensionHeader
| Ipv6Option

datatype header_error =
  Truncated header
| Length header
| Depth header usize
| UnknownIpVersion u8
| IpVersionMismatch u8 u8
| Jumbogram

section \<open>Ethernet\<close>

definition MAX_VLAN_DEPTH :: usize where "MAX_VLAN_DEPTH = 64"
definition MAX_IPV6_EXTENSIONS :: usize where "MAX_IPV6_EXTENSIONS = 64"
definition ETHERNET_LENGTH :: usize where "ETHERNET_LENGTH = 14"
definition VLAN_TAG_LENGTH :: usize where "VLAN_TAG_LENGTH = 4"

lemmas header_length_defs = MAX_VLAN_DEPTH_def MAX_IPV6_EXTENSIONS_def ETHERNET_LENGTH_def VLAN_TAG_LENGTH_def

record ethernet_header =
  eth_destination :: bytes
  eth_source :: bytes
  eth_vlan_tags :: "vlan_tag list"
  eth_ether_type :: u16

definition ethernet_base :: "bytes \<Rightarrow> (header_error, bytes \<times> bytes \<times> u16) outcome" where
  "ethernet_base frame =
     let_ok (ok_or (first_chunk ETHERNET_LENGTH frame) (Truncated EthernetHeader)) (\<lambda>header.
     Ok (slice_of header 0 6, slice_of header 6 12, be16 (header ! 12) (header ! 13)))"

function walk_vlan_tags ::
    "bytes \<Rightarrow> vlan_tag list \<Rightarrow> u16 \<Rightarrow> (header_error, vlan_tag list \<times> u16) outcome" where
  "walk_vlan_tags frame tags ether_type =
     (case vlan_from_ether_type ether_type of
        None \<Rightarrow> Ok (tags, ether_type)
      | Some kind \<Rightarrow>
          if length tags = MAX_VLAN_DEPTH then Err (Depth VlanTagHeader MAX_VLAN_DEPTH)
          else
            (case Option.bind (get_from frame (ETHERNET_LENGTH + length tags * VLAN_TAG_LENGTH))
                    (first_chunk VLAN_TAG_LENGTH) of
               None \<Rightarrow> Err (Truncated VlanTagHeader)
             | Some tag \<Rightarrow>
                 walk_vlan_tags frame (tags @ [vlan_from_tci kind (be16 (tag ! 0) (tag ! 1))])
                   (be16 (tag ! 2) (tag ! 3))))"
  by pat_completeness auto
termination
  by (relation "measure (\<lambda>(frame, tags, _). length frame - length tags)")
     (auto simp: get_from_def first_chunk_def header_length_defs bind_eq_Some_conv split: if_splits)

definition ethernet_walk :: "bytes \<Rightarrow> (header_error, ethernet_header) outcome" where
  "ethernet_walk frame =
     let_ok (ethernet_base frame) (\<lambda>(dst, src, ether_type).
     let_ok (walk_vlan_tags frame [] ether_type) (\<lambda>(tags, ether_type).
     Ok \<lparr>eth_destination = dst, eth_source = src, eth_vlan_tags = tags, eth_ether_type = ether_type\<rparr>))"

definition eth_payload_offset :: "ethernet_header \<Rightarrow> usize" where
  "eth_payload_offset h = ETHERNET_LENGTH + length (eth_vlan_tags h) * VLAN_TAG_LENGTH"

definition eth_ip_version :: "ethernet_header \<Rightarrow> u8 option" where
  "eth_ip_version h =
     (if eth_ether_type h = 0x0800 then Some 4 else if eth_ether_type h = 0x86dd then Some 6 else None)"

section \<open>IPv4\<close>

definition IPV4_MIN_LENGTH :: usize where "IPV4_MIN_LENGTH = 20"
definition IPV6_LENGTH :: usize where "IPV6_LENGTH = 40"

record ipv4_header =
  ipv4_header_length :: usize
  ipv4_total_length :: usize
  ipv4_identification :: u16
  ipv4_flags_and_offset :: u16
  ipv4_protocol :: u8

definition ipv4_walk_lengths :: "bytes \<Rightarrow> bool \<Rightarrow> (header_error, ipv4_header) outcome" where
  "ipv4_walk_lengths ip prefix =
     let_ok (ok_or (first_chunk IPV4_MIN_LENGTH ip) (Truncated Ipv4Header)) (\<lambda>fixed.
     let_ok (ensure (drop_bit 4 (fixed ! 0) = 4) (IpVersionMismatch 4 (drop_bit 4 (fixed ! 0)))) (\<lambda>_.
     let header_length = unat (fixed ! 0 AND 0x0f) * 4;
         total_length = unat (be16 (fixed ! 2) (fixed ! 3)) in
     let_ok (ensure (\<not> (header_length < IPV4_MIN_LENGTH \<or> total_length < header_length)) (Length Ipv4Header)) (\<lambda>_.
     let_ok (ensure (\<not> (header_length > length ip \<or> \<not> prefix \<and> total_length > length ip))
       (Truncated Ipv4Header)) (\<lambda>_.
     Ok \<lparr>ipv4_header_length = header_length, ipv4_total_length = total_length,
         ipv4_identification = be16 (fixed ! 4) (fixed ! 5),
         ipv4_flags_and_offset = be16 (fixed ! 6) (fixed ! 7), ipv4_protocol = fixed ! 9\<rparr>))))"

definition ipv4_walk :: "bytes \<Rightarrow> (header_error, ipv4_header) outcome" where
  "ipv4_walk ip = ipv4_walk_lengths ip False"

definition ipv4_walk_prefix :: "bytes \<Rightarrow> (header_error, ipv4_header) outcome" where
  "ipv4_walk_prefix ip = ipv4_walk_lengths ip True"

definition ipv4_reserved_flag :: "ipv4_header \<Rightarrow> bool" where
  "ipv4_reserved_flag h \<longleftrightarrow> ipv4_flags_and_offset h AND 0x8000 \<noteq> 0"

definition ipv4_dont_fragment :: "ipv4_header \<Rightarrow> bool" where
  "ipv4_dont_fragment h \<longleftrightarrow> ipv4_flags_and_offset h AND 0x4000 \<noteq> 0"

definition ipv4_is_fragment :: "ipv4_header \<Rightarrow> bool" where
  "ipv4_is_fragment h \<longleftrightarrow> ipv4_flags_and_offset h AND 0x3fff \<noteq> 0"

text \<open>An option iterator stands at a cursor in the bytes that hold the options.\<close>

record ip_option =
  option_kind :: u8
  option_start :: usize
  option_end :: usize

record option_cursor =
  cursor_bytes :: bytes
  cursor_at :: usize

definition ipv4_options :: "ipv4_header \<Rightarrow> bytes \<Rightarrow> option_cursor" where
  "ipv4_options h ip =
     \<lparr>cursor_bytes = take (min (ipv4_header_length h) (length ip)) ip, cursor_at = IPV4_MIN_LENGTH\<rparr>"

definition ipv4_options_next ::
    "option_cursor \<Rightarrow> (header_error, ip_option) outcome option \<times> option_cursor" where
  "ipv4_options_next c =
     (let header = cursor_bytes c; start = cursor_at c; stopped = c\<lparr>cursor_at := length header\<rparr> in
      case get_index header start of
        None \<Rightarrow> (None, c)
      | Some kind \<Rightarrow>
          if kind = 0 then (None, stopped)
          else
            (case (if kind = 1 then Some 1 else map_option unat (get_index header (start + 1))) of
               None \<Rightarrow> (Some (Err (Truncated Ipv4Option)), stopped)
             | Some len \<Rightarrow>
                 if kind \<noteq> 1 \<and> len < 2 \<or> start + len > length header
                 then (Some (Err (Length Ipv4Option)), stopped)
                 else (Some (Ok \<lparr>option_kind = kind, option_start = start, option_end = start + len\<rparr>),
                       c\<lparr>cursor_at := start + len\<rparr>)))"

section \<open>IPv6\<close>

definition is_walkable_ipv6_extension :: "u8 \<Rightarrow> bool" where
  "is_walkable_ipv6_extension next_header \<longleftrightarrow>
     next_header \<in> {HOP_BY_HOP, ROUTING, AH, DESTINATION_OPTIONS}"

definition ipv6_extension_header_length :: "u8 \<Rightarrow> u8 \<Rightarrow> usize option" where
  "ipv6_extension_header_length next_header encoded_length =
     (if next_header \<in> {HOP_BY_HOP, ROUTING, DESTINATION_OPTIONS} then
        Option.bind (checked_add (unat encoded_length) 1) (\<lambda>units. checked_mul units 8)
      else if next_header = AH then
        Option.bind (Option.bind (checked_add (unat encoded_length) 2) (\<lambda>words. checked_mul words 4))
          (\<lambda>len. if len \<ge> 12 then Some len else None)
      else None)"

record ipv6_extension =
  ext_protocol :: u8
  ext_offset :: usize
  ext_length :: usize
  ext_next_header :: u8
  ext_fragment :: "u16 option"

definition ext_end :: "ipv6_extension \<Rightarrow> usize" where
  "ext_end e = ext_offset e + ext_length e"

definition ext_fragment_offset :: "ipv6_extension \<Rightarrow> u16 option" where
  "ext_fragment_offset e = map_option (drop_bit 3) (ext_fragment e)"

definition ext_more_fragments :: "ipv6_extension \<Rightarrow> bool option" where
  "ext_more_fragments e = map_option (\<lambda>word. word AND 1 \<noteq> 0) (ext_fragment e)"

definition ext_is_fragment :: "ipv6_extension \<Rightarrow> bool" where
  "ext_is_fragment e = (case ext_fragment e of None \<Rightarrow> False | Some word \<Rightarrow> word AND 0xfff9 \<noteq> 0)"

record extension_chain =
  chain_bytes :: bytes
  chain_protocol :: u8
  chain_offset :: usize
  chain_limit :: usize
  chain_taken :: usize
  chain_done :: bool

definition chain_new :: "bytes \<Rightarrow> usize \<Rightarrow> u8 \<Rightarrow> extension_chain" where
  "chain_new bytes offset next_header =
     \<lparr>chain_bytes = bytes, chain_protocol = next_header, chain_offset = offset,
      chain_limit = MAX_IPV6_EXTENSIONS, chain_taken = 0, chain_done = False\<rparr>"

definition chain_position :: "extension_chain \<Rightarrow> u8 \<times> usize" where
  "chain_position c = (chain_protocol c, chain_offset c)"

definition chain_with_ceiling :: "usize \<Rightarrow> extension_chain \<Rightarrow> extension_chain" where
  "chain_with_ceiling ceiling c = c\<lparr>chain_limit := ceiling\<rparr>"

text \<open>The closure \<open>step\<close> of \<open>Ipv6ExtensionChain::next\<close>.\<close>

definition chain_step :: "extension_chain \<Rightarrow> (header_error, ipv6_extension) outcome" where
  "chain_step c =
     let_ok (ok_or (Option.bind (get_from (chain_bytes c) (chain_offset c)) (first_chunk 2))
       (Truncated Ipv6ExtensionHeader)) (\<lambda>prefix.
     let_ok (if chain_protocol c = FRAGMENT then Ok 8
             else ok_or (ipv6_extension_header_length (chain_protocol c) (prefix ! 1))
               (Length Ipv6ExtensionHeader)) (\<lambda>len.
     let_ok (ok_or (get_range (chain_bytes c) (chain_offset c) (chain_offset c + len))
       (Truncated Ipv6ExtensionHeader)) (\<lambda>header.
     Ok \<lparr>ext_protocol = chain_protocol c, ext_offset = chain_offset c, ext_length = len,
         ext_next_header = header ! 0,
         ext_fragment = (if chain_protocol c = FRAGMENT then Some (be16 (header ! 2) (header ! 3)) else None)\<rparr>)))"

definition chain_next ::
    "extension_chain \<Rightarrow> (header_error, ipv6_extension) outcome option \<times> extension_chain" where
  "chain_next c =
     (if chain_done c \<or> \<not> (chain_protocol c = FRAGMENT \<or> is_walkable_ipv6_extension (chain_protocol c))
      then (None, c)
      else if chain_taken c \<ge> chain_limit c
      then (Some (Err (Depth Ipv6ExtensionHeader (chain_limit c))), c\<lparr>chain_done := True\<rparr>)
      else
        (case chain_step c of
           Ok extension \<Rightarrow>
             (Some (Ok extension),
              c\<lparr>chain_taken := chain_taken c + 1, chain_offset := chain_offset c + ext_length extension,
                chain_protocol := ext_next_header extension,
                chain_done := (case ext_fragment_offset extension of None \<Rightarrow> False | Some units \<Rightarrow> units \<noteq> 0)\<rparr>)
         | Err e \<Rightarrow> (Some (Err e), c\<lparr>chain_done := True\<rparr>)
         | Panic \<Rightarrow> (Some Panic, c)))"

text \<open>An item consumes one of the chain's allowed steps, so every walk over the chain ends.\<close>

lemma chain_next_item:
  assumes "chain_next c = (Some (Ok x), c')"
  shows "chain_taken c < chain_limit c" and "chain_taken c' = chain_taken c + 1"
    and "chain_limit c' = chain_limit c" and "chain_step c = Ok x"
    and "chain_offset c' = chain_offset c + ext_length x" and "chain_protocol c' = ext_next_header x"
    and "chain_bytes c' = chain_bytes c"
    and "chain_done c' \<longleftrightarrow> (\<exists>units. ext_fragment_offset x = Some units \<and> units \<noteq> 0)"
    and "\<not> chain_done c"
    and "chain_protocol c = FRAGMENT \<or> is_walkable_ipv6_extension (chain_protocol c)"
  using assms by (auto simp: chain_next_def split: if_splits outcome.splits option.splits)

function walk_extensions ::
    "extension_chain \<Rightarrow> ipv6_extension list \<Rightarrow> (header_error, ipv6_extension list \<times> extension_chain) outcome" where
  "walk_extensions c extensions =
     (case chain_next c of
        (None, c') \<Rightarrow> Ok (extensions, c')
      | (Some item, c') \<Rightarrow> (case item of
            Ok extension \<Rightarrow> walk_extensions c' (extensions @ [extension])
          | Err e \<Rightarrow> Err e
          | Panic \<Rightarrow> Panic))"
  by pat_completeness auto
termination
  by (relation "measure (\<lambda>(c, _). chain_limit c - chain_taken c)")
     (auto dest!: sym [of "(Some (Ok _), _)"] simp: chain_next_item(2,3) intro!: diff_less_mono2 chain_next_item(1))

record ipv6_header =
  ipv6_payload_length :: usize
  ipv6_next_header :: u8
  ipv6_extensions :: "ipv6_extension list"
  ipv6_upper_layer_protocol :: u8
  ipv6_upper_layer_offset :: usize

definition ipv6_walk_fixed :: "bytes \<Rightarrow> (header_error, usize \<times> u8) outcome" where
  "ipv6_walk_fixed ip =
     let_ok (ok_or (first_chunk IPV6_LENGTH ip) (Truncated Ipv6Header)) (\<lambda>fixed.
     let_ok (ensure (drop_bit 4 (fixed ! 0) = 6) (IpVersionMismatch 6 (drop_bit 4 (fixed ! 0)))) (\<lambda>_.
     let payload_length = unat (be16 (fixed ! 4) (fixed ! 5)); next_header = fixed ! 6 in
     let_ok (ensure (\<not> (payload_length = 0 \<and> next_header \<noteq> NO_NEXT_HEADER)) Jumbogram) (\<lambda>_.
     Ok (payload_length, next_header))))"

definition ipv6_walk_chain :: "bytes \<Rightarrow> usize \<Rightarrow> u8 \<Rightarrow> (header_error, ipv6_header) outcome" where
  "ipv6_walk_chain datagram payload_length next_header =
     let_ok (walk_extensions (chain_new datagram IPV6_LENGTH next_header) []) (\<lambda>(extensions, chain).
     let (upper_layer, upper_layer_offset) = chain_position chain in
     Ok \<lparr>ipv6_payload_length = payload_length, ipv6_next_header = next_header,
         ipv6_extensions = extensions, ipv6_upper_layer_protocol = upper_layer,
         ipv6_upper_layer_offset = upper_layer_offset\<rparr>)"

definition ipv6_walk :: "bytes \<Rightarrow> (header_error, ipv6_header) outcome" where
  "ipv6_walk ip =
     let_ok (ipv6_walk_fixed ip) (\<lambda>(payload_length, next_header).
     let_ok (ok_or (get_range ip 0 (IPV6_LENGTH + payload_length)) (Truncated Ipv6Header)) (\<lambda>datagram.
     ipv6_walk_chain datagram payload_length next_header))"

definition ipv6_walk_prefix :: "bytes \<Rightarrow> (header_error, ipv6_header) outcome" where
  "ipv6_walk_prefix ip =
     let_ok (ipv6_walk_fixed ip) (\<lambda>(payload_length, next_header).
     let datagram = take (min (IPV6_LENGTH + payload_length) (length ip)) ip in
     ipv6_walk_chain datagram payload_length next_header)"

definition ipv6_datagram_length :: "ipv6_header \<Rightarrow> usize" where
  "ipv6_datagram_length h = IPV6_LENGTH + ipv6_payload_length h"

definition ipv6_is_fragment :: "ipv6_header \<Rightarrow> bool" where
  "ipv6_is_fragment h = list_ex ext_is_fragment (ipv6_extensions h)"

definition ipv6_upper_layer :: "ipv6_header \<Rightarrow> u8 \<times> usize" where
  "ipv6_upper_layer h = (ipv6_upper_layer_protocol h, ipv6_upper_layer_offset h)"

definition ext_options :: "ipv6_extension \<Rightarrow> bytes \<Rightarrow> option_cursor" where
  "ext_options e ip =
     (let carries_options = ext_protocol e \<in> {HOP_BY_HOP, DESTINATION_OPTIONS};
          stop = (if carries_options then min (ext_end e) (length ip) else 0) in
      \<lparr>cursor_bytes = take stop ip, cursor_at = ext_offset e + 2\<rparr>)"

definition ipv6_options_next ::
    "option_cursor \<Rightarrow> (header_error, ip_option) outcome option \<times> option_cursor" where
  "ipv6_options_next c =
     (let ip = cursor_bytes c; start = cursor_at c; stopped = c\<lparr>cursor_at := length ip\<rparr> in
      case get_index ip start of
        None \<Rightarrow> (None, c)
      | Some kind \<Rightarrow>
          (case (if kind = 0 then Some 1 else map_option (\<lambda>len. unat len + 2) (get_index ip (start + 1))) of
             None \<Rightarrow> (Some (Err (Truncated Ipv6Option)), stopped)
           | Some len \<Rightarrow>
               if start + len > length ip then (Some (Err (Length Ipv6Option)), stopped)
               else (Some (Ok \<lparr>option_kind = kind, option_start = start, option_end = start + len\<rparr>),
                     c\<lparr>cursor_at := start + len\<rparr>)))"

section \<open>Either version, behind a link header\<close>

datatype ip_header = IpV4 ipv4_header | IpV6 ipv6_header

definition ip_walk :: "bytes \<Rightarrow> (header_error, ip_header) outcome" where
  "ip_walk ip =
     (case get_index ip 0 of
        None \<Rightarrow> Err (Truncated IpHeader)
      | Some byte \<Rightarrow>
          let version = drop_bit 4 byte in
          if version = 4 then let_ok (ipv4_walk ip) (\<lambda>h. Ok (IpV4 h))
          else if version = 6 then let_ok (ipv6_walk ip) (\<lambda>h. Ok (IpV6 h))
          else Err (UnknownIpVersion version))"

fun ip_version :: "ip_header \<Rightarrow> u8" where
  "ip_version (IpV4 _) = 4"
| "ip_version (IpV6 _) = 6"

fun ip_datagram_length :: "ip_header \<Rightarrow> usize" where
  "ip_datagram_length (IpV4 h) = ipv4_total_length h"
| "ip_datagram_length (IpV6 h) = ipv6_datagram_length h"

fun ip_is_fragment :: "ip_header \<Rightarrow> bool" where
  "ip_is_fragment (IpV4 h) = ipv4_is_fragment h"
| "ip_is_fragment (IpV6 h) = ipv6_is_fragment h"

fun ip_upper_layer :: "ip_header \<Rightarrow> u8 \<times> usize" where
  "ip_upper_layer (IpV4 h) = (ipv4_protocol h, ipv4_header_length h)"
| "ip_upper_layer (IpV6 h) = ipv6_upper_layer h"

text \<open>\<open>addresses\<close> reads both addresses; \<open>read\<close> is its local helper for one of them.\<close>

definition read_address :: "bytes \<Rightarrow> nat \<Rightarrow> nat \<Rightarrow> header \<Rightarrow> (header_error, bytes) outcome" where
  "read_address ip start stop header = ok_or (get_range ip start stop) (Truncated header)"

fun ip_addresses :: "ip_header \<Rightarrow> bytes \<Rightarrow> (header_error, ip_addr \<times> ip_addr) outcome" where
  "ip_addresses (IpV4 _) ip =
     let_ok (read_address ip 12 16 Ipv4Header) (\<lambda>src.
     let_ok (read_address ip 16 20 Ipv4Header) (\<lambda>dst.
     Ok (V4 (of_nat (be_nat src)), V4 (of_nat (be_nat dst)))))"
| "ip_addresses (IpV6 _) ip =
     let_ok (read_address ip 8 24 Ipv6Header) (\<lambda>src.
     let_ok (read_address ip 24 40 Ipv6Header) (\<lambda>dst.
     Ok (V6 (of_nat (be_nat src)), V6 (of_nat (be_nat dst)))))"

datatype link_header = LinkEthernet ethernet_header | LinkRawIp "u8 option"

definition link_walk :: "link_type \<Rightarrow> bytes \<Rightarrow> (header_error, link_header option) outcome" where
  "link_walk t frame =
     (if t = LINK_ETHERNET then let_ok (ethernet_walk frame) (\<lambda>h. Ok (Some (LinkEthernet h)))
      else if \<not> is_raw_ip t then Ok None
      else
        let version = (case root_protocol t of
              Some RootIpv4 \<Rightarrow> Some 4 | Some RootIpv6 \<Rightarrow> Some 6 | _ \<Rightarrow> None) in
        Ok (Some (LinkRawIp version)))"

fun network_offset :: "link_header \<Rightarrow> usize" where
  "network_offset (LinkEthernet h) = eth_payload_offset h"
| "network_offset (LinkRawIp _) = 0"

fun carries_ip :: "link_header \<Rightarrow> bool" where
  "carries_ip (LinkEthernet h) = (eth_ip_version h \<noteq> None)"
| "carries_ip (LinkRawIp _) = True"

fun announced_ip_version :: "link_header \<Rightarrow> u8 option" where
  "announced_ip_version (LinkEthernet h) = eth_ip_version h"
| "announced_ip_version (LinkRawIp v) = v"

definition link_walk_ip :: "link_header \<Rightarrow> bytes \<Rightarrow> (header_error, ip_header option) outcome" where
  "link_walk_ip link frame =
     (if \<not> carries_ip link then Ok None
      else
        let_ok (ok_or (get_from frame (network_offset link)) (Truncated IpHeader)) (\<lambda>ip.
        let found = map_option (drop_bit 4) (get_index ip 0) in
        let_ok (case (announced_ip_version link, found) of
                  (Some e, Some f) \<Rightarrow> ensure (e = f) (IpVersionMismatch e f)
                | _ \<Rightarrow> Ok ()) (\<lambda>_.
        let_ok (ip_walk ip) (\<lambda>h. Ok (Some h)))))"

end
