(* ===== verification/Header_Walks.thy ===== *)
theory Header_Walks
  imports Headers
begin

text \<open>
  What the header walker establishes. Ethernet: a walk succeeds exactly on the frames that start
  with the bytes of the header it returns, so parsing and printing are inverse. IPv4 and IPv6: the
  lengths a walk returns lie inside the bytes it was given. IPv6 extensions: they tile the space
  between the base header and the upper layer, each announced by the one before it. Options: every
  item lies at the cursor, inside the bytes, and moves the cursor forward.
\<close>

section \<open>Two-byte words\<close>

lemma unat_be16: "unat (be16 a b) = unat a * 256 + unat b"
proof -
  have "unat (be16 a b) = be_nat [a, b]"
    unfolding be16_def by (rule unat_be_pair)
  then show ?thesis
    by (simp add: be_nat_Cons)
qed

lemma be_bytes_be16 [simp]: "be_bytes 2 (unat (be16 a b)) = [a, b]"
proof -
  have "unat (be16 a b) = be_nat [a, b]"
    unfolding be16_def by (rule unat_be_pair)
  then show ?thesis
    using be_bytes_be_nat [of "[a, b]"] by (simp add: numeral_2_eq_2)
qed

lemma be_bytes_2: "be_bytes 2 n = [of_nat (n div 256 mod 256), of_nat (n mod 256)]"
  by (simp add: numeral_2_eq_2)

lemma be16_be_bytes:
  fixes w :: u16
  shows "be16 (be_bytes 2 (unat w) ! 0) (be_bytes 2 (unat w) ! 1) = w"
proof -
  have "unat w < 65536"
    using unsigned_less [of w] by simp
  then have "be_nat (be_bytes 2 (unat w)) = unat w"
    by (intro be_nat_be_bytes) simp
  moreover have "[be_bytes 2 (unat w) ! 0, be_bytes 2 (unat w) ! 1] = be_bytes 2 (unat w)"
    by (simp add: be_bytes_2)
  ultimately show ?thesis
    by (simp add: be16_def)
qed

lemma first_chunk_iff [checked_iff]:
  "first_chunk n xs = Some ys \<longleftrightarrow> n \<le> length xs \<and> ys = take n xs"
  "first_chunk n xs = None \<longleftrightarrow> length xs < n"
  by (auto simp: first_chunk_def)

lemma get_from_iff [checked_iff]:
  "get_from xs i = Some ys \<longleftrightarrow> i \<le> length xs \<and> ys = drop i xs"
  "get_from xs i = None \<longleftrightarrow> length xs < i"
  by (auto simp: get_from_def)

section \<open>Ethernet\<close>

lemma vlan_from_ether_type_Some: "vlan_from_ether_type t = Some k \<longleftrightarrow> t = vlan_ether_type k"
  by (cases k) (auto simp: vlan_from_ether_type_def)

lemma vlan_tci_from_tci: "vlan_tci (vlan_from_tci k t) = t"
proof (rule bit_word_eqI)
  have flag: "t AND 0x1000 = 0 \<longleftrightarrow> \<not> bit t 12"
    using and_exp_eq_0_iff_not_bit [of t 12] by simp
  have id_bits: "(0x0fff :: u16) = mask 12" and three: "(7 :: u16) = mask 3"
    by (simp_all add: mask_eq_exp_minus_1)
  have "bit (2 ^ 12 :: int) n \<longleftrightarrow> n = 12" for n
    by (simp only: bit_exp_iff) auto
  then have only: "bit (0x1000 :: int) n \<longleftrightarrow> n = 12" for n
    by simp
  fix n
  assume "n < LENGTH(16)"
  then have "n < 16"
    by simp
  then consider "n < 12" | "n = 12" | "n = 13" | "n = 14" | "n = 15"
    by linarith
  then show "bit (vlan_tci (vlan_from_tci k t)) n = bit t n"
    unfolding vlan_tci_def vlan_from_tci_def id_bits three vlan_tag.simps
    by cases (auto simp: flag only bit_simps)
qed

text \<open>The bytes of a header: both addresses, the tags, and the final EtherType.\<close>

definition tag_bytes :: "vlan_tag \<Rightarrow> bytes" where
  "tag_bytes t = be_bytes 2 (unat (vlan_ether_type (tag_kind t))) @ be_bytes 2 (unat (vlan_tci t))"

definition ethernet_bytes :: "ethernet_header \<Rightarrow> bytes" where
  "ethernet_bytes h = eth_destination h @ eth_source h @ concat (map tag_bytes (eth_vlan_tags h))
     @ be_bytes 2 (unat (eth_ether_type h))"

definition ethernet_ok :: "ethernet_header \<Rightarrow> bool" where
  "ethernet_ok h \<longleftrightarrow> length (eth_destination h) = 6 \<and> length (eth_source h) = 6
     \<and> length (eth_vlan_tags h) \<le> MAX_VLAN_DEPTH
     \<and> (\<forall>t\<in>set (eth_vlan_tags h). vlan_from_tci (tag_kind t) (vlan_tci t) = t)
     \<and> vlan_from_ether_type (eth_ether_type h) = None"

lemma length_tag_bytes [simp]: "length (tag_bytes t) = 4"
  by (simp add: tag_bytes_def)

lemma length_concat_tag_bytes: "length (concat (map tag_bytes ts)) = length ts * 4"
  by (induction ts) auto

declare walk_vlan_tags.simps [simp del]

lemma take_4_nth:
  assumes "4 \<le> length xs"
  shows "take 4 xs = [xs ! 0, xs ! 1, xs ! 2, xs ! 3]"
  using assms by (auto intro!: nth_equalityI simp: nth_Cons less_Suc_eq numeral_eq_Suc split: nat.splits)

lemma walk_vlan_tags_sound:
  assumes "walk_vlan_tags frame tags et = Ok (tags', et')" and "length tags \<le> MAX_VLAN_DEPTH"
    and "14 + length tags * 4 \<le> length frame"
  shows "\<exists>new. tags' = tags @ new \<and> length tags' \<le> MAX_VLAN_DEPTH \<and> vlan_from_ether_type et' = None
    \<and> (\<forall>t\<in>set new. vlan_from_tci (tag_kind t) (vlan_tci t) = t)
    \<and> 14 + length tags' * 4 \<le> length frame
    \<and> be_bytes 2 (unat et) @ take (length new * 4) (drop (14 + length tags * 4) frame)
        = concat (map tag_bytes new) @ be_bytes 2 (unat et')"
  using assms
proof (induction frame tags et rule: walk_vlan_tags.induct)
  case (1 frame tags et)
  show ?case
  proof (cases "vlan_from_ether_type et")
    case None
    with 1 show ?thesis
      by (intro exI [of _ "[]"]) (simp add: walk_vlan_tags.simps)
  next
    case (Some kind)
    let ?off = "14 + length tags * 4"
    let ?bs = "drop ?off frame"
    have depth: "length tags \<noteq> MAX_VLAN_DEPTH" and room: "?off + 4 \<le> length frame"
      using 1(2) Some
      by (auto simp: walk_vlan_tags.simps [of frame tags] header_length_defs first_chunk_def get_from_def
        split: if_splits option.splits)
    let ?t = "vlan_from_tci kind (be16 (?bs ! 0) (?bs ! 1))"
    let ?next = "be16 (?bs ! 2) (?bs ! 3)"
    have chunk: "Option.bind (get_from frame (ETHERNET_LENGTH + length tags * VLAN_TAG_LENGTH))
        (first_chunk VLAN_TAG_LENGTH) = Some (take 4 ?bs)"
      using room by (auto simp: header_length_defs first_chunk_def get_from_def)
    have step: "walk_vlan_tags frame tags et = walk_vlan_tags frame (tags @ [?t]) ?next"
      using Some depth chunk by (subst walk_vlan_tags.simps) simp
    have "\<exists>new. tags' = (tags @ [?t]) @ new \<and> length tags' \<le> MAX_VLAN_DEPTH \<and> vlan_from_ether_type et' = None
      \<and> (\<forall>t\<in>set new. vlan_from_tci (tag_kind t) (vlan_tci t) = t)
      \<and> 14 + length tags' * 4 \<le> length frame
      \<and> be_bytes 2 (unat ?next) @ take (length new * 4) (drop (14 + length (tags @ [?t]) * 4) frame)
          = concat (map tag_bytes new) @ be_bytes 2 (unat et')"
    proof -
      have "take 4 ?bs ! i = ?bs ! i" if "i < 4" for i
        using that by simp
      then have "walk_vlan_tags frame (tags @ [vlan_from_tci kind (be16 (take 4 ?bs ! 0) (take 4 ?bs ! 1))])
          (be16 (take 4 ?bs ! 2) (take 4 ?bs ! 3)) = Ok (tags', et')"
        using step 1(2) by simp
      from 1(1) [OF Some depth chunk this] show ?thesis
        using 1(3,4) depth room by (simp add: header_length_defs)
    qed
    then obtain new where new: "tags' = (tags @ [?t]) @ new" "length tags' \<le> MAX_VLAN_DEPTH"
      "vlan_from_ether_type et' = None" "\<forall>t\<in>set new. vlan_from_tci (tag_kind t) (vlan_tci t) = t"
      "14 + length tags' * 4 \<le> length frame"
      and bytes: "be_bytes 2 (unat ?next) @ take (length new * 4) (drop (?off + 4) frame)
          = concat (map tag_bytes new) @ be_bytes 2 (unat et')"
      by (auto simp: add.assoc)
    have "be_bytes 2 (unat et) @ take (length (?t # new) * 4) ?bs
        = be_bytes 2 (unat et) @ take 4 ?bs @ take (length new * 4) (drop (?off + 4) frame)"
      using take_add [of 4 "length new * 4" ?bs] by (simp add: add.commute)
    also have "\<dots> = tag_bytes ?t @ be_bytes 2 (unat ?next) @ take (length new * 4) (drop (?off + 4) frame)"
      using Some room
      by (simp add: take_4_nth tag_bytes_def vlan_tci_from_tci vlan_from_ether_type_Some)
         (simp add: vlan_from_tci_def)
    also have "\<dots> = concat (map tag_bytes (?t # new)) @ be_bytes 2 (unat et')"
      using bytes by simp
    finally have "be_bytes 2 (unat et) @ take (length (?t # new) * 4) ?bs
        = concat (map tag_bytes (?t # new)) @ be_bytes 2 (unat et')" .
    moreover have "vlan_from_tci (tag_kind ?t) (vlan_tci ?t) = ?t"
      by (simp add: vlan_tci_from_tci) (simp add: vlan_from_tci_def)
    ultimately show ?thesis
      using new by (intro exI [of _ "?t # new"]) simp
  qed
qed

lemma take_drop_rest: "take n (drop i xs) @ drop (i + n) xs = drop i xs"
  using append_take_drop_id [of n "drop i xs"] by (simp add: add.commute)

lemma two_bytes:
  assumes "i + 2 \<le> length xs"
  shows "[xs ! i, xs ! (i + 1)] @ drop (i + 2) xs = drop i xs"
  using assms Cons_nth_drop_Suc [of i xs] Cons_nth_drop_Suc [of "Suc i" xs] by simp

lemma be_bytes_u16_inject: "be_bytes 2 (unat (a :: u16)) = be_bytes 2 (unat b) \<longleftrightarrow> a = b"
  using be16_be_bytes [of a] be16_be_bytes [of b] by metis

lemma be_bytes_u16_prefix:
  "be_bytes 2 (unat (a :: u16)) @ xs = be_bytes 2 (unat b) @ ys \<longleftrightarrow> a = b \<and> xs = ys"
  by (simp add: be_bytes_u16_inject)

lemma walk_vlan_tags_complete:
  assumes "be_bytes 2 (unat et) @ drop (14 + length tags * 4) frame
      = concat (map tag_bytes new) @ be_bytes 2 (unat et') @ rest"
    and "\<forall>t\<in>set new. vlan_from_tci (tag_kind t) (vlan_tci t) = t"
    and "vlan_from_ether_type et' = None" and "length (tags @ new) \<le> MAX_VLAN_DEPTH"
    and "14 + length tags * 4 \<le> length frame"
  shows "walk_vlan_tags frame tags et = Ok (tags @ new, et')"
  using assms
proof (induction new arbitrary: tags et)
  case Nil
  then have "et = et'"
    by (simp add: be_bytes_u16_prefix)
  with Nil show ?case
    by (simp add: walk_vlan_tags.simps)
next
  case (Cons t new)
  let ?bs = "drop (14 + length tags * 4) frame"
  let ?tail = "concat (map tag_bytes new) @ be_bytes 2 (unat et') @ rest"
  have et: "et = vlan_ether_type (tag_kind t)" and bs: "?bs = be_bytes 2 (unat (vlan_tci t)) @ ?tail"
    using Cons.prems(1) by (simp_all add: tag_bytes_def [of t] be_bytes_u16_prefix)
  have "2 \<le> length ?tail"
    by simp
  then have room: "4 \<le> length ?bs" and nx: "drop 2 ?bs = ?tail"
    unfolding bs by simp_all
  then have len: "14 + length (tags @ [t]) * 4 \<le> length frame"
    by simp
  have "?bs ! i = be_bytes 2 (unat (vlan_tci t)) ! i" if "i < 2" for i
    unfolding bs using that by (simp add: nth_append)
  then have tci: "be16 (?bs ! 0) (?bs ! 1) = vlan_tci t"
    using be16_be_bytes [of "vlan_tci t"] by simp
  have tag: "vlan_from_tci (tag_kind t) (be16 (?bs ! 0) (?bs ! 1)) = t"
    using Cons.prems(2) by (simp only: tci) simp
  let ?next = "be16 (?bs ! 2) (?bs ! 3)"
  have "be_bytes 2 (unat ?next) @ drop (14 + length (tags @ [t]) * 4) frame = drop 2 ?bs"
    using room two_bytes [of 2 ?bs] by (simp add: add.commute)
  then have rec: "walk_vlan_tags frame (tags @ [t]) ?next = Ok ((tags @ [t]) @ new, et')"
    using Cons.prems nx len by (intro Cons.IH) auto
  have chunk: "Option.bind (get_from frame (ETHERNET_LENGTH + length tags * VLAN_TAG_LENGTH))
      (first_chunk VLAN_TAG_LENGTH) = Some (take 4 ?bs)"
    using room Cons.prems(5) by (simp add: header_length_defs first_chunk_def get_from_def)
  have "walk_vlan_tags frame tags et
      = walk_vlan_tags frame (tags @ [vlan_from_tci (tag_kind t) (be16 (?bs ! 0) (?bs ! 1))]) ?next"
    using chunk Cons.prems(4)
    by (subst walk_vlan_tags.simps) (simp add: et vlan_from_ether_type_Some [THEN iffD2])
  then show ?case
    using rec tag by simp
qed

text \<open>
  A walk succeeds exactly when the frame starts with the bytes of the header it returns, the header
  being one the format can carry: at most \<open>MAX_VLAN_DEPTH\<close> tags and an EtherType that opens no further tag.
\<close>

lemma ethernet_base_Ok:
  "ethernet_base frame = Ok (d, s, et) \<longleftrightarrow> 14 \<le> length frame \<and> d = take 6 frame
     \<and> s = take 6 (drop 6 frame) \<and> et = be16 (frame ! 12) (frame ! 13)"
  by (auto simp: ethernet_base_def outcome_iff checked_iff header_length_defs slice_of_def drop_take)

lemma ethernet_walk_iff:
  "ethernet_walk frame = Ok h \<longleftrightarrow> ethernet_ok h \<and> (\<exists>rest. frame = ethernet_bytes h @ rest)"
proof
  assume "ethernet_walk frame = Ok h"
  then obtain tags et where base: "14 \<le> length frame" "eth_destination h = take 6 frame"
      "eth_source h = take 6 (drop 6 frame)" "eth_vlan_tags h = tags" "eth_ether_type h = et"
    and walk: "walk_vlan_tags frame [] (be16 (frame ! 12) (frame ! 13)) = Ok (tags, et)"
    by (auto simp: ethernet_walk_def outcome_iff ethernet_base_Ok)
  have tags: "length tags \<le> MAX_VLAN_DEPTH" "vlan_from_ether_type et = None"
      "\<forall>t\<in>set tags. vlan_from_tci (tag_kind t) (vlan_tci t) = t" "14 + length tags * 4 \<le> length frame"
    and bytes: "[frame ! 12, frame ! 13] @ take (length tags * 4) (drop 14 frame)
        = concat (map tag_bytes tags) @ be_bytes 2 (unat et)"
    using walk_vlan_tags_sound [OF walk] base(1) by auto
  have "frame = take 6 frame @ drop 6 frame"
    by simp
  also have "drop 6 frame = take 6 (drop 6 frame) @ drop 12 frame"
    using take_drop_rest [of 6 6 frame] by simp
  also have "drop 12 frame = [frame ! 12, frame ! 13] @ drop 14 frame"
    using two_bytes [of 12 frame] base(1) by simp
  also have "drop 14 frame = take (length tags * 4) (drop 14 frame) @ drop (14 + length tags * 4) frame"
    by (simp only: take_drop_rest)
  finally have "frame = take 6 frame @ take 6 (drop 6 frame)
      @ ([frame ! 12, frame ! 13] @ take (length tags * 4) (drop 14 frame)) @ drop (14 + length tags * 4) frame"
    by simp
  then have "frame = ethernet_bytes h @ drop (14 + length tags * 4) frame"
    unfolding ethernet_bytes_def base bytes by simp
  moreover have "ethernet_ok h"
    using base tags by (simp add: ethernet_ok_def)
  ultimately show "ethernet_ok h \<and> (\<exists>rest. frame = ethernet_bytes h @ rest)"
    by blast
next
  assume "ethernet_ok h \<and> (\<exists>rest. frame = ethernet_bytes h @ rest)"
  then obtain rest where ok: "ethernet_ok h" and frame: "frame = ethernet_bytes h @ rest"
    by blast
  let ?tail = "concat (map tag_bytes (eth_vlan_tags h)) @ be_bytes 2 (unat (eth_ether_type h)) @ rest"
  have tail: "drop 12 frame = ?tail" and len: "14 \<le> length frame"
    and addr: "take 6 frame = eth_destination h" "take 6 (drop 6 frame) = eth_source h"
    using ok unfolding frame ethernet_bytes_def ethernet_ok_def by simp_all
  have "be_bytes 2 (unat (be16 (frame ! 12) (frame ! 13))) @ drop (14 + length ([] :: vlan_tag list) * 4) frame = drop 12 frame"
    using len two_bytes [of 12 frame] by simp
  then have "walk_vlan_tags frame [] (be16 (frame ! 12) (frame ! 13)) = Ok ([] @ eth_vlan_tags h, eth_ether_type h)"
    using ok len tail by (intro walk_vlan_tags_complete [where rest = rest]) (auto simp: ethernet_ok_def)
  then show "ethernet_walk frame = Ok h"
    using addr len by (auto simp: ethernet_walk_def outcome_iff ethernet_base_Ok)
qed

section \<open>IPv4\<close>

lemma nibble_less: "unat (b AND 0x0f :: u8) < 16"
proof -
  have "b AND 0x0f = take_bit 4 b"
    by (simp add: take_bit_eq_mask mask_eq_exp_minus_1)
  then show ?thesis
    by (simp add: take_bit_eq_mod unat_mod)
qed

lemma u16_less: "unat (w :: u16) < 65536"
  using unsigned_less [of w] by simp

text \<open>Every length a successful walk returns is one the bytes can carry.\<close>

lemma ipv4_walk_lengths_bounds:
  assumes "ipv4_walk_lengths ip prefix = Ok h"
  shows "20 \<le> ipv4_header_length h" and "ipv4_header_length h \<le> 60" and "ipv4_header_length h mod 4 = 0"
    and "ipv4_header_length h \<le> ipv4_total_length h" and "ipv4_total_length h < 65536"
    and "ipv4_header_length h \<le> length ip" and "\<not> prefix \<Longrightarrow> ipv4_total_length h \<le> length ip"
  using assms nibble_less [of "ip ! 0"]
  by (auto simp: ipv4_walk_lengths_def outcome_iff checked_iff IPV4_MIN_LENGTH_def u16_less not_less Let_def)

text \<open>The fields are the words of the header.\<close>

lemma ipv4_walk_lengths_fields:
  assumes "ipv4_walk_lengths ip prefix = Ok h"
  shows "drop_bit 4 (ip ! 0) = 4" and "ipv4_header_length h = unat (ip ! 0 AND 0x0f) * 4"
    and "ipv4_total_length h = unat (be16 (ip ! 2) (ip ! 3))"
    and "ipv4_identification h = be16 (ip ! 4) (ip ! 5)"
    and "ipv4_flags_and_offset h = be16 (ip ! 6) (ip ! 7)" and "ipv4_protocol h = ip ! 9"
  using assms by (auto simp: ipv4_walk_lengths_def outcome_iff checked_iff IPV4_MIN_LENGTH_def Let_def)

lemma ipv4_walk_lengths_no_panic: "ipv4_walk_lengths ip prefix \<noteq> Panic"
  by (auto simp: ipv4_walk_lengths_def outcome_iff Let_def)

section \<open>Options\<close>

text \<open>
  An item covers a non-empty range that starts at the cursor and ends at the next one, inside the
  bytes; anything but an item leaves a cursor from which nothing more is yielded.
\<close>

lemma ipv4_options_item:
  assumes "ipv4_options_next c = (Some (Ok x), c')"
  shows "option_start x = cursor_at c" and "option_end x = cursor_at c'" and "cursor_at c < cursor_at c'"
    and "cursor_at c' \<le> length (cursor_bytes c)" and "cursor_bytes c' = cursor_bytes c"
    and "option_kind x = cursor_bytes c ! cursor_at c"
  using assms
  by (auto simp: ipv4_options_next_def Let_def checked_iff split: option.splits if_splits)

lemma ipv4_options_no_panic: "ipv4_options_next c \<noteq> (Some Panic, c')"
  by (auto simp: ipv4_options_next_def Let_def split: option.splits if_splits)

lemma ipv4_options_stops:
  assumes "ipv4_options_next c = (item, c')" and "\<nexists>x. item = Some (Ok x)"
  shows "ipv4_options_next c' = (None, c')"
  using assms
  by (auto simp: ipv4_options_next_def Let_def get_index_def split: option.splits if_splits)

lemma ipv6_options_item:
  assumes "ipv6_options_next c = (Some (Ok x), c')"
  shows "option_start x = cursor_at c" and "option_end x = cursor_at c'" and "cursor_at c < cursor_at c'"
    and "cursor_at c' \<le> length (cursor_bytes c)" and "cursor_bytes c' = cursor_bytes c"
  using assms
  by (auto simp: ipv6_options_next_def Let_def checked_iff split: option.splits if_splits)

lemma ipv6_options_stops:
  assumes "ipv6_options_next c = (item, c')" and "\<nexists>x. item = Some (Ok x)"
  shows "ipv6_options_next c' = (None, c')"
  using assms
  by (auto simp: ipv6_options_next_def Let_def get_index_def split: option.splits if_splits)

section \<open>The IPv6 extension chain\<close>

text \<open>
  \<open>linked p off es q stop\<close>: the extensions start at offset \<open>off\<close> where protocol \<open>p\<close> is announced, each
  begins where the one before it ends and has the protocol that one announced, and protocol \<open>q\<close>
  is announced at \<open>stop\<close>.
\<close>

fun linked :: "u8 \<Rightarrow> usize \<Rightarrow> ipv6_extension list \<Rightarrow> u8 \<Rightarrow> usize \<Rightarrow> bool" where
  "linked p off [] q stop \<longleftrightarrow> p = q \<and> off = stop"
| "linked p off (e # es) q stop \<longleftrightarrow>
     ext_protocol e = p \<and> ext_offset e = off \<and> linked (ext_next_header e) (ext_end e) es q stop"

definition later_fragment :: "ipv6_extension \<Rightarrow> bool" where
  "later_fragment e \<longleftrightarrow> (\<exists>units. ext_fragment_offset e = Some units \<and> units \<noteq> 0)"

definition extension_in :: "bytes \<Rightarrow> ipv6_extension \<Rightarrow> bool" where
  "extension_in bs e \<longleftrightarrow> 8 \<le> ext_length e \<and> ext_end e \<le> length bs
     \<and> (ext_protocol e = FRAGMENT \<or> is_walkable_ipv6_extension (ext_protocol e))
     \<and> ext_next_header e = bs ! ext_offset e
     \<and> ext_fragment e = (if ext_protocol e = FRAGMENT
          then Some (be16 (bs ! (ext_offset e + 2)) (bs ! (ext_offset e + 3))) else None)"

lemma linked_snoc:
  "linked p off (es @ [e]) q stop \<longleftrightarrow>
     linked p off es (ext_protocol e) (ext_offset e) \<and> q = ext_next_header e \<and> stop = ext_end e"
  by (induction es arbitrary: p off) auto

lemma extension_length_ge: "ipv6_extension_header_length p n = Some len \<Longrightarrow> 8 \<le> len"
  by (auto simp: ipv6_extension_header_length_def bind_eq_Some_conv checked_iff split: if_splits)

lemma chain_step_Ok:
  assumes "chain_step c = Ok x"
    and "chain_protocol c = FRAGMENT \<or> is_walkable_ipv6_extension (chain_protocol c)"
  shows "ext_protocol x = chain_protocol c" and "ext_offset x = chain_offset c"
    and "extension_in (chain_bytes c) x"
proof -
  obtain p len hd where step: "chain_offset c + len \<le> length (chain_bytes c)" "8 \<le> len"
      "hd = slice_of (chain_bytes c) (chain_offset c) (chain_offset c + len)"
      "x = \<lparr>ext_protocol = chain_protocol c, ext_offset = chain_offset c, ext_length = len,
         ext_next_header = hd ! 0,
         ext_fragment = (if chain_protocol c = FRAGMENT then Some (be16 (hd ! 2) (hd ! 3)) else None)\<rparr>"
    using assms(1)
    by (auto simp: chain_step_def outcome_iff checked_iff dest: extension_length_ge split: if_splits)
  have "hd ! i = chain_bytes c ! (chain_offset c + i)" if "i < 8" for i
    using step(1,2) that unfolding step(3) by (simp add: nth_slice_of)
  then show "extension_in (chain_bytes c) x" "ext_protocol x = chain_protocol c" "ext_offset x = chain_offset c"
    using step assms(2) by (simp_all add: extension_in_def ext_end_def)
qed

lemma chain_step_no_panic: "chain_step c \<noteq> Panic"
  by (auto simp: chain_step_def outcome_iff)

lemma chain_next_stops:
  assumes "chain_next c = (None, c')"
  shows "c' = c"
    and "chain_done c \<or> \<not> (chain_protocol c = FRAGMENT \<or> is_walkable_ipv6_extension (chain_protocol c))"
  using assms by (auto simp: chain_next_def split: if_splits outcome.splits)

declare walk_extensions.simps [simp del]

lemma walk_extensions_invariant:
  assumes "walk_extensions c acc = Ok (es, c')"
    and "I acc c"
    and "\<And>acc c x c'. I acc c \<Longrightarrow> chain_next c = (Some (Ok x), c') \<Longrightarrow> I (acc @ [x]) c'"
  shows "I es c' \<and> chain_next c' = (None, c')"
  using assms
proof (induction c acc rule: walk_extensions.induct)
  case (1 c acc)
  obtain item c'' where nx: "chain_next c = (item, c'')"
    by fastforce
  show ?case
  proof (cases item)
    case None
    then show ?thesis
      using 1 nx chain_next_stops(1) [of c c''] by (auto simp: walk_extensions.simps)
  next
    case (Some it)
    then obtain x where "it = Ok x"
      using 1(2) nx by (auto simp: walk_extensions.simps [of c] split: outcome.splits)
    with Some 1 nx show ?thesis
      by (auto simp: walk_extensions.simps [of c])
  qed
qed

definition walked :: "bytes \<Rightarrow> u8 \<Rightarrow> usize \<Rightarrow> ipv6_extension list \<Rightarrow> extension_chain \<Rightarrow> bool" where
  "walked bs p off es c \<longleftrightarrow> chain_bytes c = bs \<and> linked p off es (chain_protocol c) (chain_offset c)
     \<and> (\<forall>e\<in>set es. extension_in bs e) \<and> chain_taken c = length es \<and> length es \<le> chain_limit c
     \<and> (chain_done c \<longleftrightarrow> es \<noteq> [] \<and> later_fragment (last es))
     \<and> (\<forall>e\<in>set (butlast es). \<not> later_fragment e) \<and> chain_limit c = MAX_IPV6_EXTENSIONS"

lemma walked_step:
  assumes "walked bs p off es c" and "chain_next c = (Some (Ok x), c')"
  shows "walked bs p off (es @ [x]) c'"
proof -
  note nx = chain_next_item [OF assms(2)]
  note x = chain_step_Ok [OF nx(4) nx(10)]
  have "\<forall>e\<in>set es. \<not> later_fragment e"
    using assms(1) nx(9) unfolding walked_def by (cases es rule: rev_cases) auto
  then show ?thesis
    using assms(1) nx x
    by (auto simp: walked_def linked_snoc ext_end_def later_fragment_def)
qed

text \<open>
  What a walk over an IPv6 datagram returns: extensions that tile the bytes between the base header
  and the upper layer, at most \<open>MAX_IPV6_EXTENSIONS\<close> of them, each read from the bytes it lies in. The
  walk stops at the first protocol that is not a walked extension, or behind a fragment header
  that does not start the datagram.
\<close>

lemma linked_end: "linked p off es q stop \<Longrightarrow> stop = (if es = [] then off else ext_end (last es))"
  by (cases es rule: rev_cases) (auto simp: linked_snoc)

lemma ipv6_walk_chain_walked:
  assumes "ipv6_walk_chain bs n p = Ok h"
  shows "ipv6_payload_length h = n" and "ipv6_next_header h = p"
    and "linked p IPV6_LENGTH (ipv6_extensions h) (ipv6_upper_layer_protocol h) (ipv6_upper_layer_offset h)"
    and "length (ipv6_extensions h) \<le> MAX_IPV6_EXTENSIONS"
    and "\<forall>e\<in>set (ipv6_extensions h). extension_in bs e"
    and "\<forall>e\<in>set (butlast (ipv6_extensions h)). \<not> later_fragment e"
    and "(ipv6_extensions h \<noteq> [] \<and> later_fragment (last (ipv6_extensions h)))
      \<or> \<not> (ipv6_upper_layer_protocol h = FRAGMENT \<or> is_walkable_ipv6_extension (ipv6_upper_layer_protocol h))"
proof -
  obtain es c where w: "walk_extensions (chain_new bs IPV6_LENGTH p) [] = Ok (es, c)"
      and h: "h = \<lparr>ipv6_payload_length = n, ipv6_next_header = p, ipv6_extensions = es,
         ipv6_upper_layer_protocol = chain_protocol c, ipv6_upper_layer_offset = chain_offset c\<rparr>"
    using assms by (auto simp: ipv6_walk_chain_def outcome_iff chain_position_def)
  have "walked bs p IPV6_LENGTH es c \<and> chain_next c = (None, c)"
    using w
  proof (rule walk_extensions_invariant)
    show "walked bs p IPV6_LENGTH [] (chain_new bs IPV6_LENGTH p)"
      by (simp add: walked_def chain_new_def)
  qed (rule walked_step)
  then show "ipv6_payload_length h = n" "ipv6_next_header h = p"
    "linked p IPV6_LENGTH (ipv6_extensions h) (ipv6_upper_layer_protocol h) (ipv6_upper_layer_offset h)"
    "length (ipv6_extensions h) \<le> MAX_IPV6_EXTENSIONS"
    "\<forall>e\<in>set (ipv6_extensions h). extension_in bs e"
    "\<forall>e\<in>set (butlast (ipv6_extensions h)). \<not> later_fragment e"
    "(ipv6_extensions h \<noteq> [] \<and> later_fragment (last (ipv6_extensions h)))
      \<or> \<not> (ipv6_upper_layer_protocol h = FRAGMENT \<or> is_walkable_ipv6_extension (ipv6_upper_layer_protocol h))"
    using chain_next_stops(2) [of c c] by (auto simp: walked_def h)
qed

lemma walk_extensions_no_panic: "walk_extensions c acc \<noteq> Panic"
proof (induction c acc rule: walk_extensions.induct)
  case (1 c acc)
  have "chain_next c \<noteq> (Some Panic, c')" for c'
    using chain_step_no_panic [of c] by (auto simp: chain_next_def split: outcome.splits)
  with 1 show ?case
    by (subst walk_extensions.simps) (auto split: prod.splits option.splits outcome.splits)
qed

lemma ipv6_walk_fixed_Ok:
  "ipv6_walk_fixed ip = Ok (n, p) \<longleftrightarrow> 40 \<le> length ip \<and> drop_bit 4 (ip ! 0) = 6
     \<and> n = unat (be16 (ip ! 4) (ip ! 5)) \<and> p = ip ! 6 \<and> (n = 0 \<longrightarrow> p = NO_NEXT_HEADER)"
  by (auto simp: ipv6_walk_fixed_def outcome_iff checked_iff IPV6_LENGTH_def Let_def)

lemma ipv6_walk_Ok:
  "ipv6_walk ip = Ok h \<longleftrightarrow> (\<exists>n p. ipv6_walk_fixed ip = Ok (n, p) \<and> IPV6_LENGTH + n \<le> length ip
     \<and> ipv6_walk_chain (take (IPV6_LENGTH + n) ip) n p = Ok h)"
  by (auto simp: ipv6_walk_def outcome_iff checked_iff slice_of_def)

text \<open>The walker never panics, whatever the bytes.\<close>

lemma walk_no_panic:
  "ethernet_walk frame \<noteq> Panic" "ip_walk ip \<noteq> Panic" "link_walk t frame \<noteq> Panic" "link_walk_ip l frame \<noteq> Panic"
proof -
  have vlan: "walk_vlan_tags frame tags et \<noteq> Panic" for tags et
    by (induction frame tags et rule: walk_vlan_tags.induct)
       (subst walk_vlan_tags.simps, auto split: option.splits)
  show eth: "ethernet_walk frame \<noteq> Panic"
    using vlan by (auto simp: ethernet_walk_def ethernet_base_def outcome_iff split: prod.splits)
  have v6: "ipv6_walk ip \<noteq> Panic" for ip
    using walk_extensions_no_panic
    by (auto simp: ipv6_walk_def ipv6_walk_fixed_def ipv6_walk_chain_def outcome_iff Let_def split: prod.splits)
  show ip: "ip_walk ip \<noteq> Panic" for ip
    using v6 ipv4_walk_lengths_no_panic
    by (auto simp: ip_walk_def ipv4_walk_def outcome_iff Let_def split: option.splits)
  show "link_walk t frame \<noteq> Panic"
    using eth by (auto simp: link_walk_def outcome_iff Let_def)
  show "link_walk_ip l frame \<noteq> Panic"
    using ip by (auto simp: link_walk_ip_def outcome_iff Let_def split: option.splits)
qed

section \<open>Properties\<close>

text \<open>
  C20. Parsing and printing an Ethernet header are inverse: \<open>EthernetHeader::walk\<close> returns a header
  exactly for the frames that start with that header's bytes, for every header the format can
  carry, so nothing it reports differs from the wire and no well-formed frame is refused.
\<close>

theorem ethernet_walk_roundtrip:
  "ethernet_walk frame = Ok h \<longleftrightarrow> ethernet_ok h \<and> (\<exists>rest. frame = ethernet_bytes h @ rest)"
  by (rule ethernet_walk_iff)

text \<open>
  C21. A successful IPv6 walk stays inside the datagram: its extensions start at byte 40, each begins
  where the previous one ends and has the protocol that one announced, there are at most 64, every
  one is read from bytes of the datagram, and the upper layer starts where the last one ends, no
  later than the end of the declared payload.
\<close>

theorem ipv6_walk_tiles:
  assumes "ipv6_walk ip = Ok h"
  shows "ipv6_datagram_length h \<le> length ip
    \<and> linked (ipv6_next_header h) 40 (ipv6_extensions h) (fst (ipv6_upper_layer h)) (snd (ipv6_upper_layer h))
    \<and> length (ipv6_extensions h) \<le> 64
    \<and> (\<forall>e\<in>set (ipv6_extensions h). extension_in ip e)
    \<and> snd (ipv6_upper_layer h) \<le> ipv6_datagram_length h"
proof -
  obtain n p where fixed: "ipv6_walk_fixed ip = Ok (n, p)" and len: "40 + n \<le> length ip"
      and chain: "ipv6_walk_chain (take (40 + n) ip) n p = Ok h"
    using assms by (auto simp: ipv6_walk_Ok IPV6_LENGTH_def)
  note w = ipv6_walk_chain_walked [OF chain]
  have inside: "extension_in ip e \<and> ext_end e \<le> 40 + n" if "e \<in> set (ipv6_extensions h)" for e
  proof -
    have "extension_in (take (40 + n) ip) e"
      using w(5) that by blast
    then show ?thesis
      using len by (auto simp: extension_in_def ext_end_def)
  qed
  have "ipv6_upper_layer_offset h \<le> 40 + n"
    using linked_end [OF w(3)] inside [of "last (ipv6_extensions h)"]
    by (cases "ipv6_extensions h = []") (simp_all add: IPV6_LENGTH_def)
  then show ?thesis
    using w inside len by (simp add: ipv6_datagram_length_def ipv6_upper_layer_def header_length_defs IPV6_LENGTH_def)
qed

lemmas header_eval = ipv6_walk_fixed_def ipv6_walk_chain_def walk_extensions.simps chain_next_def chain_step_def
  chain_new_def chain_position_def is_walkable_ipv6_extension_def ipv6_extension_header_length_def
  ext_fragment_offset_def ip_protocol_defs header_length_defs IPV6_LENGTH_def IPV4_MIN_LENGTH_def
  first_chunk_def get_from_def get_range_def slice_of_def checked_add_def checked_mul_def usize_max_def
  be16_def be_nat_def Let_def

definition demo_ipv6 :: bytes where
  "demo_ipv6 = [0x60, 0, 0, 0, 0, 8, 0, 64] @ replicate 32 0 @ [58, 0, 1, 4, 0, 0, 0, 0]"

theorem ipv6_walk_tiles_witness:
  "\<exists>h. ipv6_walk demo_ipv6 = Ok h \<and> ipv6_upper_layer h = (58, 48) \<and> length (ipv6_extensions h) = 1
     \<and> (\<forall>e\<in>set (ipv6_extensions h). extension_in demo_ipv6 e)"
proof -
  have run: "ipv6_walk demo_ipv6 = Ok \<lparr>ipv6_payload_length = 8, ipv6_next_header = 0,
     ipv6_extensions = [\<lparr>ext_protocol = 0, ext_offset = 40, ext_length = 8, ext_next_header = 58, ext_fragment = None\<rparr>],
     ipv6_upper_layer_protocol = 58, ipv6_upper_layer_offset = 48\<rparr>"
    by (simp add: demo_ipv6_def ipv6_walk_def header_eval)
  show ?thesis
    using run ipv6_walk_tiles [OF run] by (simp add: ipv6_upper_layer_def)
qed

end
