(* ===== verification/Frames.thy ===== *)
theory Frames
  imports Header_Walks
begin

text \<open>
  Captured frames (\<open>frame.rs\<close>) and the errors of the packet transforms (\<open>transform/error.rs\<close>). A
  timestamp is a number of nanoseconds from the Unix epoch. The \<open>Decode\<close> variant of the transform
  error is left out: no modelled transform decodes layers.
\<close>

section \<open>Frames\<close>

type_synonym system_time = int

datatype direction = Inbound | Outbound | DirectionUnknown

record frame_lengths =
  fl_captured :: u32
  fl_original :: u32

record frame =
  fr_timestamp :: "system_time option"
  fr_captured_length :: u32
  fr_original_length :: u32
  fr_link_type :: link_type
  fr_interface :: "u32 option"
  fr_direction :: "direction option"
  fr_bytes :: bytes

datatype frame_error =
    CapturedLengthTooLarge usize
  | CapturedLengthMismatch u32 usize
  | OriginalLengthTooSmall u32 u32
  | ReversedTimeBounds system_time system_time

definition try_with_optional_timestamp ::
    "system_time option \<Rightarrow> link_type \<Rightarrow> frame_lengths \<Rightarrow> bytes \<Rightarrow> (frame_error, frame) outcome" where
  "try_with_optional_timestamp timestamp link_type lengths bytes =
     let_ok (ensure (unat (fl_captured lengths) = length bytes)
       (CapturedLengthMismatch (fl_captured lengths) (length bytes))) (\<lambda>_.
     let_ok (ensure (\<not> fl_original lengths < fl_captured lengths)
       (OriginalLengthTooSmall (fl_captured lengths) (fl_original lengths))) (\<lambda>_.
     Ok \<lparr>fr_timestamp = timestamp, fr_captured_length = fl_captured lengths,
         fr_original_length = fl_original lengths, fr_link_type = link_type, fr_interface = None,
         fr_direction = None, fr_bytes = bytes\<rparr>))"

definition frame_new :: "system_time option \<Rightarrow> link_type \<Rightarrow> bytes \<Rightarrow> (frame_error, frame) outcome" where
  "frame_new timestamp link_type bytes =
     let_ok (ok_or (if length bytes < 4294967296 then Some (of_nat (length bytes)) else None)
       (CapturedLengthTooLarge (length bytes))) (\<lambda>len.
     try_with_optional_timestamp timestamp link_type \<lparr>fl_captured = len, fl_original = len\<rparr> bytes)"

definition frame_is_truncated :: "frame \<Rightarrow> bool" where
  "frame_is_truncated f \<longleftrightarrow> fr_captured_length f < fr_original_length f"

text \<open>A frame that went through a constructor holds as many bytes as it says.\<close>

definition frame_ok :: "frame \<Rightarrow> bool" where
  "frame_ok f \<longleftrightarrow> unat (fr_captured_length f) = length (fr_bytes f) \<and> fr_captured_length f \<le> fr_original_length f"

lemma frame_new_Ok:
  assumes "frame_new ts lt bs = Ok f"
  shows "f = \<lparr>fr_timestamp = ts, fr_captured_length = of_nat (length bs), fr_original_length = of_nat (length bs),
      fr_link_type = lt, fr_interface = None, fr_direction = None, fr_bytes = bs\<rparr>"
    and "frame_ok f"
  using assms by (auto simp: frame_new_def try_with_optional_timestamp_def outcome_iff frame_ok_def split: if_splits)

lemma frame_new_cases:
  "(length bs < 4294967296 \<and> (\<exists>f. frame_new ts lt bs = Ok f))
   \<or> frame_new ts lt bs = Err (CapturedLengthTooLarge (length bs))"
  by (auto simp: frame_new_def try_with_optional_timestamp_def unat_of_nat)

section \<open>Times\<close>

definition unix_floor :: "system_time \<Rightarrow> int \<times> int" where
  "unix_floor time =
     (if 0 \<le> time then (time div 1000000000, time mod 1000000000)
      else
        let secs = (- time) div 1000000000; subsec_nanos = (- time) mod 1000000000 in
        if subsec_nanos = 0 then (- secs, 0) else (- secs - 1, 1000000000 - subsec_nanos))"

record time_bounds =
  tb_start :: "system_time option"
  tb_end :: "system_time option"

definition time_bounds_new :: "system_time option \<Rightarrow> system_time option \<Rightarrow> (frame_error, time_bounds) outcome" where
  "time_bounds_new start stop =
     (case (start, stop) of
        (Some s, Some e) \<Rightarrow>
          if s > e then Err (ReversedTimeBounds s e) else Ok \<lparr>tb_start = start, tb_end = stop\<rparr>
      | _ \<Rightarrow> Ok \<lparr>tb_start = start, tb_end = stop\<rparr>)"

definition time_bounds_contains :: "time_bounds \<Rightarrow> system_time option \<Rightarrow> bool" where
  "time_bounds_contains bounds timestamp =
     (case timestamp of
        None \<Rightarrow> False
      | Some t \<Rightarrow> (case tb_start bounds of None \<Rightarrow> True | Some start \<Rightarrow> t \<ge> start)
          \<and> (case tb_end bounds of None \<Rightarrow> True | Some stop \<Rightarrow> t \<le> stop))"

text \<open>
  C23: Splitting a time into seconds and nanoseconds rounds down on both sides of the epoch: the two
  branches of the code compute the floor and the non-negative remainder.
\<close>
theorem unix_floor_is_floor: "unix_floor time = (time div 1000000000, time mod 1000000000)"
proof (cases "0 \<le> time")
  case False
  let ?n = "1000000000 :: int"
  have "time mod ?n = (if (- time) mod ?n = 0 then 0 else ?n - (- time) mod ?n)"
    using zmod_zminus1_eq_if [of "- time" ?n] by simp
  moreover have "time div ?n = (if (- time) mod ?n = 0 then - ((- time) div ?n) else - ((- time) div ?n) - 1)"
    using zdiv_zminus1_eq_if [of ?n "- time"] by simp
  ultimately show ?thesis
    using False by (simp add: unix_floor_def Let_def)
qed (simp add: unix_floor_def)

section \<open>Errors of the transforms\<close>

datatype invalid_input =
    AssignmentSyntax | AssignmentEmptyPath | AssignmentPathSpace | AssignmentValueNotUnsigned | EditSyntax
  | EditOccurrence | EditOccurrenceNotNumber | EditOccurrenceZero | EditUnknownProtocol | EditPath
  | EditUnknownField | EditFieldNotUnsigned | EditValueWidth | DuplicateEdit | EditTruncatedCapture
  | OverlappingEdits | EditOutsideTransport | TransportCoverage | UdpLength | UdpLengthOverflow
  | UdpLengthExceedsPayload | Ipv4ChecksumPlacement | TransportChecksumPlacement | FieldRangeCaptured
  | FieldRangeWidth | FragmentTruncatedCapture | Ipv4HeaderChecksum | Ipv4ReservedFlag | MtuBelowIpv4Header
  | Ipv4Identification | Ipv4FragmentLength | TruncatedTcpHeader | TcpHeaderLength | TruncatedUpperLayer
  | MtuBelowIpv6Headers | Ipv6FirstFragment | Ipv6Identification | Ipv6FragmentLength | MtuFragmentPayload
  | InvalidVlanTag | MixedAddressFamilies | RewriteTruncatedCapture | AddressFamilyChange | TruncatedIcmpv6
  | AddressMapSyntax | AddressMapAddress | AddressMapFamilies | AddressMapPrefix | AddressMapHostBits
  | AddressMapOverlap

datatype unsupported_reason =
    ChecksumOverFragment | Ipv4SourceRoute | Ipv6RoutingHeader | Ipv6HomeAddress | NestedEditPath
  | EditProtocolSchema | EditField | EditLayerMissing | EditOpaqueLayer | EditFieldLayout | EditFieldWidth
  | EditProtectedTraffic | EditChecksumCoverage | TransportChecksumEnvelope | TransportChecksum | ChecksumLayout
  | UnsupportedLinkType | EthernetPayload | AlreadyFragmented | DontFragment | Ipv6PayloadLength
  | Ipv6FragmentOrIpsec | MisorderedHopByHop | Ipv6UpperLayer | LinkEditWithoutEthernet | RewriteLinkType
  | NetworkEditWithoutIp | RawIpTrailer | UpperLayerChecksum | PortEditTransport | PacketRoot

datatype transform_limit = MaxFragments | MaxOutputBytes | FieldAssignments | VlanDepth | AddressMapEntries

datatype transform_error =
    TransformInvalid invalid_input
  | TransformUnsupported unsupported_reason
  | TransformLimit transform_limit usize
  | TransformLimitRange transform_limit usize usize
  | TransformFrame frame_error
  | TransformChecksum checksum_error
  | TransformHeader header_error

text \<open>The conversion \<open>?\<close> inserts between error types.\<close>

fun map_err :: "('e \<Rightarrow> 'f) \<Rightarrow> ('e, 'a) outcome \<Rightarrow> ('f, 'a) outcome" where
  "map_err f (Ok a) = Ok a"
| "map_err f (Err e) = Err (f e)"
| "map_err f Panic = Panic"

lemma map_err_iff [outcome_iff]:
  "map_err f x = Ok a \<longleftrightarrow> x = Ok a" "map_err f x = Panic \<longleftrightarrow> x = Panic"
  "map_err f x = Err e \<longleftrightarrow> (\<exists>e'. x = Err e' \<and> e = f e')"
  by (cases x; auto)+

end
