(* ===== verification/Fragmenter.thy ===== *)
theory Fragmenter
  imports Frames
begin

text \<open>
  Fragmentation of raw-IP and Ethernet frames (\<open>transform/fragment.rs\<close>). Indexing a slice out of range
  panics in the source and is \<open>Panic\<close> here. The loops over the payload end because every fragment takes
  at least one byte.
\<close>

section \<open>Options and single fragments\<close>

record fragment_options =
  fo_mtu :: usize
  fo_identification :: "u32 option"
  fo_max_fragments :: usize
  fo_max_output_bytes :: usize

definition fragment_options_default :: fragment_options where
  "fragment_options_default =
     \<lparr>fo_mtu = 1500, fo_identification = None, fo_max_fragments = 1024, fo_max_output_bytes = 256 * 1024 * 1024\<rparr>"

definition payload_count :: "usize \<Rightarrow> usize \<Rightarrow> (transform_error, usize) outcome" where
  "payload_count room remaining =
     (let count = (if remaining \<le> room then remaining else room div 8 * 8) in
      let_ok (ensure (count \<noteq> 0) (TransformInvalid MtuFragmentPayload)) (\<lambda>_. Ok count))"

lemma payload_count_Ok:
  assumes "payload_count room remaining = Ok count"
  shows "0 < count" and "count \<le> room" and "count \<le> remaining" and "count < remaining \<Longrightarrow> count mod 8 = 0"
proof -
  have "count \<noteq> 0" and c: "count = (if remaining \<le> room then remaining else room div 8 * 8)"
    using assms by (auto simp: payload_count_def Let_def let_ok_Ok_iff ensure_iff)
  then show "0 < count" "count < remaining \<Longrightarrow> count mod 8 = 0"
    by (auto split: if_splits)
  have "room div 8 * 8 \<le> room"
    by simp
  then show "count \<le> room" "count \<le> remaining"
    by (auto simp: c)
qed

definition unchanged :: "frame \<Rightarrow> fragment_options \<Rightarrow> (transform_error, frame list) outcome" where
  "unchanged frame options =
     let_ok (ensure (\<not> length (fr_bytes frame) > fo_max_output_bytes options)
       (TransformLimit MaxOutputBytes (fo_max_output_bytes options))) (\<lambda>_.
     Ok [frame])"

definition append_fragment ::
    "frame \<Rightarrow> usize \<Rightarrow> bytes \<Rightarrow> bytes \<Rightarrow> fragment_options \<Rightarrow> usize \<times> frame list
      \<Rightarrow> (transform_error, usize \<times> frame list) outcome" where
  "append_fragment frame offset header payload options acc =
     (let (retained, output) = acc in
      let_ok (ensure (\<not> length output \<ge> fo_max_fragments options)
        (TransformLimit MaxFragments (fo_max_fragments options))) (\<lambda>_.
      let len = max (offset + length header + length payload) (if fr_link_type frame = LINK_ETHERNET then 60 else 0) in
      let_ok (ok_or (Option.bind (checked_add retained len)
          (\<lambda>total. if total \<le> fo_max_output_bytes options then Some total else None))
        (TransformLimit MaxOutputBytes (fo_max_output_bytes options))) (\<lambda>retained.
      let_ok (expect (get_range (fr_bytes frame) 0 offset)) (\<lambda>link.
      let bytes = link @ header @ payload; bytes = bytes @ replicate (len - length bytes) 0 in
      let_ok (map_err TransformFrame (frame_new None (fr_link_type frame) bytes)) (\<lambda>fragment.
      Ok (retained, output @ [fragment\<lparr>fr_timestamp := fr_timestamp frame, fr_interface := fr_interface frame,
            fr_direction := fr_direction frame\<rparr>]))))))"

section \<open>IPv4\<close>

lemma ipv4_options_progress:
  assumes "ipv4_options_next c = (Some (Ok x), c')"
  shows "length (cursor_bytes c') - cursor_at c' < length (cursor_bytes c) - cursor_at c"
  using ipv4_options_item(3-5) [OF assms] by simp

text \<open>\<open>copied_options\<close>: the options with the copy bit, padded to a word.\<close>

function copied_loop :: "bytes \<Rightarrow> option_cursor \<Rightarrow> bytes \<Rightarrow> (transform_error, bytes) outcome" where
  "copied_loop ip cursor copied =
     (case ipv4_options_next cursor of
        (None, _) \<Rightarrow> Ok copied
      | (Some item, cursor') \<Rightarrow>
          (case item of
             Ok option' \<Rightarrow>
               if option_kind option' AND 0x80 \<noteq> 0
               then let_ok (expect (get_range ip (option_start option') (option_end option'))) (\<lambda>range'.
                 copied_loop ip cursor' (copied @ range'))
               else copied_loop ip cursor' copied
           | Err e \<Rightarrow> Err (TransformHeader e)
           | Panic \<Rightarrow> Panic))"
  by pat_completeness auto
termination
  by (relation "measure (\<lambda>(_, c, _). length (cursor_bytes c) - cursor_at c)")
     (simp_all, metis ipv4_options_progress, metis ipv4_options_progress)

declare copied_loop.simps [simp del]

lemma pad_word_progress:
  assumes "(n :: nat) mod 4 \<noteq> 0"
  shows "(4 - Suc n mod 4) mod 4 < (4 - n mod 4) mod 4"
proof -
  have "n mod 4 < 4"
    by simp
  with assms have "n mod 4 = 1 \<or> n mod 4 = 2 \<or> n mod 4 = 3"
    by linarith
  then show ?thesis
    by (auto simp: mod_Suc)
qed

function pad_word :: "bytes \<Rightarrow> bytes" where
  "pad_word xs = (if length xs mod 4 \<noteq> 0 then pad_word (xs @ [0]) else xs)"
  by pat_completeness auto
termination
  by (relation "measure (\<lambda>xs. (4 - length xs mod 4) mod 4)") (use pad_word_progress in simp_all)

declare pad_word.simps [simp del]

definition copied_options :: "bytes \<Rightarrow> ipv4_header \<Rightarrow> (transform_error, bytes) outcome" where
  "copied_options ip h = let_ok (copied_loop ip (ipv4_options h ip) []) (\<lambda>copied. Ok (pad_word copied))"

text \<open>The header of the fragment at a position, before its fields are written: all of it, or what is copied.\<close>

definition fragment_header4 :: "bytes \<Rightarrow> usize \<Rightarrow> bytes \<Rightarrow> usize \<Rightarrow> (transform_error, bytes) outcome" where
  "fragment_header4 ip header_len copied position =
     (if position = 0 then expect (get_range ip 0 header_len)
      else
        let_ok (expect (get_range ip 0 IPV4_MIN_LENGTH)) (\<lambda>base.
        let header = base @ copied in
        let_ok (expect (get_index header 0)) (\<lambda>_.
        Ok (header[0 := 0x40 OR of_nat (length header div 4)]))))"

text \<open>One pass of the loop up to \<open>append\<close>: the header of the fragment and how many bytes it carries.\<close>

definition fragment_step4 ::
    "bytes \<Rightarrow> usize \<Rightarrow> bytes \<Rightarrow> u16 \<Rightarrow> u16 \<Rightarrow> usize \<Rightarrow> usize \<Rightarrow> usize \<Rightarrow> (transform_error, bytes \<times> usize) outcome" where
  "fragment_step4 ip header_len copied identification flags mtu total_payload position =
     let_ok (fragment_header4 ip header_len copied position) (\<lambda>header.
     let_ok (ok_or (checked_sub mtu (length header)) (TransformInvalid MtuBelowIpv4Header)) (\<lambda>room.
     let_ok (payload_count room (total_payload - position)) (\<lambda>count.
     let more = position + count < total_payload in
     let_ok (ok_or (u16_try_from (length header + count)) (TransformInvalid Ipv4FragmentLength)) (\<lambda>total.
     let_ok (expect (write_range header 2 (be_bytes 2 (unat total)))) (\<lambda>header.
     let_ok (expect (write_range header 4 (be_bytes 2 (unat identification)))) (\<lambda>header.
     let fragment_flags = ((flags AND 0x8000) OR push_bit 13 (if more then 1 else 0)) OR of_nat (position div 8) in
     let_ok (expect (write_range header 6 (be_bytes 2 (unat fragment_flags)))) (\<lambda>header.
     let_ok (expect (write_range header 10 [0, 0])) (\<lambda>header.
     let sum = checksum_parts [header] in
     let_ok (expect (write_range header 10 (be_bytes 2 (unat sum)))) (\<lambda>header.
     Ok (header, count))))))))))"

lemma fragment_step4_count:
  "fragment_step4 ip header_len copied identification flags mtu n position = Ok (header, count) \<Longrightarrow> 0 < count"
  unfolding fragment_step4_def Let_def let_ok_Ok_iff by (auto simp: payload_count_Ok(1))

function fragment_loop4 ::
    "frame \<Rightarrow> usize \<Rightarrow> bytes \<Rightarrow> usize \<Rightarrow> bytes \<Rightarrow> u16 \<Rightarrow> u16 \<Rightarrow> bytes \<Rightarrow> fragment_options \<Rightarrow> usize
      \<Rightarrow> usize \<times> frame list \<Rightarrow> (transform_error, frame list) outcome" where
  "fragment_loop4 frame offset ip header_len copied identification flags payload options position acc =
     (if position < length payload then
        let_ok (fragment_step4 ip header_len copied identification flags (fo_mtu options) (length payload) position)
          (\<lambda>(header, count).
        let_ok (expect (get_range payload position (position + count))) (\<lambda>bytes.
        let_ok (append_fragment frame offset header bytes options acc) (\<lambda>acc.
        fragment_loop4 frame offset ip header_len copied identification flags payload options (position + count) acc)))
      else Ok (snd acc))"
  by pat_completeness auto
termination
  by (relation "measure (\<lambda>(_, _, _, _, _, _, _, payload, _, position, _). length payload - position)")
     (auto dest: fragment_step4_count)

declare fragment_loop4.simps [simp del]

definition fragment_ipv4 ::
    "frame \<Rightarrow> usize \<Rightarrow> bytes \<Rightarrow> ipv4_header \<Rightarrow> fragment_options \<Rightarrow> (transform_error, frame list) outcome" where
  "fragment_ipv4 frame offset ip h options =
     (let header_len = ipv4_header_length h; len = ipv4_total_length h in
      let_ok (expect (get_range ip 0 header_len)) (\<lambda>covered.
      let_ok (ensure (\<not> checksum_parts [covered] \<noteq> 0) (TransformInvalid Ipv4HeaderChecksum)) (\<lambda>_.
      let_ok (ensure (\<not> ipv4_reserved_flag h) (TransformInvalid Ipv4ReservedFlag)) (\<lambda>_.
      let_ok (ensure (\<not> ipv4_is_fragment h) (TransformUnsupported AlreadyFragmented)) (\<lambda>_.
      if len \<le> fo_mtu options then unchanged frame options
      else
        let_ok (ensure (\<not> ipv4_dont_fragment h) (TransformUnsupported DontFragment)) (\<lambda>_.
        let_ok (ensure (\<not> len = header_len) (TransformInvalid MtuBelowIpv4Header)) (\<lambda>_.
        let_ok (copied_options ip h) (\<lambda>copied.
        let_ok (case fo_identification options of
            None \<Rightarrow> Ok (ipv4_identification h)
          | Some n \<Rightarrow> ok_or (u16_try_from (unat n)) (TransformInvalid Ipv4Identification)) (\<lambda>identification.
        let_ok (expect (get_range ip header_len len)) (\<lambda>payload.
        fragment_loop4 frame offset ip header_len copied identification (ipv4_flags_and_offset h) payload options 0
          (0, [])))))))))))"

section \<open>IPv6\<close>

text \<open>
  The unfragmentable part: the scan over the extension headers that finds its end and the offset of the
  Next Header field that comes before the fragment header.
\<close>

fun unfragmentable :: "nat \<Rightarrow> ipv6_extension list \<Rightarrow> usize \<times> usize \<Rightarrow> (transform_error, usize \<times> usize) outcome" where
  "unfragmentable index [] found = Ok found"
| "unfragmentable index (extension # rest) found =
     (if ext_protocol extension \<in> {FRAGMENT, AH} then Err (TransformUnsupported Ipv6FragmentOrIpsec)
      else if ext_protocol extension = HOP_BY_HOP \<and> index \<noteq> 0 then Err (TransformUnsupported MisorderedHopByHop)
      else if ext_protocol extension \<in> {HOP_BY_HOP, ROUTING}
      then unfragmentable (index + 1) rest (ext_end extension, ext_offset extension)
      else unfragmentable (index + 1) rest found)"

definition transport_header_length :: "bytes \<Rightarrow> u8 \<Rightarrow> usize \<Rightarrow> (transform_error, usize) outcome" where
  "transport_header_length ip next_header cursor =
     (if next_header = TCP then
        let_ok (ok_or (get_index ip (cursor + 12)) (TransformInvalid TruncatedTcpHeader)) (\<lambda>v.
        let size = unat (drop_bit 4 v) * 4 in
        let_ok (ensure (\<not> size < 20) (TransformInvalid TcpHeaderLength)) (\<lambda>_. Ok size))
      else if next_header \<in> {UDP, ICMPV6} then Ok 8
      else if next_header = SCTP then Ok 12
      else Err (TransformUnsupported Ipv6UpperLayer))"

definition fragment_step6 ::
    "bytes \<Rightarrow> usize \<Rightarrow> usize \<Rightarrow> u32 \<Rightarrow> usize \<Rightarrow> usize \<Rightarrow> usize \<Rightarrow> (transform_error, bytes \<times> usize) outcome" where
  "fragment_step6 ip prefix_len prefix_next identification room total_payload position =
     let_ok (payload_count room (total_payload - position)) (\<lambda>count.
     let_ok (expect (get_range ip 0 prefix_len)) (\<lambda>header.
     let_ok (expect (get_index header prefix_next)) (\<lambda>next_header.
     let header = header[prefix_next := FRAGMENT] in
     let_ok (minus_or_panic prefix_len 40) (\<lambda>extensions.
     let_ok (ok_or (u16_try_from (extensions + 8 + count)) (TransformInvalid Ipv6FragmentLength)) (\<lambda>payload_length.
     let_ok (expect (write_range header 4 (be_bytes 2 (unat payload_length)))) (\<lambda>header.
     let flags = (of_nat position AND 0xfff8) OR (if position + count < total_payload then 1 else 0) :: u16;
         header = header @ [next_header, 0] @ be_bytes 2 (unat flags) @ be_bytes 4 (unat identification) in
     Ok (header, count)))))))"

lemma fragment_step6_count:
  "fragment_step6 ip prefix_len prefix_next identification room n position = Ok (header, count) \<Longrightarrow> 0 < count"
  unfolding fragment_step6_def Let_def let_ok_Ok_iff by (auto simp: payload_count_Ok(1))

function fragment_loop6 ::
    "frame \<Rightarrow> usize \<Rightarrow> bytes \<Rightarrow> usize \<Rightarrow> usize \<Rightarrow> u32 \<Rightarrow> usize \<Rightarrow> bytes \<Rightarrow> fragment_options \<Rightarrow> usize
      \<Rightarrow> usize \<times> frame list \<Rightarrow> (transform_error, frame list) outcome" where
  "fragment_loop6 frame offset ip prefix_len prefix_next identification room payload options position acc =
     (if position < length payload then
        let_ok (fragment_step6 ip prefix_len prefix_next identification room (length payload) position)
          (\<lambda>(header, count).
        let_ok (expect (get_range payload position (position + count))) (\<lambda>bytes.
        let_ok (append_fragment frame offset header bytes options acc) (\<lambda>acc.
        fragment_loop6 frame offset ip prefix_len prefix_next identification room payload options (position + count) acc)))
      else Ok (snd acc))"
  by pat_completeness auto
termination
  by (relation "measure (\<lambda>(_, _, _, _, _, _, _, payload, _, position, _). length payload - position)")
     (auto dest: fragment_step6_count)

declare fragment_loop6.simps [simp del]

definition fragment_ipv6 ::
    "frame \<Rightarrow> usize \<Rightarrow> bytes \<Rightarrow> ipv6_header \<Rightarrow> fragment_options \<Rightarrow> (transform_error, frame list) outcome" where
  "fragment_ipv6 frame offset ip h options =
     let_ok (ensure (\<not> ipv6_payload_length h = 0) (TransformUnsupported Ipv6PayloadLength)) (\<lambda>_.
     let len = ipv6_datagram_length h in
     let_ok (unfragmentable 0 (ipv6_extensions h) (IPV6_LENGTH, 6)) (\<lambda>(prefix_len, prefix_next).
     let (next_header, cursor) = ipv6_upper_layer h in
     let_ok (ensure (\<not> next_header = ESP) (TransformUnsupported Ipv6FragmentOrIpsec)) (\<lambda>_.
     if len \<le> fo_mtu options then unchanged frame options
     else
       let_ok (transport_header_length ip next_header cursor) (\<lambda>transport_len.
       let_ok (ensure (\<not> cursor + transport_len > len) (TransformInvalid TruncatedUpperLayer)) (\<lambda>_.
       let_ok (ok_or (checked_sub (fo_mtu options) (prefix_len + 8)) (TransformInvalid MtuBelowIpv6Headers)) (\<lambda>room.
       let_ok (minus_or_panic (cursor + transport_len) prefix_len) (\<lambda>headers.
       let_ok (ensure (\<not> room div 8 * 8 < headers) (TransformInvalid Ipv6FirstFragment)) (\<lambda>_.
       let_ok (ok_or (fo_identification options) (TransformInvalid Ipv6Identification)) (\<lambda>identification.
       let_ok (expect (get_range ip prefix_len len)) (\<lambda>payload.
       fragment_loop6 frame offset ip prefix_len prefix_next identification room payload options 0 (0, []))))))))))) "

section \<open>Any frame\<close>

definition fragment_frame :: "frame \<Rightarrow> fragment_options \<Rightarrow> (transform_error, frame list) outcome" where
  "fragment_frame frame options =
     let_ok (ensure (\<not> fo_max_fragments options = 0) (TransformLimitRange MaxFragments 1 8192)) (\<lambda>_.
     let_ok (ensure (\<not> fo_max_fragments options > 8192) (TransformLimit MaxFragments 8192)) (\<lambda>_.
     let_ok (ensure (\<not> fr_captured_length frame \<noteq> fr_original_length frame)
       (TransformInvalid FragmentTruncatedCapture)) (\<lambda>_.
     let_ok (map_err TransformHeader (link_walk (fr_link_type frame) (fr_bytes frame))) (\<lambda>found.
     let_ok (ok_or found (TransformUnsupported UnsupportedLinkType)) (\<lambda>link.
     let_ok (map_err TransformHeader (link_walk_ip link (fr_bytes frame))) (\<lambda>found.
     let_ok (ok_or found (TransformUnsupported EthernetPayload)) (\<lambda>header.
     let offset = network_offset link in
     let_ok (expect (get_from (fr_bytes frame) offset)) (\<lambda>ip.
     case header of
       IpV4 h \<Rightarrow> fragment_ipv4 frame offset ip h options
     | IpV6 h \<Rightarrow> fragment_ipv6 frame offset ip h options))))))))"

end
