(* ===== verification/Ip_Model.thy ===== *)
theory Ip_Model
  imports Header_Walks Expiry
begin

text \<open>
  The vocabulary of IP reassembly (\<open>analysis/reassembly/ip.rs\<close>, \<open>ip/model.rs\<close>, \<open>ip/limits.rs\<close>):
  fragments, outcomes, errors, limits, the congestion markings of RFC 3168, and the retained state.

  A \<open>VecDeque<u8>\<close> is a ring of a given capacity: the bytes in order, and the slot of the buffer where
  the first one lies, which decides how \<open>as_slices\<close> splits them. Every fallible allocation is an
  \<open>ip_alloc_site\<close>; which ones succeed is the parameter \<open>alloc\<close> of a push.
\<close>

section \<open>Fragments and outcomes\<close>

record ipv4_fragment =
  f4_key :: ipv4_datagram_key
  f4_fragment_offset :: u16
  f4_more_fragments :: bool
  f4_header :: bytes
  f4_payload :: bytes

record ipv6_fragment =
  f6_key :: ipv6_datagram_key
  f6_fragment_offset :: u16
  f6_more_fragments :: bool
  f6_next_header :: u8
  f6_unfragmentable_prefix :: bytes
  f6_predecessor_next_header_offset :: usize
  f6_payload :: bytes

datatype fragment = FragmentV4 ipv4_fragment | FragmentV6 ipv6_fragment

fun fragment_family :: "fragment \<Rightarrow> family" where
  "fragment_family (FragmentV4 _) = Ipv4"
| "fragment_family (FragmentV6 _) = Ipv6"

datatype overlap_policy = Reject | First | Last

datatype fragment_disposition =
    Accepted usize
  | Duplicate usize
  | OverlapResolved overlap_policy usize usize

record fragment_outcome =
  fo_key :: datagram_key
  fo_disposition :: fragment_disposition
  fo_fragment_count :: usize
  fo_unique_bytes :: usize
  fo_known_final_length :: "usize option"

record completed_datagram =
  cd_key :: datagram_key
  cd_bytes :: bytes
  cd_fragment_count :: usize
  cd_unique_bytes :: usize
  cd_final_payload_length :: usize
  cd_duplicate_fragments :: usize
  cd_overlap_bytes :: usize

datatype push_outcome = PushAccepted fragment_outcome | PushCompleted fragment_outcome completed_datagram

datatype incomplete_reason = IdleExpired | EndOfCapture

record incomplete_datagram =
  id_key :: datagram_key
  id_reason :: incomplete_reason
  id_fragment_count :: usize
  id_unique_bytes :: usize
  id_known_final_length :: "usize option"
  id_duplicate_fragments :: usize
  id_overlap_bytes :: usize

definition incomplete_family :: "incomplete_datagram \<Rightarrow> family" where
  "incomplete_family d = datagram_key_family (id_key d)"

record retired_datagrams =
  rd_outcomes :: "incomplete_datagram list"
  rd_omitted_ipv4 :: u64
  rd_omitted_ipv6 :: u64

definition retired_default :: retired_datagrams where
  "retired_default = \<lparr>rd_outcomes = [], rd_omitted_ipv4 = 0, rd_omitted_ipv6 = 0\<rparr>"

section \<open>Errors\<close>

datatype ip_resource =
    DatagramLimit usize
  | FragmentLimit usize
  | DatagramByteLimit usize
  | AggregateMemoryLimit usize
  | AllocationFailed usize
  | IdleExpiryRange duration

datatype ip_malformed =
    OffsetOutOfRange u16
  | OffsetOverflow
  | EmptyPayload
  | AtomicFragment
  | UnalignedNonFinal usize
  | InvalidIpv4Header string
  | InconsistentIpv4Header
  | InvalidIpv6Prefix string
  | InconsistentEcn
  | ConflictingFinalLength usize usize
  | BeyondFinalLength usize
  | NonFinalAtFinalLength usize
  | ConflictingOverlap usize
  | ReconstructedLength family

datatype ip_error = IpResource ip_resource | IpMalformed ip_malformed | Inconsistent string

abbreviation offset_overflow :: ip_error where
  "offset_overflow \<equiv> IpMalformed OffsetOverflow"

datatype ip_alloc_site = AllocHeader | AllocMerge | AllocDatagram | AllocRangeSlot | AllocDatagramSlot

type_synonym ip_allocator = "ip_alloc_site \<Rightarrow> usize \<Rightarrow> bool"

definition try_reserve :: "ip_allocator \<Rightarrow> ip_alloc_site \<Rightarrow> usize \<Rightarrow> (ip_error, unit) outcome" where
  "try_reserve alloc site requested = ensure (alloc site requested) (IpResource (AllocationFailed requested))"

section \<open>Limits\<close>

record ip_limits =
  max_datagrams :: usize
  max_fragments_per_datagram :: usize
  max_bytes_per_datagram :: usize
  ip_max_aggregate_bytes :: usize
  max_retained_outcomes :: usize
  ip_idle_expiry :: duration

definition ip_limits_default :: ip_limits where
  "ip_limits_default =
     \<lparr>max_datagrams = 8192, max_fragments_per_datagram = 256, max_bytes_per_datagram = 65535,
      ip_max_aggregate_bytes = 64 * 1024 * 1024, max_retained_outcomes = 8192,
      ip_idle_expiry = 30 * 10 ^ 9\<rparr>"

datatype ip_field =
  IpMaxDatagrams | IpMaxFragmentsPerDatagram | IpMaxBytesPerDatagram | IpMaxAggregateBytes
| IpMaxRetainedOutcomes | IpIdleExpiry

fun ip_field_name :: "ip_field \<Rightarrow> string" where
  "ip_field_name IpMaxDatagrams = ''max_datagrams''"
| "ip_field_name IpMaxFragmentsPerDatagram = ''max_fragments_per_datagram''"
| "ip_field_name IpMaxBytesPerDatagram = ''max_bytes_per_datagram''"
| "ip_field_name IpMaxAggregateBytes = ''max_aggregate_bytes''"
| "ip_field_name IpMaxRetainedOutcomes = ''max_retained_outcomes''"
| "ip_field_name IpIdleExpiry = ''idle_expiry''"

definition ip_violation :: "instant \<Rightarrow> ip_limits \<Rightarrow> (ip_field \<times> u64 \<times> limit_constraint) option" where
  "ip_violation clock limits =
     map_option (\<lambda>(v, reason). (IpIdleExpiry, v, reason)) (expiry_violation clock (ip_idle_expiry limits))"

definition ip_limits_validate :: "instant \<Rightarrow> ip_limits \<Rightarrow> (analysis_error, unit) outcome" where
  "ip_limits_validate clock limits =
     (case ip_violation clock limits of
        None \<Rightarrow> Ok ()
      | Some (field, v, reason) \<Rightarrow> Err (InvalidLimit (ip_field_name field) v reason))"

section \<open>Congestion markings\<close>

datatype ecn = NotEct | Ect1 | Ect0 | Ce

definition ecn_from_bits :: "u8 \<Rightarrow> ecn" where
  "ecn_from_bits bits =
     (let b = bits AND 0x03 in if b = 0 then NotEct else if b = 1 then Ect1 else if b = 2 then Ect0 else Ce)"

definition ecn_from_ipv4_tos :: "u8 \<Rightarrow> ecn" where
  "ecn_from_ipv4_tos tos = ecn_from_bits (tos AND 0x03)"

definition ecn_from_ipv6_traffic_class :: "u8 \<Rightarrow> ecn" where
  "ecn_from_ipv6_traffic_class traffic_class = ecn_from_bits (drop_bit 4 (traffic_class AND 0x30))"

fun ecn_ipv4_tos_bits :: "ecn \<Rightarrow> u8" where
  "ecn_ipv4_tos_bits NotEct = 0"
| "ecn_ipv4_tos_bits Ect1 = 1"
| "ecn_ipv4_tos_bits Ect0 = 2"
| "ecn_ipv4_tos_bits Ce = 3"

definition ecn_ipv6_traffic_class_bits :: "ecn \<Rightarrow> u8" where
  "ecn_ipv6_traffic_class_bits e = push_bit 4 (ecn_ipv4_tos_bits e)"

definition ecn_merge :: "ecn \<Rightarrow> ecn \<Rightarrow> (ip_malformed, ecn) outcome" where
  "ecn_merge self incoming =
     (if self = incoming then Ok self
      else
        (case (self, incoming) of
           (Ce, NotEct) \<Rightarrow> Err InconsistentEcn
         | (NotEct, Ce) \<Rightarrow> Err InconsistentEcn
         | (Ce, _) \<Rightarrow> Ok Ce
         | (_, Ce) \<Rightarrow> Ok Ce
         | (NotEct, _) \<Rightarrow> Ok NotEct
         | (_, NotEct) \<Rightarrow> Ok NotEct
         | _ \<Rightarrow> Ok Ect0))"

section \<open>Rings of bytes\<close>

record deque =
  dq_items :: bytes
  dq_head :: usize
  dq_capacity :: usize

definition deque_from_vec :: "bytes \<Rightarrow> deque" where
  "deque_from_vec xs = \<lparr>dq_items = xs, dq_head = 0, dq_capacity = length xs\<rparr>"

definition deque_truncate :: "usize \<Rightarrow> deque \<Rightarrow> deque" where
  "deque_truncate n d = d\<lparr>dq_items := take n (dq_items d)\<rparr>"

definition deque_as_slices :: "deque \<Rightarrow> bytes \<times> bytes" where
  "deque_as_slices d =
     (take (dq_capacity d - dq_head d) (dq_items d), drop (dq_capacity d - dq_head d) (dq_items d))"

text \<open>
  Growth doubles the buffer or takes what is required, at least eight slots; the first run of a
  wrapped ring moves to the new end unless the shorter second run fits behind it.
\<close>

definition deque_reserve :: "usize \<Rightarrow> deque \<Rightarrow> deque" where
  "deque_reserve additional d =
     (let required = length (dq_items d) + additional; old = dq_capacity d in
      if required \<le> old then d
      else
        let new = max (max (2 * old) required) 8; head_len = old - dq_head d;
            tail_len = length (dq_items d) - head_len in
        d\<lparr>dq_capacity := new,
          dq_head := (if length (dq_items d) \<le> head_len \<or> head_len > tail_len \<and> new - old \<ge> tail_len
                      then dq_head d else new - head_len)\<rparr>)"

definition deque_extend :: "bytes \<Rightarrow> deque \<Rightarrow> deque" where
  "deque_extend xs d = (deque_reserve (length xs) d)\<lparr>dq_items := dq_items d @ xs\<rparr>"

definition deque_push_front :: "u8 \<Rightarrow> deque \<Rightarrow> deque" where
  "deque_push_front x d =
     (let d = deque_reserve 1 d in
      d\<lparr>dq_items := x # dq_items d,
        dq_head := (if dq_head d = 0 then dq_capacity d - 1 else dq_head d - 1)\<rparr>)"

lemma as_slices_append [simp]: "fst (deque_as_slices d) @ snd (deque_as_slices d) = dq_items d"
  by (simp add: deque_as_slices_def)

lemma deque_extend_fits:
  assumes "length (dq_items d) + length xs \<le> dq_capacity d"
  shows "dq_items (deque_extend xs d) = dq_items d @ xs" and "dq_capacity (deque_extend xs d) = dq_capacity d"
  using assms by (simp_all add: deque_extend_def deque_reserve_def)

lemma deque_push_fronts_fit:
  assumes "length (dq_items d) + length xs \<le> dq_capacity d"
  shows "dq_items (foldr deque_push_front xs d) = xs @ dq_items d
    \<and> dq_capacity (foldr deque_push_front xs d) = dq_capacity d"
  using assms
proof (induction xs)
  case (Cons x xs)
  then show ?case
    by (simp add: deque_push_front_def deque_reserve_def Let_def)
qed simp

section \<open>Retained state\<close>

definition DATAGRAM_METADATA_CHARGE :: usize where "DATAGRAM_METADATA_CHARGE = 4096"
definition RANGE_METADATA_CHARGE :: usize where "RANGE_METADATA_CHARGE = 64"

record retained_range =
  rr_start :: usize
  rr_bytes :: deque

definition range_end :: "retained_range \<Rightarrow> usize option" where
  "range_end r = checked_add (rr_start r) (length (dq_items (rr_bytes r)))"

datatype reconstruction =
    RecIpv4 "bytes option" ecn
  | RecIpv6 bytes usize u8 ecn bool

fun reconstruction_ecn :: "reconstruction \<Rightarrow> ecn" where
  "reconstruction_ecn (RecIpv4 _ e) = e"
| "reconstruction_ecn (RecIpv6 _ _ _ e _) = e"

record datagram_state =
  ds_ranges :: "retained_range list"
  ds_unique_bytes :: usize
  ds_fragment_count :: usize
  ds_duplicate_fragments :: usize
  ds_overlap_bytes :: usize
  ds_final_length :: "usize option"
  ds_max_non_final_end :: "usize option"
  ds_reconstruction :: reconstruction
  ds_last_update :: instant
  ds_deadline :: "instant option"
  ds_memory_charge :: usize

record ip_retained =
  rt_payload_bytes :: usize
  rt_memory_charge :: usize
  rt_datagram_slots :: usize

definition retained_release :: "datagram_state \<Rightarrow> ip_retained \<Rightarrow> ('e, ip_retained) outcome" where
  "retained_release st rt =
     let_ok (expect (checked_sub (rt_payload_bytes rt) (ds_unique_bytes st))) (\<lambda>payload_bytes.
     let_ok (expect (checked_sub (rt_memory_charge rt) (ds_memory_charge st))) (\<lambda>memory_charge.
     Ok (rt\<lparr>rt_payload_bytes := payload_bytes, rt_memory_charge := memory_charge\<rparr>)))"

record ip_reassembler =
  ir_limits :: ip_limits
  ir_overlap_policy :: overlap_policy
  ir_datagrams :: "(datagram_key, datagram_state) btree"
  ir_expiry :: "datagram_key expiry_index"
  ir_retained :: ip_retained

section \<open>Markings do not depend on the order\<close>

text \<open>The marking of a set of fragments, and the fold the engine computes.\<close>

definition ecn_of_all :: "ecn set \<Rightarrow> (ip_malformed, ecn) outcome" where
  "ecn_of_all E =
     (if Ce \<in> E \<and> NotEct \<in> E then Err InconsistentEcn
      else if Ce \<in> E then Ok Ce
      else if NotEct \<in> E then Ok NotEct
      else if Ect0 \<in> E then Ok Ect0 else Ok Ect1)"

fun ecn_merge_all :: "ecn \<Rightarrow> ecn list \<Rightarrow> (ip_malformed, ecn) outcome" where
  "ecn_merge_all e [] = Ok e"
| "ecn_merge_all e (f # fs) = let_ok (ecn_merge e f) (\<lambda>e. ecn_merge_all e fs)"

lemma ecn_merge_all_set: "ecn_of_all E = Ok e \<Longrightarrow> ecn_merge_all e fs = ecn_of_all (E \<union> set fs)"
proof (induction fs arbitrary: e E)
  case Nil
  then show ?case by simp
next
  case (Cons f fs)
  show ?case
  proof (cases "ecn_merge e f")
    case (Ok g)
    have "ecn_of_all (insert f E) = Ok g"
      using Cons.prems Ok by (cases e; cases f) (auto simp: ecn_of_all_def ecn_merge_def split: if_splits)
    from Cons.IH [OF this] show ?thesis
      using Ok by simp
  next
    case (Err x)
    then show ?thesis
      using Cons.prems by (cases e; cases f) (auto simp: ecn_of_all_def ecn_merge_def split: if_splits)
  next
    case Panic
    then show ?thesis
      by (auto simp: ecn_merge_def split: if_splits ecn.splits)
  qed
qed

end
