(* ===== verification/Ip_Validate.thy ===== *)
theory Ip_Validate
  imports Ip_Model
begin

text \<open>
  Admission of one fragment (\<open>ip/engine/validation.rs\<close>): its own header against its metadata, its
  extent against the wire format, and its agreement with what the datagram already retains.
\<close>

definition IPV6_FRAGMENT_HEADER_LENGTH :: usize where "IPV6_FRAGMENT_HEADER_LENGTH = 8"
definition MAX_WIRE_LENGTH :: usize where "MAX_WIRE_LENGTH = 65535"

definition FAMILY_MISMATCH :: ip_error where
  "FAMILY_MISMATCH = Inconsistent ''retained datagram family disagrees with its key''"

section \<open>The fragment itself\<close>

datatype incoming_reconstruction =
    IncIpv4 bytes
  | IncIpv6 bytes usize u8

record incoming =
  in_key :: datagram_key
  in_offset :: usize
  in_end :: usize
  in_more_fragments :: bool
  in_payload :: bytes
  in_reconstruction :: incoming_reconstruction
  in_ecn :: ecn

definition ipv4_of :: "bytes \<Rightarrow> u32" where
  "ipv4_of bs = of_nat (be_nat bs)"

definition ipv6_of :: "bytes \<Rightarrow> 128 word" where
  "ipv6_of bs = of_nat (be_nat bs)"

definition validate_ipv4_header :: "ipv4_fragment \<Rightarrow> (ip_error, ecn) outcome" where
  "validate_ipv4_header f =
     (let invalid = (\<lambda>reason. IpMalformed (InvalidIpv4Header reason)) in
      let_ok (ok_or (first_chunk IPV4_MIN_LENGTH (f4_header f)) (invalid ''header is shorter than twenty bytes'')) (\<lambda>fixed.
      let_ok (ensure (drop_bit 4 (fixed ! 0) = 4) (invalid ''version is not four'')) (\<lambda>_.
      let_ok (ok_or (checked_mul (unat (fixed ! 0 AND 0x0f)) 4) offset_overflow) (\<lambda>header_length.
      let_ok (ensure (\<not> (header_length < IPV4_MIN_LENGTH \<or> header_length \<noteq> length (f4_header f)))
        (invalid ''IHL does not match supplied header bytes'')) (\<lambda>_.
      let total_length = unat (be16 (fixed ! 2) (fixed ! 3)) in
      let_ok (ensure (checked_add header_length (length (f4_payload f)) = Some total_length)
        (invalid ''total length does not match header and fragment payload'')) (\<lambda>_.
      let flags_offset = be16 (fixed ! 6) (fixed ! 7) in
      let_ok (ensure (\<not> (flags_offset AND 0x1fff \<noteq> f4_fragment_offset f
            \<or> (flags_offset AND 0x2000 \<noteq> 0) \<noteq> f4_more_fragments f))
        (invalid ''wire fragmentation fields do not match the adapter metadata'')) (\<lambda>_.
      let_ok (ensure (\<not> (be16 (fixed ! 4) (fixed ! 5) \<noteq> v4_identification (f4_key f)
            \<or> fixed ! 9 \<noteq> v4_protocol (f4_key f)
            \<or> ipv4_of [fixed ! 12, fixed ! 13, fixed ! 14, fixed ! 15] \<noteq> v4_source (f4_key f)
            \<or> ipv4_of [fixed ! 16, fixed ! 17, fixed ! 18, fixed ! 19] \<noteq> v4_destination (f4_key f)))
        (invalid ''header identity does not match the datagram key'')) (\<lambda>_.
      Ok (ecn_from_ipv4_tos (fixed ! 1))))))))))"

text \<open>
  \<open>ipv6_fragment_predecessor\<close> walks the extension chain of the prefix; the loop ends because each
  item uses up one of the chain's \<open>limit\<close> steps.
\<close>

function predecessor_loop :: "bytes \<Rightarrow> extension_chain \<Rightarrow> usize \<Rightarrow> usize option" where
  "predecessor_loop prefix chain predecessor =
     (let (protocol, offset) = chain_position chain in
      if protocol = FRAGMENT then (if offset = length prefix then Some predecessor else None)
      else
        (case chain_next chain of
           (Some (Ok extension), chain') \<Rightarrow> predecessor_loop prefix chain' (ext_offset extension)
         | _ \<Rightarrow> None))"
  by pat_completeness auto
termination
  by (relation "measure (\<lambda>(_, c, _). chain_limit c - chain_taken c)")
     (auto dest!: sym [of "(Some (Ok _), _)"] simp: chain_next_item(2,3) intro!: diff_less_mono2 chain_next_item(1))

definition ipv6_fragment_predecessor :: "bytes \<Rightarrow> usize option" where
  "ipv6_fragment_predecessor prefix =
     Option.bind (first_chunk IPV6_LENGTH prefix) (\<lambda>base.
       predecessor_loop prefix (chain_with_ceiling (length prefix div 8) (chain_new prefix IPV6_LENGTH (base ! 6))) 6)"

definition validate_ipv6_prefix :: "ipv6_fragment \<Rightarrow> (ip_error, ecn) outcome" where
  "validate_ipv6_prefix f =
     (let invalid = (\<lambda>reason. IpMalformed (InvalidIpv6Prefix reason)); prefix = f6_unfragmentable_prefix f in
      let_ok (ok_or (first_chunk IPV6_LENGTH prefix) (invalid ''prefix is shorter than the IPv6 base header'')) (\<lambda>base.
      let_ok (ensure (drop_bit 4 (base ! 0) = 6) (invalid ''version is not six'')) (\<lambda>_.
      let_ok (ensure (ipv6_fragment_predecessor prefix = Some (f6_predecessor_next_header_offset f))
        (invalid ''predecessor is not the final structurally valid Next Header field'')) (\<lambda>_.
      let_ok (ok_or (Option.bind (Option.bind (checked_sub (length prefix) IPV6_LENGTH)
            (\<lambda>len. checked_add len IPV6_FRAGMENT_HEADER_LENGTH)) (\<lambda>len. checked_add len (length (f6_payload f))))
        offset_overflow) (\<lambda>prefix_payload_length.
      let declared = unat (be16 (base ! 4) (base ! 5)) in
      let_ok (ensure (prefix_payload_length = declared)
        (invalid ''payload length does not match prefix, Fragment header, and payload'')) (\<lambda>_.
      let src = map_option ipv6_of (Option.bind (get_from prefix 8) (first_chunk 16));
          dst = map_option ipv6_of (Option.bind (get_from prefix 24) (first_chunk 16)) in
      let_ok (ensure (\<not> (src \<noteq> Some (v6_source (f6_key f)) \<or> dst \<noteq> Some (v6_destination (f6_key f))))
        (invalid ''base-header identity does not match the datagram key'')) (\<lambda>_.
      Ok (ecn_from_ipv6_traffic_class (base ! 1)))))))))"

section \<open>The extent\<close>

definition last_range_end :: "datagram_state option \<Rightarrow> usize option" where
  "last_range_end existing =
     Option.bind existing (\<lambda>st. Option.bind (if ds_ranges st = [] then None else Some (last (ds_ranges st))) range_end)"

definition validate_family_wire_extent ::
    "datagram_state option \<Rightarrow> incoming \<Rightarrow> usize option \<Rightarrow> (ip_error, unit) outcome" where
  "validate_family_wire_extent existing inc final_length =
     (let retained_end = (case last_range_end existing of None \<Rightarrow> 0 | Some e \<Rightarrow> e);
          extent = (case final_length of None \<Rightarrow> max (in_end inc) retained_end | Some len \<Rightarrow> len) in
      let_ok
        (case in_reconstruction inc of
           IncIpv4 header \<Rightarrow>
             if in_offset inc = 0 then Ok (length header)
             else (case map_option ds_reconstruction existing of
                 Some (RecIpv4 first_header _) \<Rightarrow>
                   Ok (case first_header of None \<Rightarrow> IPV4_MIN_LENGTH | Some h \<Rightarrow> length h)
               | None \<Rightarrow> Ok IPV4_MIN_LENGTH
               | Some (RecIpv6 _ _ _ _ _) \<Rightarrow> Err FAMILY_MISMATCH)
         | IncIpv6 prefix _ _ \<Rightarrow>
             (let retained = (case map_option ds_reconstruction existing of
                 Some (RecIpv6 retained_prefix _ _ _ from_offset_zero) \<Rightarrow>
                   if \<not> from_offset_zero \<and> in_offset inc = 0 then length prefix else length retained_prefix
               | _ \<Rightarrow> length prefix) in
              ok_or (checked_sub retained IPV6_LENGTH) offset_overflow)) (\<lambda>reconstructed_prefix_length.
      ensure (\<not> (case checked_add reconstructed_prefix_length extent of
                    None \<Rightarrow> True | Some len \<Rightarrow> len > MAX_WIRE_LENGTH))
        (IpMalformed (ReconstructedLength (datagram_key_family (in_key inc))))))"

definition validate_fragment :: "fragment \<Rightarrow> ip_limits \<Rightarrow> (ip_error, incoming) outcome" where
  "validate_fragment fragment limits =
     (let fragment_offset = (case fragment of
            FragmentV4 f \<Rightarrow> f4_fragment_offset f | FragmentV6 f \<Rightarrow> f6_fragment_offset f) in
      let_ok (ensure (\<not> fragment_offset > 0x1fff) (IpMalformed (OffsetOutOfRange fragment_offset))) (\<lambda>_.
      let_ok
        (case fragment of
           FragmentV4 f \<Rightarrow>
             let_ok (validate_ipv4_header f) (\<lambda>e.
             Ok (KeyV4 (f4_key f), f4_fragment_offset f, f4_more_fragments f, f4_payload f, IncIpv4 (f4_header f), e))
         | FragmentV6 f \<Rightarrow>
             let_ok (validate_ipv6_prefix f) (\<lambda>e.
             Ok (KeyV6 (f6_key f), f6_fragment_offset f, f6_more_fragments f, f6_payload f,
                 IncIpv6 (f6_unfragmentable_prefix f) (f6_predecessor_next_header_offset f) (f6_next_header f), e)))
        (\<lambda>(key, fragment_offset, more_fragments, payload, reconstruction, e).
      let_ok (ensure (\<not> (fragment_offset = 0 \<and> \<not> more_fragments)) (IpMalformed AtomicFragment)) (\<lambda>_.
      let_ok (ensure (payload \<noteq> []) (IpMalformed EmptyPayload)) (\<lambda>_.
      let_ok (ensure (\<not> (more_fragments \<and> length payload mod 8 \<noteq> 0)) (IpMalformed (UnalignedNonFinal (length payload)))) (\<lambda>_.
      let_ok (ok_or (checked_mul (unat fragment_offset) 8) offset_overflow) (\<lambda>offset.
      let_ok (ok_or (checked_add offset (length payload)) offset_overflow) (\<lambda>stop.
      let inc = \<lparr>in_key = key, in_offset = offset, in_end = stop, in_more_fragments = more_fragments,
                 in_payload = payload, in_reconstruction = reconstruction, in_ecn = e\<rparr> in
      let_ok (validate_family_wire_extent None inc (if in_more_fragments inc then None else Some (in_end inc))) (\<lambda>_.
      let_ok (ensure (\<not> in_end inc > max_bytes_per_datagram limits)
        (IpResource (DatagramByteLimit (max_bytes_per_datagram limits)))) (\<lambda>_.
      Ok inc))))))))))"

section \<open>Agreement with the retained datagram\<close>

definition ipv4_dscp :: "bytes \<Rightarrow> u8 option" where
  "ipv4_dscp header = map_option (\<lambda>tos. tos AND 0xfc) (get_index header 1)"

definition ipv4_preserved_flags :: "bytes \<Rightarrow> u16 option" where
  "ipv4_preserved_flags header =
     map_option (\<lambda>c. be16 (c ! 0) (c ! 1) AND 0xc000) (Option.bind (get_range header 6 8) (first_chunk 2))"

definition ipv4_headers_match :: "bytes \<Rightarrow> bytes \<Rightarrow> bool" where
  "ipv4_headers_match a b \<longleftrightarrow>
     length a = length b \<and> get_index a 0 = get_index b 0 \<and> ipv4_dscp a = ipv4_dscp b
     \<and> get_range a 4 6 = get_range b 4 6 \<and> ipv4_preserved_flags a = ipv4_preserved_flags b
     \<and> get_range a 9 10 = get_range b 9 10 \<and> get_from a 12 = get_from b 12"

definition validate_reconstruction_consistency ::
    "datagram_state option \<Rightarrow> incoming \<Rightarrow> (ip_error, unit) outcome" where
  "validate_reconstruction_consistency existing inc =
     (case existing of
        None \<Rightarrow> Ok ()
      | Some st \<Rightarrow>
          (case (ds_reconstruction st, in_reconstruction inc) of
             (RecIpv4 first_header _, IncIpv4 header) \<Rightarrow>
               ensure (\<not> (in_offset inc = 0
                   \<and> (case first_header of None \<Rightarrow> False | Some established \<Rightarrow> \<not> ipv4_headers_match established header)))
                 (IpMalformed InconsistentIpv4Header)
           | (RecIpv6 _ _ _ _ _, IncIpv6 _ _ _) \<Rightarrow> Ok ()
           | _ \<Rightarrow> Err FAMILY_MISMATCH))"

definition plan_final_length :: "datagram_state option \<Rightarrow> incoming \<Rightarrow> (ip_error, usize option) outcome" where
  "plan_final_length existing inc =
     (let established = Option.bind existing ds_final_length in
      let_ok
        (if in_more_fragments inc then Ok established
         else
           let_ok (case established of
               Some e \<Rightarrow> ensure (\<not> e \<noteq> in_end inc) (IpMalformed (ConflictingFinalLength e (in_end inc)))
             | None \<Rightarrow> Ok ()) (\<lambda>_.
           Ok (Some (in_end inc)))) (\<lambda>final_length.
      let_ok
        (case final_length of
           None \<Rightarrow> Ok ()
         | Some len \<Rightarrow>
             let_ok (ensure (Option.bind existing ds_max_non_final_end \<noteq> Some len)
               (IpMalformed (NonFinalAtFinalLength len))) (\<lambda>_.
             let_ok (ensure (\<not> (in_end inc > len
                 \<or> (case last_range_end existing of None \<Rightarrow> False | Some e \<Rightarrow> e > len)))
               (IpMalformed (BeyondFinalLength len))) (\<lambda>_.
             ensure (\<not> (in_more_fragments inc \<and> in_end inc \<ge> len)) (IpMalformed (NonFinalAtFinalLength len))))) (\<lambda>_.
      Ok final_length)))"

definition accumulated_ecn :: "datagram_state option \<Rightarrow> incoming \<Rightarrow> (ip_error, ecn) outcome" where
  "accumulated_ecn existing inc =
     (case existing of
        None \<Rightarrow> Ok (in_ecn inc)
      | Some st \<Rightarrow>
          (case ecn_merge (reconstruction_ecn (ds_reconstruction st)) (in_ecn inc) of
             Ok e \<Rightarrow> Ok e | Err m \<Rightarrow> Err (IpMalformed m) | Panic \<Rightarrow> Panic))"

end
