(* ===== verification/Effects.thy ===== *)
theory Effects
  imports Prelude
begin

text \<open>
  Methods that mutate \<open>self\<close> and can fail in the middle. An effect is a function from the state to the
  outcome and the state it leaves, also when the outcome is an error: \<open>and_then\<close> is the sequence of two
  statements joined by the operator \<open>?\<close>, and what the first one has written stays written when the second
  one fails. \<open>reads\<close> evaluates an expression that only borrows the state, \<open>assigns\<close> is one assignment.
\<close>

type_synonym ('s, 'e, 'a) effect = "'s \<Rightarrow> ('e, 'a) outcome \<times> 's"

definition and_then :: "('s, 'e, 'a) effect \<Rightarrow> ('a \<Rightarrow> ('s, 'e, 'b) effect) \<Rightarrow> ('s, 'e, 'b) effect" where
  "and_then m f s =
     (case m s of
        (Ok a, s') \<Rightarrow> f a s'
      | (Err e, s') \<Rightarrow> (Err e, s')
      | (Panic, s') \<Rightarrow> (Panic, s'))"

definition reads :: "('s \<Rightarrow> ('e, 'a) outcome) \<Rightarrow> ('s, 'e, 'a) effect" where
  "reads f s = (f s, s)"

definition assigns :: "('s \<Rightarrow> 's) \<Rightarrow> ('s, 'e, unit) effect" where
  "assigns f s = (Ok (), f s)"

named_theorems effect_simps \<open>the first statement of a sequence\<close>

lemma and_then_reads [effect_simps]:
  "and_then (reads f) g s = (case f s of Ok a \<Rightarrow> g a s | Err e \<Rightarrow> (Err e, s) | Panic \<Rightarrow> (Panic, s))"
  by (simp add: and_then_def reads_def split: outcome.splits)

lemma and_then_assigns [effect_simps]: "and_then (assigns f) g s = g () (f s)"
  by (simp add: and_then_def assigns_def)

lemmas run_effect = and_then_def reads_def assigns_def

end
