(* ===== verification/Ip_Merge.thy ===== *)
theory Ip_Merge
  imports Ip_Validate Effects
begin

text \<open>
  Merging one fragment into the retained ranges of its datagram (\<open>ip/engine/merge.rs\<close>): a plan that
  finds the ranges the fragment touches, the bytes it adds and the bytes it contradicts, then the
  merged range, then its place among the others.
\<close>

section \<open>The code\<close>

datatype update_kind = Unchanged | Append | Prepend | Replace

datatype range_update = UpdateUnchanged | UpdateAppend | UpdatePrepend | UpdateReplace retained_range

record merge_plan =
  mp_first_affected :: usize
  mp_affected_count :: usize
  mp_union_start :: usize
  mp_union_end :: usize
  mp_added_bytes :: usize
  mp_conflicting_bytes :: usize
  mp_result_range_count :: usize
  mp_kind :: update_kind

definition measure_overlap :: "retained_range \<Rightarrow> usize \<Rightarrow> incoming \<Rightarrow> (ip_error, usize \<times> usize) outcome" where
  "measure_overlap retained retained_end inc =
     (let overlap_start = max (rr_start retained) (in_offset inc); overlap_end = min retained_end (in_end inc) in
      let_ok (ok_or (checked_sub overlap_end overlap_start) offset_overflow) (\<lambda>len.
      let_ok (ok_or (checked_sub overlap_start (rr_start retained)) offset_overflow) (\<lambda>retained_start.
      let_ok (ok_or (checked_sub overlap_start (in_offset inc)) offset_overflow) (\<lambda>incoming_start.
      let_ok (ok_or (checked_add incoming_start len) offset_overflow) (\<lambda>incoming_stop.
      let_ok (ok_or (get_range (in_payload inc) incoming_start incoming_stop) offset_overflow) (\<lambda>incoming_overlap.
      let conflicting = length (filter (\<lambda>(a, b). a \<noteq> b)
            (zip (take len (drop retained_start (dq_items (rr_bytes retained)))) incoming_overlap)) in
      Ok (len, conflicting)))))))"

text \<open>The variables of the loop in \<open>plan_merge\<close>.\<close>

record merge_scan =
  ms_first_affected :: usize
  ms_affected_count :: usize
  ms_union_start :: usize
  ms_union_end :: usize
  ms_overlapping :: usize
  ms_conflicting :: usize

fun scan_ranges ::
    "incoming \<Rightarrow> usize \<Rightarrow> retained_range list \<Rightarrow> merge_scan \<Rightarrow> (ip_error, merge_scan) outcome" where
  "scan_ranges inc index [] s = Ok s"
| "scan_ranges inc index (retained # rest) s =
     let_ok (ok_or (range_end retained) offset_overflow) (\<lambda>stop.
     if stop < in_offset inc then
       let_ok (ok_or (checked_add index 1) offset_overflow) (\<lambda>next_index.
       scan_ranges inc (index + 1) rest (s\<lparr>ms_first_affected := next_index\<rparr>))
     else if rr_start retained > in_end inc then
       Ok (if ms_affected_count s = 0 then s\<lparr>ms_first_affected := index\<rparr> else s)
     else
       let s = (if ms_affected_count s = 0 then s\<lparr>ms_first_affected := index\<rparr> else s) in
       let_ok (ok_or (checked_add (ms_affected_count s) 1) offset_overflow) (\<lambda>affected_count.
       let s = s\<lparr>ms_affected_count := affected_count,
                 ms_union_start := min (ms_union_start s) (rr_start retained),
                 ms_union_end := max (ms_union_end s) stop\<rparr>;
           overlap_start = max (rr_start retained) (in_offset inc); overlap_end = min stop (in_end inc) in
       let_ok (if overlap_start < overlap_end then
           let_ok (measure_overlap retained stop inc) (\<lambda>(overlapping, conflicting).
           let_ok (ok_or (checked_add (ms_overlapping s) overlapping) offset_overflow) (\<lambda>overlapping_bytes.
           let_ok (ok_or (checked_add (ms_conflicting s) conflicting) offset_overflow) (\<lambda>conflicting_bytes.
           Ok (s\<lparr>ms_overlapping := overlapping_bytes, ms_conflicting := conflicting_bytes\<rparr>))))
         else Ok s) (\<lambda>s.
       scan_ranges inc (index + 1) rest s)))"

definition plan_merge :: "retained_range list \<Rightarrow> incoming \<Rightarrow> (ip_error, merge_plan) outcome" where
  "plan_merge ranges inc =
     let_ok (scan_ranges inc 0 ranges
       \<lparr>ms_first_affected = length ranges, ms_affected_count = 0, ms_union_start = in_offset inc,
        ms_union_end = in_end inc, ms_overlapping = 0, ms_conflicting = 0\<rparr>) (\<lambda>s.
     let_ok (ok_or (checked_sub (length (in_payload inc)) (ms_overlapping s)) offset_overflow) (\<lambda>added_bytes.
     let_ok (ok_or (Option.bind (checked_add (length ranges) 1) (\<lambda>count. checked_sub count (ms_affected_count s)))
       offset_overflow) (\<lambda>result_range_count.
     let target = get_index ranges (ms_first_affected s);
         kind =
           (if added_bytes = 0 \<and> ms_conflicting s = 0 then Unchanged
            else if ms_affected_count s = 1 \<and> added_bytes = length (in_payload inc)
                \<and> Option.bind target range_end = Some (in_offset inc) then Append
            else if ms_affected_count s = 1 \<and> added_bytes = length (in_payload inc)
                \<and> map_option rr_start target = Some (in_end inc) then Prepend
            else Replace) in
     Ok \<lparr>mp_first_affected = ms_first_affected s, mp_affected_count = ms_affected_count s,
         mp_union_start = ms_union_start s, mp_union_end = ms_union_end s, mp_added_bytes = added_bytes,
         mp_conflicting_bytes = ms_conflicting s, mp_result_range_count = result_range_count,
         mp_kind = kind\<rparr>)))"

definition copy_into :: "usize \<Rightarrow> bytes \<Rightarrow> bytes \<Rightarrow> (ip_error, bytes) outcome" where
  "copy_into start bs target =
     let_ok (ok_or (checked_add start (length bs)) offset_overflow) (\<lambda>stop.
     ok_or (write_range target start bs) offset_overflow)"

text \<open>The body of the loop of \<open>merge_affected\<close>: both runs of a retained ring, one behind the other.\<close>

definition copy_retained :: "usize \<Rightarrow> retained_range \<Rightarrow> bytes \<Rightarrow> (ip_error, bytes) outcome" where
  "copy_retained union_start retained target =
     let_ok (ok_or (checked_sub (rr_start retained) union_start) offset_overflow) (\<lambda>relative.
     let (first, second) = deque_as_slices (rr_bytes retained) in
     let_ok (copy_into relative first target) (\<lambda>target.
     let_ok (plus_or_panic relative (length first)) (\<lambda>behind.
     copy_into behind second target)))"

definition merge_affected ::
    "ip_allocator \<Rightarrow> retained_range list \<Rightarrow> incoming \<Rightarrow> merge_plan \<Rightarrow> overlap_policy \<Rightarrow> usize
      \<Rightarrow> (ip_error, retained_range) outcome" where
  "merge_affected alloc ranges inc plan policy capacity =
     let_ok (ok_or (checked_sub (mp_union_end plan) (mp_union_start plan)) offset_overflow) (\<lambda>union_length.
     let_ok (try_reserve alloc AllocMerge capacity) (\<lambda>_.
     let merged = deque_truncate union_length (deque_from_vec (replicate capacity 0)); target = dq_items merged in
     let_ok (ok_or (checked_sub (in_offset inc) (mp_union_start plan)) offset_overflow) (\<lambda>incoming_start.
     let incoming_last = (policy = Last) in
     let_ok (if \<not> incoming_last then copy_into incoming_start (in_payload inc) target else Ok target) (\<lambda>target.
     let_ok (for_each (copy_retained (mp_union_start plan))
       (take (mp_affected_count plan) (drop (mp_first_affected plan) ranges)) target) (\<lambda>target.
     let_ok (if incoming_last then copy_into incoming_start (in_payload inc) target else Ok target) (\<lambda>target.
     Ok \<lparr>rr_start = mp_union_start plan, rr_bytes = merged\<lparr>dq_items := target\<rparr>\<rparr>))))))"

text \<open>
  \<open>apply_range_update\<close> mutates the vector of ranges, statement by statement; what it has written when it
  fails is the state of the effect.
\<close>

definition apply_range_update ::
    "ip_allocator \<Rightarrow> range_update \<Rightarrow> incoming \<Rightarrow> merge_plan \<Rightarrow> (retained_range list, ip_error, unit) effect" where
  "apply_range_update alloc update inc plan =
     (let at = mp_first_affected plan in
      case update of
        UpdateUnchanged \<Rightarrow> reads (\<lambda>_. Ok ())
      | UpdateAppend \<Rightarrow>
          and_then (reads (\<lambda>ranges. ok_or (get_index ranges at) offset_overflow)) (\<lambda>old.
          assigns (\<lambda>ranges. ranges[at := old\<lparr>rr_bytes := deque_extend (in_payload inc) (rr_bytes old)\<rparr>]))
      | UpdatePrepend \<Rightarrow>
          and_then (reads (\<lambda>ranges. ok_or (get_index ranges at) offset_overflow)) (\<lambda>old.
          let old = old\<lparr>rr_bytes := foldr deque_push_front (in_payload inc) (rr_bytes old)\<rparr> in
          and_then (assigns (\<lambda>ranges. ranges[at := old])) (\<lambda>_.
          assigns (\<lambda>ranges. ranges[at := old\<lparr>rr_start := in_offset inc\<rparr>])))
      | UpdateReplace merged \<Rightarrow>
          and_then (reads (\<lambda>_. ok_or (checked_add at (mp_affected_count plan)) offset_overflow)) (\<lambda>replaced_end.
          and_then (reads (\<lambda>ranges. ensure (get_range ranges at replaced_end \<noteq> None) offset_overflow)) (\<lambda>_.
          and_then (reads (\<lambda>_. ensure (\<not> (mp_affected_count plan = 0 \<and> \<not> alloc AllocRangeSlot 1))
            (IpResource (AllocationFailed RANGE_METADATA_CHARGE)))) (\<lambda>_.
          assigns (\<lambda>ranges. take at ranges @ [merged] @ drop replaced_end ranges)))))"

end
