(* ===== verification/Ip_Reconstruct.thy ===== *)
theory Ip_Reconstruct
  imports Ip_Validate
begin

text \<open>
  Rebuilding the datagram (\<open>ip/engine/reconstruction.rs\<close>): which header is retained as fragments
  arrive, and the bytes of the completed datagram with its lengths, flags, checksum and congestion
  marking rewritten.
\<close>

section \<open>The retained header\<close>

definition MISSING_OFFSET_ZERO_HEADER :: ip_error where
  "MISSING_OFFSET_ZERO_HEADER = Inconsistent ''complete IPv4 payload has no offset-zero header''"

datatype retained_header = Absent | Established reconstruction | FromIncoming

fun retained_header_len :: "retained_header \<Rightarrow> incoming \<Rightarrow> usize" where
  "retained_header_len Absent inc = 0"
| "retained_header_len (Established (RecIpv4 first_header _)) inc =
     (case first_header of None \<Rightarrow> 0 | Some h \<Rightarrow> length h)"
| "retained_header_len (Established (RecIpv6 prefix _ _ _ _)) inc = length prefix"
| "retained_header_len FromIncoming inc =
     (case in_reconstruction inc of IncIpv4 header \<Rightarrow> length header | IncIpv6 prefix _ _ \<Rightarrow> length prefix)"

definition select_retained_header :: "datagram_state option \<Rightarrow> incoming \<Rightarrow> (ip_error, retained_header) outcome" where
  "select_retained_header existing inc =
     (case existing of
        None \<Rightarrow>
          Ok (case in_reconstruction inc of
                IncIpv4 _ \<Rightarrow> if in_offset inc \<noteq> 0 then Absent else FromIncoming
              | _ \<Rightarrow> FromIncoming)
      | Some st \<Rightarrow>
          let_ok
            (case (ds_reconstruction st, in_reconstruction inc) of
               (RecIpv4 first_header _, IncIpv4 _) \<Rightarrow> Ok (first_header = None)
             | (RecIpv6 _ _ _ _ from_offset_zero, IncIpv6 _ _ _) \<Rightarrow> Ok (\<not> from_offset_zero)
             | _ \<Rightarrow> Err FAMILY_MISMATCH) (\<lambda>provisional.
          Ok (if provisional \<and> in_offset inc = 0 then FromIncoming else Established (ds_reconstruction st))))"

definition reconstruction_retained_bytes :: "datagram_state option \<Rightarrow> incoming \<Rightarrow> (ip_error, usize) outcome" where
  "reconstruction_retained_bytes existing inc =
     let_ok (select_retained_header existing inc) (\<lambda>header. Ok (retained_header_len header inc))"

definition reconstruction_copied_bytes :: "datagram_state option \<Rightarrow> incoming \<Rightarrow> usize" where
  "reconstruction_copied_bytes existing inc =
     (case select_retained_header existing inc of
        Ok FromIncoming \<Rightarrow> retained_header_len FromIncoming inc
      | _ \<Rightarrow> 0)"

definition copy_bytes :: "ip_allocator \<Rightarrow> bytes \<Rightarrow> (ip_error, bytes) outcome" where
  "copy_bytes alloc bs = let_ok (try_reserve alloc AllocHeader (length bs)) (\<lambda>_. Ok bs)"

fun with_ecn :: "ecn \<Rightarrow> reconstruction \<Rightarrow> reconstruction" where
  "with_ecn e (RecIpv4 h _) = RecIpv4 h e"
| "with_ecn e (RecIpv6 p o' n _ z) = RecIpv6 p o' n e z"

definition materialize_reconstruction ::
    "ip_allocator \<Rightarrow> datagram_state option \<Rightarrow> incoming \<Rightarrow> ecn \<Rightarrow> (ip_error, reconstruction) outcome" where
  "materialize_reconstruction alloc existing inc e =
     let_ok (select_retained_header existing inc) (\<lambda>retained.
     case retained of
       Established established \<Rightarrow> Ok (with_ecn e established)
     | Absent \<Rightarrow> Ok (RecIpv4 None e)
     | FromIncoming \<Rightarrow>
         (case in_reconstruction inc of
            IncIpv4 header \<Rightarrow> let_ok (copy_bytes alloc header) (\<lambda>h. Ok (RecIpv4 (Some h) e))
          | IncIpv6 prefix predecessor next_header \<Rightarrow>
              let_ok (copy_bytes alloc prefix) (\<lambda>p.
              Ok (RecIpv6 p predecessor next_header e (in_offset inc = 0)))))"

section \<open>The completed datagram\<close>

definition reconstructed_length :: "reconstruction \<Rightarrow> usize \<Rightarrow> (ip_error, usize) outcome" where
  "reconstructed_length reconstruction payload_length =
     let_ok (case reconstruction of
         RecIpv4 first_header _ \<Rightarrow> ok_or (map_option length first_header) MISSING_OFFSET_ZERO_HEADER
       | RecIpv6 prefix _ _ _ _ \<Rightarrow> Ok (length prefix)) (\<lambda>prefix.
     ok_or (checked_add prefix payload_length) offset_overflow)"

definition payload_parts_length :: "bytes list \<Rightarrow> (ip_error, usize) outcome" where
  "payload_parts_length payload = ok_or (total_length payload) offset_overflow"

definition put_u16 :: "usize \<Rightarrow> u16 \<Rightarrow> bytes \<Rightarrow> (ip_error, bytes) outcome" where
  "put_u16 at v bs = ok_or (write_range bs at (be_bytes 2 (unat v))) offset_overflow"

definition put_byte :: "usize \<Rightarrow> (u8 \<Rightarrow> u8) \<Rightarrow> bytes \<Rightarrow> (ip_error, bytes) outcome" where
  "put_byte at f bs = let_ok (ok_or (get_index bs at) offset_overflow) (\<lambda>b. Ok (bs[at := f b]))"

definition reconstruct_ipv4 ::
    "ip_allocator \<Rightarrow> bytes option \<Rightarrow> ecn \<Rightarrow> bytes list \<Rightarrow> (ip_error, bytes) outcome" where
  "reconstruct_ipv4 alloc first_header e payload =
     let_ok (ok_or first_header MISSING_OFFSET_ZERO_HEADER) (\<lambda>header.
     let_ok (payload_parts_length payload) (\<lambda>payload_length.
     let_ok (ok_or (Option.bind (checked_add (length header) payload_length) u16_try_from)
       (IpMalformed (ReconstructedLength Ipv4))) (\<lambda>total_length.
     let_ok (try_reserve alloc AllocDatagram (unat total_length)) (\<lambda>_.
     let datagram = header @ concat payload in
     let_ok (put_u16 2 total_length datagram) (\<lambda>datagram.
     let_ok (put_byte 1 (\<lambda>tos. (tos AND 0xfc) OR ecn_ipv4_tos_bits e) datagram) (\<lambda>datagram.
     let_ok (ok_or (map_option (\<lambda>c. be16 (c ! 0) (c ! 1)) (Option.bind (get_range datagram 6 8) (first_chunk 2)))
       offset_overflow) (\<lambda>flags.
     let_ok (put_u16 6 (flags AND 0xc000) datagram) (\<lambda>datagram.
     let_ok (ok_or (write_range datagram 10 [0, 0]) offset_overflow) (\<lambda>datagram.
     let_ok (ok_or (get_range datagram 0 (length header)) offset_overflow) (\<lambda>covered.
     put_u16 10 (checksum_parts [covered]) datagram))))))))))"

definition reconstruct_ipv6 ::
    "ip_allocator \<Rightarrow> bytes \<Rightarrow> usize \<Rightarrow> u8 \<Rightarrow> ecn \<Rightarrow> bytes list \<Rightarrow> (ip_error, bytes) outcome" where
  "reconstruct_ipv6 alloc prefix predecessor_next_header_offset next_header e payload =
     let_ok (ok_or (checked_sub (length prefix) IPV6_LENGTH) offset_overflow) (\<lambda>extension_length.
     let_ok (payload_parts_length payload) (\<lambda>payload_bytes.
     let_ok (ok_or (Option.bind (checked_add extension_length payload_bytes) u16_try_from)
       (IpMalformed (ReconstructedLength Ipv6))) (\<lambda>payload_length.
     let_ok (ok_or (checked_add (length prefix) payload_bytes) offset_overflow) (\<lambda>requested.
     let_ok (try_reserve alloc AllocDatagram requested) (\<lambda>_.
     let datagram = prefix @ concat payload in
     let_ok (put_u16 4 payload_length datagram) (\<lambda>datagram.
     let_ok (put_byte 1 (\<lambda>traffic_class. (traffic_class AND NOT 0x30) OR ecn_ipv6_traffic_class_bits e) datagram) (\<lambda>datagram.
     put_byte predecessor_next_header_offset (\<lambda>_. next_header) datagram)))))))"

fun reconstruct_bytes :: "ip_allocator \<Rightarrow> reconstruction \<Rightarrow> bytes list \<Rightarrow> (ip_error, bytes) outcome" where
  "reconstruct_bytes alloc (RecIpv4 first_header e) payload = reconstruct_ipv4 alloc first_header e payload"
| "reconstruct_bytes alloc (RecIpv6 prefix predecessor next_header e _) payload =
     reconstruct_ipv6 alloc prefix predecessor next_header e payload"

end
