(* ===== verification/Ip_Engine.thy ===== *)
theory Ip_Engine
  imports Ip_Merge Ip_Reconstruct
begin

text \<open>
  The IP reassembler (\<open>ip/engine.rs\<close>). A push plans first and touches the table last: everything up to
  the chosen update reads the state, \<open>ip_complete\<close> removes a completed datagram and \<open>ip_store\<close> writes
  an incomplete one. The two are effects, statement by statement in the order of the code, so that what
  a failure in the middle leaves behind is visible.
\<close>

definition INCOMPLETE_RECONSTRUCTION :: ip_error where
  "INCOMPLETE_RECONSTRUCTION = Inconsistent ''reconstruction requested before the datagram completed''"

section \<open>Charges\<close>

record charges =
  ch_unique_bytes :: usize
  ch_duplicate_fragments :: usize
  ch_overlap_bytes :: usize
  ch_new_slot_charge :: usize
  ch_prospective_charge :: usize
  ch_aggregate_memory_charge :: usize
  ch_replacement_peak_charge :: usize
  ch_aggregate_payload_bytes :: usize
  ch_last_update :: instant
  ch_deadline :: "instant option"

record storage_plan =
  sp_retained_payload :: usize
  sp_allocation :: usize

definition aggregate_limit :: "ip_reassembler \<Rightarrow> ip_error" where
  "aggregate_limit r = IpResource (AggregateMemoryLimit (ip_max_aggregate_bytes (ir_limits r)))"

definition contains_datagram :: "ip_reassembler \<Rightarrow> datagram_key \<Rightarrow> bool" where
  "contains_datagram r key \<longleftrightarrow> bt_get (ir_datagrams r) key \<noteq> None"

definition replacement_allocation_charge ::
    "ip_reassembler \<Rightarrow> merge_plan \<Rightarrow> storage_plan \<Rightarrow> usize \<Rightarrow> usize \<Rightarrow> (ip_error, usize) outcome" where
  "replacement_allocation_charge r merge storage reconstruction new_slot_charge =
     let_ok (ok_or (checked_mul (mp_result_range_count merge) RANGE_METADATA_CHARGE) (aggregate_limit r)) (\<lambda>range_metadata.
     ok_or (Option.bind (Option.bind (checked_add range_metadata (sp_allocation storage))
         (\<lambda>charge. checked_add charge reconstruction)) (\<lambda>charge. checked_add charge new_slot_charge))
       (aggregate_limit r))"

definition total_capacity :: "retained_range list \<Rightarrow> usize option" where
  "total_capacity ranges =
     foldl (\<lambda>total range'. Option.bind total (\<lambda>t. checked_add t (dq_capacity (rr_bytes range')))) (Some 0) ranges"

definition plan_storage ::
    "ip_reassembler \<Rightarrow> retained_range list \<Rightarrow> merge_plan \<Rightarrow> usize \<Rightarrow> (ip_error, storage_plan) outcome" where
  "plan_storage r ranges merge capacity =
     let_ok (ok_or (total_capacity ranges) (aggregate_limit r)) (\<lambda>retained.
     if mp_kind merge = Unchanged then Ok \<lparr>sp_retained_payload = retained, sp_allocation = 0\<rparr>
     else
       let_ok (expect (get_range ranges (mp_first_affected merge) (mp_first_affected merge + mp_affected_count merge)))
         (\<lambda>affected_ranges.
       let_ok (ok_or (total_capacity affected_ranges) (aggregate_limit r)) (\<lambda>affected.
       let_ok (minus_or_panic (mp_union_end merge) (mp_union_start merge)) (\<lambda>required.
       if mp_kind merge \<in> {Append, Prepend} \<and> affected \<ge> required
       then Ok \<lparr>sp_retained_payload = retained, sp_allocation = 0\<rparr>
       else
         let allocation = max capacity required in
         let_ok (ok_or (Option.bind (checked_sub retained affected) (\<lambda>n. checked_add n allocation))
           (aggregate_limit r)) (\<lambda>retained_payload.
         Ok \<lparr>sp_retained_payload = retained_payload, sp_allocation = allocation\<rparr>)))))"

definition completes :: "merge_plan \<Rightarrow> usize option \<Rightarrow> bool" where
  "completes merge final_length \<longleftrightarrow>
     (case final_length of None \<Rightarrow> False
      | Some len \<Rightarrow> mp_result_range_count merge = 1 \<and> mp_union_start merge = 0 \<and> mp_union_end merge = len)"

definition admit_charges ::
    "ip_reassembler \<Rightarrow> datagram_state option \<Rightarrow> incoming \<Rightarrow> merge_plan \<Rightarrow> storage_plan \<Rightarrow> instant \<Rightarrow> usize
      \<Rightarrow> (ip_error, charges) outcome" where
  "admit_charges r existing inc merge storage now external_charge =
     (let limits = ir_limits r; max_aggregate = ip_max_aggregate_bytes limits;
          over = aggregate_limit r;
          old_unique_bytes = (case existing of None \<Rightarrow> 0 | Some st \<Rightarrow> ds_unique_bytes st);
          new_slot_charge =
            (if existing = None \<and> length (ir_datagrams r) \<ge> rt_datagram_slots (ir_retained r)
             then DATAGRAM_METADATA_CHARGE else 0) in
      let_ok (ok_or (Option.bind (checked_add old_unique_bytes (mp_added_bytes merge))
          (\<lambda>n. if n \<le> max_bytes_per_datagram limits then Some n else None))
        (IpResource (DatagramByteLimit (max_bytes_per_datagram limits)))) (\<lambda>unique_bytes.
      let_ok (reconstruction_retained_bytes existing inc) (\<lambda>reconstruction_bytes.
      let reconstruction_allocation = reconstruction_copied_bytes existing inc;
          last_update = (case existing of None \<Rightarrow> now | Some st \<Rightarrow> max (ds_last_update st) now) in
      let_ok (ok_or (instant_checked_add last_update (ip_idle_expiry limits))
        (IpResource (IdleExpiryRange (ip_idle_expiry limits)))) (\<lambda>deadline.
      let_ok (ok_or (checked_add (case existing of None \<Rightarrow> 0 | Some st \<Rightarrow> ds_duplicate_fragments st)
        (if mp_kind merge = Unchanged then 1 else 0)) over) (\<lambda>duplicate_fragments.
      let_ok (ok_or (checked_add (case existing of None \<Rightarrow> 0 | Some st \<Rightarrow> ds_overlap_bytes st)
        (mp_conflicting_bytes merge)) over) (\<lambda>overlap_bytes.
      let_ok (ok_or (Option.bind (Option.bind (checked_mul (mp_result_range_count merge) RANGE_METADATA_CHARGE)
          (\<lambda>charge. checked_add charge (sp_retained_payload storage)))
          (\<lambda>charge. checked_add charge reconstruction_bytes)) over) (\<lambda>prospective_charge.
      let old_charge = (case existing of None \<Rightarrow> 0 | Some st \<Rightarrow> ds_memory_charge st) in
      let_ok (ok_or (Option.bind (Option.bind (Option.bind (checked_sub (rt_memory_charge (ir_retained r)) old_charge)
          (\<lambda>charge. checked_add charge prospective_charge))
          (\<lambda>charge. checked_add charge new_slot_charge))
          (\<lambda>charge. if (case checked_add charge external_charge of None \<Rightarrow> False | Some n \<Rightarrow> n \<le> max_aggregate)
                     then Some charge else None)) over) (\<lambda>aggregate_memory_charge.
      let_ok (replacement_allocation_charge r merge storage reconstruction_allocation new_slot_charge) (\<lambda>replacement_allocation.
      let_ok (ok_or (Option.bind (Option.bind (checked_add (rt_memory_charge (ir_retained r)) replacement_allocation)
          (\<lambda>charge. checked_add charge external_charge))
          (\<lambda>charge. if charge \<le> max_aggregate then Some charge else None)) over) (\<lambda>replacement_peak_charge.
      let_ok (plan_final_length existing inc) (\<lambda>final_length.
      let_ok (if completes merge final_length
          then let_ok (ok_or (Option.bind (Option.bind (checked_add replacement_peak_charge reconstruction_bytes)
              (\<lambda>charge. checked_add charge (mp_union_end merge)))
              (\<lambda>charge. if charge \<le> max_aggregate then Some charge else None)) over) (\<lambda>_. Ok ())
          else Ok ()) (\<lambda>_.
      let_ok (ok_or (Option.bind (Option.bind (checked_sub (rt_payload_bytes (ir_retained r)) old_unique_bytes)
          (\<lambda>n. checked_add n unique_bytes))
          (\<lambda>n. if n \<le> max_aggregate then Some n else None)) over) (\<lambda>aggregate_payload_bytes.
      Ok \<lparr>ch_unique_bytes = unique_bytes, ch_duplicate_fragments = duplicate_fragments,
          ch_overlap_bytes = overlap_bytes, ch_new_slot_charge = new_slot_charge,
          ch_prospective_charge = prospective_charge, ch_aggregate_memory_charge = aggregate_memory_charge,
          ch_replacement_peak_charge = replacement_peak_charge,
          ch_aggregate_payload_bytes = aggregate_payload_bytes, ch_last_update = last_update,
          ch_deadline = Some deadline\<rparr>)))))))))))))"

section \<open>Choosing a capacity\<close>

text \<open>
  When the preferred capacity does not fit the aggregate limit, a binary search finds one that does.
  \<open>try_capacity\<close> plans and charges one candidate.
\<close>

definition try_capacity ::
    "ip_reassembler \<Rightarrow> datagram_state option \<Rightarrow> incoming \<Rightarrow> merge_plan \<Rightarrow> instant \<Rightarrow> usize \<Rightarrow> retained_range list
      \<Rightarrow> usize \<Rightarrow> (ip_error, storage_plan \<times> (ip_error, charges) outcome) outcome" where
  "try_capacity r existing inc merge now external_charge ranges capacity =
     let_ok (plan_storage r ranges merge capacity) (\<lambda>storage.
     Ok (storage, admit_charges r existing inc merge storage now external_charge))"

fun over_aggregate :: "(ip_error, charges) outcome \<Rightarrow> bool" where
  "over_aggregate (Err (IpResource (AggregateMemoryLimit _))) = True"
| "over_aggregate _ = False"

function search_capacity ::
    "(usize \<Rightarrow> (ip_error, storage_plan \<times> (ip_error, charges) outcome) outcome) \<Rightarrow> usize \<Rightarrow> usize
      \<Rightarrow> storage_plan \<Rightarrow> charges \<Rightarrow> (ip_error, storage_plan \<times> charges) outcome" where
  "search_capacity attempt lower upper storage accepted =
     (if lower < upper then
        let candidate = lower + (upper - lower + 1) div 2 in
        let_ok (attempt candidate) (\<lambda>(candidate_storage, admitted).
        case admitted of
          Ok candidate_charges \<Rightarrow> search_capacity attempt candidate upper candidate_storage candidate_charges
        | Err e \<Rightarrow>
            if over_aggregate (Err e) then search_capacity attempt lower (candidate - 1) storage accepted
            else Err e
        | Panic \<Rightarrow> Panic)
      else Ok (storage, accepted))"
  by pat_completeness auto
termination
  by (relation "measure (\<lambda>(_, lower, upper, _). upper - lower)") auto

definition choose_capacity ::
    "(usize \<Rightarrow> (ip_error, storage_plan \<times> (ip_error, charges) outcome) outcome) \<Rightarrow> usize \<Rightarrow> usize
      \<Rightarrow> (ip_error, storage_plan \<times> charges) outcome" where
  "choose_capacity attempt required preferred =
     let_ok (attempt preferred) (\<lambda>(storage, admitted).
     if over_aggregate admitted \<and> preferred > required then
       let_ok (attempt required) (\<lambda>(storage, admitted).
       let_ok admitted (\<lambda>accepted.
       search_capacity attempt required (preferred - 1) storage accepted))
     else let_ok admitted (\<lambda>accepted. Ok (storage, accepted)))"

section \<open>Planning a push\<close>

record ip_push_plan =
  ip_incoming :: incoming
  ip_fragment_count :: usize
  ip_final_length :: "usize option"
  ip_merge :: merge_plan
  ip_charges :: charges
  ip_reconstruction :: reconstruction
  ip_update :: range_update

definition preferred_capacity :: "ip_limits \<Rightarrow> retained_range list \<Rightarrow> merge_plan \<Rightarrow> usize \<Rightarrow> (ip_error, usize) outcome" where
  "preferred_capacity limits ranges merge required =
     (if mp_kind merge \<in> {Append, Prepend} then
        let_ok (expect (get_index ranges (mp_first_affected merge))) (\<lambda>old.
        Ok (min (max (saturating_mul (dq_capacity (rr_bytes old)) 2) required) (max_bytes_per_datagram limits)))
      else Ok required)"

definition choose_update ::
    "ip_allocator \<Rightarrow> ip_reassembler \<Rightarrow> datagram_state option \<Rightarrow> incoming \<Rightarrow> merge_plan \<Rightarrow> instant \<Rightarrow> usize
      \<Rightarrow> retained_range list \<Rightarrow> storage_plan \<Rightarrow> charges \<Rightarrow> (ip_error, range_update \<times> charges) outcome" where
  "choose_update alloc r existing inc merge now external_charge ranges storage charges =
     (if sp_allocation storage \<noteq> 0 then
        let_ok (merge_affected alloc ranges inc merge (ir_overlap_policy r) (sp_allocation storage)) (\<lambda>merged.
        let_ok (if dq_capacity (rr_bytes merged) \<noteq> sp_allocation storage
            then let_ok (plan_storage r ranges merge (dq_capacity (rr_bytes merged))) (\<lambda>storage.
              admit_charges r existing inc merge storage now external_charge)
            else Ok charges) (\<lambda>charges.
        Ok (UpdateReplace merged, charges)))
      else
        (case mp_kind merge of
           Unchanged \<Rightarrow> Ok (UpdateUnchanged, charges)
         | Append \<Rightarrow> Ok (UpdateAppend, charges)
         | Prepend \<Rightarrow> Ok (UpdatePrepend, charges)
         | Replace \<Rightarrow> Err INCOMPLETE_RECONSTRUCTION))"

definition ranges_of :: "datagram_state option \<Rightarrow> retained_range list" where
  "ranges_of existing = (case existing of None \<Rightarrow> [] | Some st \<Rightarrow> ds_ranges st)"

text \<open>The second half of planning: a capacity that is charged for, the retained header, the update.\<close>

definition plan_update ::
    "ip_allocator \<Rightarrow> ip_reassembler \<Rightarrow> datagram_state option \<Rightarrow> incoming \<Rightarrow> ecn \<Rightarrow> merge_plan \<Rightarrow> instant \<Rightarrow> usize
      \<Rightarrow> retained_range list \<Rightarrow> (ip_error, reconstruction \<times> range_update \<times> charges) outcome" where
  "plan_update alloc r existing inc e merge now external_charge ranges =
     let_ok (minus_or_panic (mp_union_end merge) (mp_union_start merge)) (\<lambda>required.
     let_ok (preferred_capacity (ir_limits r) ranges merge required) (\<lambda>preferred.
     let_ok (choose_capacity (try_capacity r existing inc merge now external_charge ranges) required preferred)
       (\<lambda>(storage, charges).
     let_ok (materialize_reconstruction alloc existing inc e) (\<lambda>reconstruction.
     let_ok (choose_update alloc r existing inc merge now external_charge ranges storage charges) (\<lambda>(update, charges).
     Ok (reconstruction, update, charges))))))"

definition ip_plan_push ::
    "ip_allocator \<Rightarrow> fragment \<Rightarrow> instant \<Rightarrow> usize \<Rightarrow> ip_reassembler \<Rightarrow> (ip_error, ip_push_plan) outcome" where
  "ip_plan_push alloc fragment now external_charge r =
     (let limits = ir_limits r in
      let_ok (validate_fragment fragment limits) (\<lambda>inc.
      let existing = bt_get (ir_datagrams r) (in_key inc) in
      let_ok (ensure (\<not> (existing = None \<and> length (ir_datagrams r) \<ge> max_datagrams limits))
        (IpResource (DatagramLimit (max_datagrams limits)))) (\<lambda>_.
      let_ok (ok_or (Option.bind (checked_add (case existing of None \<Rightarrow> 0 | Some st \<Rightarrow> ds_fragment_count st) 1)
          (\<lambda>count. if count \<le> max_fragments_per_datagram limits then Some count else None))
        (IpResource (FragmentLimit (max_fragments_per_datagram limits)))) (\<lambda>fragment_count.
      let_ok (validate_reconstruction_consistency existing inc) (\<lambda>_.
      let_ok (accumulated_ecn existing inc) (\<lambda>e.
      let_ok (plan_final_length existing inc) (\<lambda>final_length.
      let_ok (validate_family_wire_extent existing inc final_length) (\<lambda>_.
      let ranges = ranges_of existing in
      let_ok (plan_merge ranges inc) (\<lambda>merge.
      let_ok (ensure (\<not> (mp_conflicting_bytes merge \<noteq> 0 \<and> ir_overlap_policy r = Reject))
        (IpMalformed (ConflictingOverlap (mp_conflicting_bytes merge)))) (\<lambda>_.
      let_ok (plan_update alloc r existing inc e merge now external_charge ranges) (\<lambda>(reconstruction, update, charges).
      Ok \<lparr>ip_incoming = inc, ip_fragment_count = fragment_count, ip_final_length = final_length,
          ip_merge = merge, ip_charges = charges, ip_reconstruction = reconstruction, ip_update = update\<rparr>)))))))))))"

definition disposition_of :: "overlap_policy \<Rightarrow> incoming \<Rightarrow> merge_plan \<Rightarrow> fragment_disposition" where
  "disposition_of policy inc merge =
     (if mp_kind merge = Unchanged then Duplicate (length (in_payload inc))
      else if mp_conflicting_bytes merge \<noteq> 0
      then OverlapResolved policy (mp_conflicting_bytes merge) (mp_added_bytes merge)
      else Accepted (mp_added_bytes merge))"

definition outcome_of :: "ip_reassembler \<Rightarrow> ip_push_plan \<Rightarrow> fragment_outcome" where
  "outcome_of r p =
     \<lparr>fo_key = in_key (ip_incoming p),
      fo_disposition = disposition_of (ir_overlap_policy r) (ip_incoming p) (ip_merge p),
      fo_fragment_count = ip_fragment_count p, fo_unique_bytes = ch_unique_bytes (ip_charges p),
      fo_known_final_length = ip_final_length p\<rparr>"

section \<open>Committing a push\<close>

definition completed_payload ::
    "retained_range list \<Rightarrow> range_update \<Rightarrow> incoming \<Rightarrow> (ip_error, bytes list) outcome" where
  "completed_payload ranges update inc =
     (let retained = map_option (deque_as_slices \<circ> rr_bytes) (get_index ranges 0) in
      case update of
        UpdateUnchanged \<Rightarrow>
          let_ok (ok_or retained INCOMPLETE_RECONSTRUCTION) (\<lambda>(first, second). Ok [first, second, []])
      | UpdateAppend \<Rightarrow>
          let_ok (ok_or retained INCOMPLETE_RECONSTRUCTION) (\<lambda>(first, second). Ok [first, second, in_payload inc])
      | UpdatePrepend \<Rightarrow>
          let_ok (ok_or retained INCOMPLETE_RECONSTRUCTION) (\<lambda>(first, second). Ok [in_payload inc, first, second])
      | UpdateReplace merged \<Rightarrow>
          let (first, second) = deque_as_slices (rr_bytes merged) in Ok [first, second, []])"

text \<open>
  The branch of \<open>push_with_external_charge\<close> that delivers a datagram. The statements come in the order of the
  code: the reassembler is written only after the last one that can fail.
\<close>

definition ip_complete :: "ip_allocator \<Rightarrow> ip_push_plan \<Rightarrow> (ip_reassembler, ip_error, push_outcome) effect" where
  "ip_complete alloc p =
     (let inc = ip_incoming p; key = in_key inc; final_length = mp_union_end (ip_merge p) in
      and_then (reads (\<lambda>r. Ok (outcome_of r p, bt_get (ir_datagrams r) key))) (\<lambda>(fragment_outcome, existing).
      and_then (reads (\<lambda>_. reconstructed_length (ip_reconstruction p) final_length)) (\<lambda>datagram_charge.
      and_then (reads (\<lambda>r. ok_or (Option.bind (checked_add (ch_replacement_peak_charge (ip_charges p)) datagram_charge)
          (\<lambda>charge. if charge \<le> ip_max_aggregate_bytes (ir_limits r) then Some charge else None))
        (aggregate_limit r))) (\<lambda>_.
      and_then (reads (\<lambda>_. completed_payload (ranges_of existing) (ip_update p) inc)) (\<lambda>payload.
      and_then (reads (\<lambda>_. reconstruct_bytes alloc (ip_reconstruction p) payload)) (\<lambda>bs.
      let datagram =
            \<lparr>cd_key = key, cd_bytes = bs, cd_fragment_count = ip_fragment_count p,
             cd_unique_bytes = ch_unique_bytes (ip_charges p), cd_final_payload_length = final_length,
             cd_duplicate_fragments = ch_duplicate_fragments (ip_charges p),
             cd_overlap_bytes = ch_overlap_bytes (ip_charges p)\<rparr> in
      and_then (assigns (\<lambda>r. r\<lparr>ir_expiry := expiry_remove (Option.bind existing ds_deadline) key (ir_expiry r)\<rparr>)) (\<lambda>_.
      and_then (reads (\<lambda>r. Ok (bt_get (ir_datagrams r) key))) (\<lambda>removed.
      and_then (assigns (\<lambda>r. r\<lparr>ir_datagrams := bt_remove key (ir_datagrams r)\<rparr>)) (\<lambda>_.
      and_then (reads (\<lambda>r. case removed of
            None \<Rightarrow> Ok (ir_retained r)
          | Some st \<Rightarrow> retained_release st (ir_retained r))) (\<lambda>retained.
      and_then (assigns (\<lambda>r. r\<lparr>ir_retained := retained\<rparr>)) (\<lambda>_.
      reads (\<lambda>_. Ok (PushCompleted fragment_outcome datagram)))))))))))))"

definition next_non_final_end :: "datagram_state option \<Rightarrow> incoming \<Rightarrow> usize option" where
  "next_non_final_end existing inc =
     (if in_more_fragments inc
      then Some (case Option.bind existing ds_max_non_final_end of
          None \<Rightarrow> in_end inc | Some e \<Rightarrow> max e (in_end inc))
      else Option.bind existing ds_max_non_final_end)"

text \<open>
  \<open>slot\<close>: the vector of ranges an update works on is the one inside the table, reached through \<open>get_mut\<close>, or
  a fresh one when the datagram is new. \<open>in_slot\<close> runs an effect on it and hands the vector on;
  \<open>write_slot\<close> stores a vector, and does nothing for a new datagram.
\<close>

definition write_slot :: "datagram_key \<Rightarrow> retained_range list \<Rightarrow> ip_reassembler \<Rightarrow> ip_reassembler" where
  "write_slot key ranges r =
     (case bt_get (ir_datagrams r) key of
        None \<Rightarrow> r
      | Some st \<Rightarrow> r\<lparr>ir_datagrams := bt_insert key (st\<lparr>ds_ranges := ranges\<rparr>) (ir_datagrams r)\<rparr>)"

definition in_slot ::
    "datagram_key \<Rightarrow> (retained_range list, ip_error, unit) effect \<Rightarrow> (ip_reassembler, ip_error, retained_range list) effect" where
  "in_slot key m r =
     (let (applied, ranges) = m (ranges_of (bt_get (ir_datagrams r) key)) in
      (let_ok applied (\<lambda>_. Ok ranges), write_slot key ranges r))"

definition ip_store :: "ip_allocator \<Rightarrow> ip_push_plan \<Rightarrow> (ip_reassembler, ip_error, push_outcome) effect" where
  "ip_store alloc p =
     (let inc = ip_incoming p; key = in_key inc; ch = ip_charges p in
      and_then (reads (\<lambda>r. Ok (outcome_of r p, bt_get (ir_datagrams r) key))) (\<lambda>(fragment_outcome, existing).
      and_then (reads (\<lambda>_. ensure (\<not> (existing = None \<and> \<not> alloc AllocDatagramSlot 1))
        (IpResource (AllocationFailed (ch_prospective_charge ch))))) (\<lambda>_.
      and_then (in_slot key (apply_range_update alloc (ip_update p) inc (ip_merge p))) (\<lambda>ranges.
      and_then (assigns (write_slot key [])) (\<lambda>_.
      let new_state =
            \<lparr>ds_ranges = ranges, ds_unique_bytes = ch_unique_bytes ch,
             ds_fragment_count = ip_fragment_count p,
             ds_duplicate_fragments = ch_duplicate_fragments ch,
             ds_overlap_bytes = ch_overlap_bytes ch, ds_final_length = ip_final_length p,
             ds_max_non_final_end = next_non_final_end existing inc,
             ds_reconstruction = ip_reconstruction p, ds_last_update = ch_last_update ch,
             ds_deadline = ch_deadline ch, ds_memory_charge = ch_prospective_charge ch\<rparr>;
          previous_deadline = Option.bind existing ds_deadline in
      and_then (assigns (\<lambda>r. r\<lparr>ir_datagrams := bt_insert key new_state (ir_datagrams r)\<rparr>)) (\<lambda>_.
      and_then (assigns (\<lambda>r. if previous_deadline \<noteq> ch_deadline ch
          then r\<lparr>ir_expiry := expiry_insert (ch_deadline ch) key (expiry_remove previous_deadline key (ir_expiry r))\<rparr>
          else r)) (\<lambda>_.
      and_then (assigns (\<lambda>r. if ch_new_slot_charge ch \<noteq> 0
          then r\<lparr>ir_retained := (ir_retained r)\<lparr>rt_datagram_slots := saturating_add (rt_datagram_slots (ir_retained r)) 1\<rparr>\<rparr>
          else r)) (\<lambda>_.
      and_then (assigns (\<lambda>r. r\<lparr>ir_retained := (ir_retained r)\<lparr>rt_payload_bytes := ch_aggregate_payload_bytes ch\<rparr>\<rparr>)) (\<lambda>_.
      and_then (assigns (\<lambda>r. r\<lparr>ir_retained := (ir_retained r)\<lparr>rt_memory_charge := ch_aggregate_memory_charge ch\<rparr>\<rparr>)) (\<lambda>_.
      reads (\<lambda>_. Ok (PushAccepted fragment_outcome))))))))))))"

text \<open>
  Planning only borrows the reassembler: \<open>existing\<close> points into the table until the plan is made, and
  \<open>storage_plan\<close> and \<open>admit_charges\<close> take \<open>&self\<close>.
\<close>

definition push_with_external_charge ::
    "ip_allocator \<Rightarrow> fragment \<Rightarrow> instant \<Rightarrow> usize \<Rightarrow> (ip_reassembler, ip_error, push_outcome) effect" where
  "push_with_external_charge alloc fragment now external_charge =
     and_then (reads (ip_plan_push alloc fragment now external_charge)) (\<lambda>p.
     if completes (ip_merge p) (ip_final_length p) then ip_complete alloc p else ip_store alloc p)"

definition ip_push ::
    "ip_allocator \<Rightarrow> fragment \<Rightarrow> instant \<Rightarrow> ip_reassembler \<Rightarrow> (ip_error, push_outcome) outcome \<times> ip_reassembler" where
  "ip_push alloc fragment now r = push_with_external_charge alloc fragment now 0 r"

section \<open>Retiring datagrams\<close>

definition ip_new :: "instant \<Rightarrow> ip_limits \<Rightarrow> overlap_policy \<Rightarrow> (analysis_error, ip_reassembler) outcome" where
  "ip_new clock limits policy =
     let_ok (ip_limits_validate clock limits) (\<lambda>_.
     Ok \<lparr>ir_limits = limits, ir_overlap_policy = policy, ir_datagrams = [], ir_expiry = [],
         ir_retained = \<lparr>rt_payload_bytes = 0, rt_memory_charge = 0, rt_datagram_slots = 0\<rparr>\<rparr>)"

definition incomplete_of :: "datagram_key \<Rightarrow> datagram_state \<Rightarrow> incomplete_reason \<Rightarrow> incomplete_datagram" where
  "incomplete_of key st reason =
     \<lparr>id_key = key, id_reason = reason, id_fragment_count = ds_fragment_count st,
      id_unique_bytes = ds_unique_bytes st, id_known_final_length = ds_final_length st,
      id_duplicate_fragments = ds_duplicate_fragments st, id_overlap_bytes = ds_overlap_bytes st\<rparr>"

definition retired_omit :: "family \<Rightarrow> retired_datagrams \<Rightarrow> retired_datagrams" where
  "retired_omit fam rd =
     (case fam of
        Ipv4 \<Rightarrow> rd\<lparr>rd_omitted_ipv4 := saturating_add (rd_omitted_ipv4 rd) 1\<rparr>
      | Ipv6 \<Rightarrow> rd\<lparr>rd_omitted_ipv6 := saturating_add (rd_omitted_ipv6 rd) 1\<rparr>)"

definition retired_push :: "usize \<Rightarrow> incomplete_datagram \<Rightarrow> retired_datagrams \<Rightarrow> retired_datagrams" where
  "retired_push limit outcome rd =
     (if length (rd_outcomes rd) < limit then rd\<lparr>rd_outcomes := rd_outcomes rd @ [outcome]\<rparr>
      else retired_omit (incomplete_family outcome) rd)"

text \<open>The closure \<open>expire\<close> hands to \<open>drain_expired\<close>.\<close>

definition expire_one ::
    "usize \<Rightarrow> datagram_key \<Rightarrow> (datagram_key, datagram_state) btree \<times> ip_retained \<times> retired_datagrams
      \<Rightarrow> ('e, (datagram_key, datagram_state) btree \<times> ip_retained \<times> retired_datagrams) outcome" where
  "expire_one retain_limit key acc =
     (let (datagrams, retained, retired) = acc in
      case bt_get datagrams key of
        None \<Rightarrow> Ok acc
      | Some st \<Rightarrow>
          let_ok (retained_release st retained) (\<lambda>retained.
          Ok (bt_remove key datagrams, retained,
              retired_push retain_limit (incomplete_of key st IdleExpired) retired)))"

definition ip_expire :: "instant \<Rightarrow> ip_reassembler \<Rightarrow> ('e, retired_datagrams \<times> ip_reassembler) outcome" where
  "ip_expire now r =
     (let (keys, expiry) = drain_expired now (ir_expiry r) in
      let_ok (for_each (expire_one (max_retained_outcomes (ir_limits r))) keys
        (ir_datagrams r, ir_retained r, retired_default)) (\<lambda>(datagrams, retained, retired).
      Ok (retired, r\<lparr>ir_expiry := expiry, ir_datagrams := datagrams, ir_retained := retained\<rparr>)))"

text \<open>
  \<open>flush\<close> keeps the smallest keys in a max-heap of bounded size; the heap is the sorted list of the
  keys it holds, its greatest element last. The table is a \<open>HashMap\<close>, so the order in which \<open>keys\<close> and
  \<open>drain\<close> visit its entries is a parameter, \<open>visit\<close>.
\<close>

definition keep_smallest :: "usize \<Rightarrow> datagram_key \<Rightarrow> datagram_key list \<Rightarrow> datagram_key list" where
  "keep_smallest retain_limit key heap =
     (if length heap < retain_limit then insort key heap
      else if heap \<noteq> [] \<and> key < last heap then insort key (butlast heap)
      else heap)"

definition flush_retained ::
    "datagram_key \<Rightarrow> (datagram_key, datagram_state) btree \<times> ip_retained \<times> retired_datagrams
      \<Rightarrow> ('e, (datagram_key, datagram_state) btree \<times> ip_retained \<times> retired_datagrams) outcome" where
  "flush_retained key acc =
     (let (datagrams, retained, retired) = acc in
      case bt_get datagrams key of
        None \<Rightarrow> Ok acc
      | Some st \<Rightarrow>
          let_ok (retained_release st retained) (\<lambda>retained.
          Ok (bt_remove key datagrams, retained,
              retired\<lparr>rd_outcomes := rd_outcomes retired @ [incomplete_of key st EndOfCapture]\<rparr>)))"

definition flush_omitted ::
    "datagram_key \<times> datagram_state \<Rightarrow> ip_retained \<times> retired_datagrams \<Rightarrow> ('e, ip_retained \<times> retired_datagrams) outcome" where
  "flush_omitted entry acc =
     (let (key, st) = entry; (retained, retired) = acc in
      let_ok (retained_release st retained) (\<lambda>retained.
      Ok (retained, retired_omit (datagram_key_family key) retired)))"

definition ip_flush ::
    "((datagram_key, datagram_state) btree \<Rightarrow> (datagram_key \<times> datagram_state) list) \<Rightarrow> ip_reassembler
      \<Rightarrow> ('e, retired_datagrams \<times> ip_reassembler) outcome" where
  "ip_flush visit r =
     (let retain_limit = min (max_retained_outcomes (ir_limits r)) (length (ir_datagrams r));
          retained_keys = fold (keep_smallest retain_limit) (map fst (visit (ir_datagrams r))) [] in
      let_ok (for_each flush_retained retained_keys (ir_datagrams r, ir_retained r, retired_default))
        (\<lambda>(datagrams, retained, retired).
      let_ok (for_each flush_omitted (visit datagrams) (retained, retired)) (\<lambda>(retained, retired).
      Ok (retired, r\<lparr>ir_datagrams := [], ir_expiry := [], ir_retained := retained\<rparr>))))"

definition ip_datagram_count :: "ip_reassembler \<Rightarrow> usize" where
  "ip_datagram_count r = length (ir_datagrams r)"

definition ip_aggregate_payload_bytes :: "ip_reassembler \<Rightarrow> usize" where
  "ip_aggregate_payload_bytes r = rt_payload_bytes (ir_retained r)"

definition ip_aggregate_memory_charge :: "ip_reassembler \<Rightarrow> usize" where
  "ip_aggregate_memory_charge r = rt_memory_charge (ir_retained r)"

end
