(* ===== verification/Ip_Ranges.thy ===== *)
theory Ip_Ranges
  imports Ip_Engine
begin

text \<open>
  What the retained ranges hold, as a partial map from positions of the payload to bytes, and what
  merging one fragment does to that map: the plan counts exactly the positions the fragment adds and
  those it contradicts, and the ranges after the update hold the union of both maps, with the
  overlap decided by the policy.
\<close>

section \<open>Bytes at positions\<close>

definition bytes_at :: "nat \<Rightarrow> bytes \<Rightarrow> nat \<rightharpoonup> u8" where
  "bytes_at s bs = (\<lambda>p. if s \<le> p \<and> p < s + length bs then Some (bs ! (p - s)) else None)"

lemma dom_bytes_at [simp]: "dom (bytes_at s bs) = {s..<s + length bs}"
  by (auto simp: bytes_at_def split: if_splits)

lemma bytes_at_append: "bytes_at s (xs @ ys) = bytes_at s xs ++ bytes_at (s + length xs) ys"
  by (rule ext) (auto simp: bytes_at_def map_add_def nth_append)

lemma bytes_at_copy_at:
  assumes "i + length ys \<le> length xs"
  shows "bytes_at s (copy_at xs i ys) = bytes_at s xs ++ bytes_at (s + i) ys"
proof
  fix p
  show "bytes_at s (copy_at xs i ys) p = (bytes_at s xs ++ bytes_at (s + i) ys) p"
    using assms by (auto simp: bytes_at_def map_add_def nth_copy_at)
qed

lemma bytes_at_inject:
  assumes "bytes_at s xs = bytes_at s ys" and "length xs = length ys"
  shows "xs = ys"
proof (rule nth_equalityI [OF assms(2)])
  fix i
  assume "i < length xs"
  then show "xs ! i = ys ! i"
    using assms(2) fun_cong [OF assms(1), of "s + i"] by (simp add: bytes_at_def)
qed

definition range_stop :: "retained_range \<Rightarrow> nat" where
  "range_stop r = rr_start r + length (dq_items (rr_bytes r))"

definition range_byte :: "retained_range \<Rightarrow> nat \<rightharpoonup> u8" where
  "range_byte r = bytes_at (rr_start r) (dq_items (rr_bytes r))"

fun content :: "retained_range list \<Rightarrow> nat \<rightharpoonup> u8" where
  "content [] = Map.empty"
| "content (r # rs) = range_byte r ++ content rs"

definition in_byte :: "incoming \<Rightarrow> nat \<rightharpoonup> u8" where
  "in_byte inc = bytes_at (in_offset inc) (in_payload inc)"

definition incoming_ok :: "incoming \<Rightarrow> bool" where
  "incoming_ok inc \<longleftrightarrow> in_payload inc \<noteq> [] \<and> in_end inc = in_offset inc + length (in_payload inc)
     \<and> in_end inc \<le> usize_max"

text \<open>Ranges are non-empty, in order, and separated by at least one missing byte.\<close>

definition ranges_ok :: "retained_range list \<Rightarrow> bool" where
  "ranges_ok rs \<longleftrightarrow> sorted_wrt (\<lambda>a b. range_stop a < rr_start b) rs
     \<and> (\<forall>r\<in>set rs. dq_items (rr_bytes r) \<noteq> [] \<and> length (dq_items (rr_bytes r)) \<le> dq_capacity (rr_bytes r)
          \<and> range_stop r \<le> usize_max)"

lemma dom_range_byte [simp]: "dom (range_byte r) = {rr_start r..<range_stop r}"
  by (simp add: range_byte_def range_stop_def)

lemma dom_in_byte: "incoming_ok inc \<Longrightarrow> dom (in_byte inc) = {in_offset inc..<in_end inc}"
  by (simp add: in_byte_def incoming_ok_def)

lemma dom_content: "dom (content rs) = (\<Union>r\<in>set rs. {rr_start r..<range_stop r})"
  by (induction rs) auto

lemma content_append: "content (xs @ ys) = content xs ++ content ys"
  by (induction xs) simp_all

lemma ranges_ok_Nil [simp]: "ranges_ok []"
  by (simp add: ranges_ok_def)

lemma ranges_ok_append:
  "ranges_ok (xs @ ys) \<longleftrightarrow> ranges_ok xs \<and> ranges_ok ys \<and> (\<forall>a\<in>set xs. \<forall>b\<in>set ys. range_stop a < rr_start b)"
  by (auto simp: ranges_ok_def sorted_wrt_append)

lemma range_nonempty: "ranges_ok rs \<Longrightarrow> r \<in> set rs \<Longrightarrow> rr_start r < range_stop r"
  by (auto simp: ranges_ok_def range_stop_def)

lemma range_end_Some: "ranges_ok rs \<Longrightarrow> r \<in> set rs \<Longrightarrow> range_end r = Some (range_stop r)"
  by (auto simp: range_end_def range_stop_def ranges_ok_def checked_add_def)

lemma card_dom_content: "ranges_ok rs \<Longrightarrow> card (dom (content rs)) = (\<Sum>r\<leftarrow>rs. length (dq_items (rr_bytes r)))"
proof (induction rs)
  case (Cons r rs)
  have ok: "ranges_ok rs" and sep: "\<forall>b\<in>set rs. range_stop r < rr_start b"
    using Cons.prems by (auto simp: ranges_ok_def)
  have "dom (content (r # rs)) = {rr_start r..<range_stop r} \<union> dom (content rs)"
    by (auto simp: dom_content)
  moreover have "{rr_start r..<range_stop r} \<inter> dom (content rs) = {}"
    using sep by (auto simp: dom_content disjoint_iff)
  moreover have "finite (dom (content rs))"
    by (simp add: dom_content)
  ultimately show ?case
    using Cons.IH [OF ok] by (simp add: card_Un_disjoint range_stop_def)
qed simp

section \<open>Scanning the ranges\<close>

definition overlaps :: "incoming \<Rightarrow> (nat \<rightharpoonup> u8) \<Rightarrow> nat set" where
  "overlaps inc m = dom m \<inter> {in_offset inc..<in_end inc}"

definition conflicts :: "incoming \<Rightarrow> (nat \<rightharpoonup> u8) \<Rightarrow> nat set" where
  "conflicts inc m = {p. \<exists>a b. m p = Some a \<and> in_byte inc p = Some b \<and> a \<noteq> b}"

lemma conflicts_le:
  assumes "incoming_ok inc"
  shows "conflicts inc m \<subseteq> overlaps inc m"
proof
  fix p
  assume "p \<in> conflicts inc m"
  then have "p \<in> dom m" and "p \<in> dom (in_byte inc)"
    by (auto simp: conflicts_def)
  with assms show "p \<in> overlaps inc m"
    by (simp add: overlaps_def dom_in_byte)
qed

lemma finite_overlaps [simp]: "finite (overlaps inc m)"
  by (simp add: overlaps_def)

lemma finite_conflicts: "incoming_ok inc \<Longrightarrow> finite (conflicts inc m)"
  using conflicts_le finite_overlaps by (rule finite_subset)

lemma card_overlaps_le: "incoming_ok inc \<Longrightarrow> card (overlaps inc m) \<le> length (in_payload inc)"
  using card_mono [of "{in_offset inc..<in_end inc}" "overlaps inc m"]
  by (simp add: overlaps_def incoming_ok_def)

text \<open>Comparing two byte strings slot by slot counts the positions where they differ.\<close>

lemma count_differences:
  assumes "length xs = length ys"
  shows "length (filter (\<lambda>(a, b). a \<noteq> b) (zip xs ys)) = card {i. i < length xs \<and> xs ! i \<noteq> ys ! i}"
proof -
  have "{i. i < length (zip xs ys) \<and> (case zip xs ys ! i of (a, b) \<Rightarrow> a \<noteq> b)} = {i. i < length xs \<and> xs ! i \<noteq> ys ! i}"
    using assms by auto
  then show ?thesis
    by (simp only: length_filter_conv_card)
qed

lemma measure_overlap_counts:
  assumes ok: "incoming_ok inc" and r: "rr_start r \<le> range_stop r"
    and ov: "max (rr_start r) (in_offset inc) < min (range_stop r) (in_end inc)"
  shows "measure_overlap r (range_stop r) inc =
    Ok (card (overlaps inc (range_byte r)), card (conflicts inc (range_byte r)))"
proof -
  define lo hi where "lo = max (rr_start r) (in_offset inc)" and "hi = min (range_stop r) (in_end inc)"
  define xs where "xs = take (hi - lo) (drop (lo - rr_start r) (dq_items (rr_bytes r)))"
  define ys where "ys = slice_of (in_payload inc) (lo - in_offset inc) (lo - in_offset inc + (hi - lo))"
  have bounds: "lo < hi" "rr_start r \<le> lo" "in_offset inc \<le> lo" "hi \<le> rr_start r + length (dq_items (rr_bytes r))"
      "hi \<le> in_offset inc + length (in_payload inc)"
    using ok ov by (auto simp: lo_def hi_def range_stop_def incoming_ok_def)
  have both: "{rr_start r..<range_stop r} \<inter> {in_offset inc..<in_end inc} = {lo..<hi}"
    by (auto simp: lo_def hi_def)
  then have overlap: "card (overlaps inc (range_byte r)) = hi - lo"
    by (simp add: overlaps_def)
  have lx: "length xs = hi - lo" and ly: "length ys = hi - lo"
    using bounds by (auto simp: xs_def ys_def)
  have bytes: "range_byte r (lo + i) = Some (xs ! i) \<and> in_byte inc (lo + i) = Some (ys ! i)" if "i < hi - lo" for i
  proof -
    have "i + lo < rr_start r + length (dq_items (rr_bytes r))" "i + lo < in_offset inc + length (in_payload inc)"
      using that bounds by linarith+
    then show ?thesis
      using that bounds by (simp add: range_byte_def in_byte_def bytes_at_def xs_def ys_def nth_slice_of add.commute)
  qed
  have "conflicts inc (range_byte r) = (\<lambda>i. lo + i) ` {i. i < length xs \<and> xs ! i \<noteq> ys ! i}"
  proof (intro set_eqI iffI)
    fix p
    assume p: "p \<in> conflicts inc (range_byte r)"
    then have "p \<in> overlaps inc (range_byte r)"
      using conflicts_le [OF ok] by blast
    then have "lo \<le> p" "p < hi"
      using both by (auto simp: overlaps_def)
    then show "p \<in> (\<lambda>i. lo + i) ` {i. i < length xs \<and> xs ! i \<noteq> ys ! i}"
      using p bytes [of "p - lo"] lx by (intro image_eqI [of _ _ "p - lo"]) (auto simp: conflicts_def)
  next
    fix p
    assume "p \<in> (\<lambda>i. lo + i) ` {i. i < length xs \<and> xs ! i \<noteq> ys ! i}"
    then show "p \<in> conflicts inc (range_byte r)"
      using bytes lx by (auto simp: conflicts_def)
  qed
  then have "card (conflicts inc (range_byte r)) = card {i. i < length xs \<and> xs ! i \<noteq> ys ! i}"
    by (simp add: card_image inj_on_def)
  then have conflict: "card (conflicts inc (range_byte r)) = length (filter (\<lambda>(a, b). a \<noteq> b) (zip xs ys))"
    using lx ly by (simp add: count_differences)
  have payload: "get_range (in_payload inc) (lo - in_offset inc) (lo - in_offset inc + (hi - lo)) = Some ys"
    using bounds by (auto simp: get_range_def ys_def)
  have "lo - in_offset inc + (hi - lo) \<le> usize_max"
    using bounds ok unfolding incoming_ok_def by linarith
  then show ?thesis
    unfolding measure_overlap_def Let_def lo_def [symmetric] hi_def [symmetric]
    using bounds payload overlap conflict by (simp add: checked_sub_def checked_add_def xs_def)
qed

text \<open>
  The scan past the ranges before the fragment: every range that reaches the fragment's offset is
  either touched or behind it.
\<close>

definition scanned :: "incoming \<Rightarrow> nat \<Rightarrow> retained_range list \<Rightarrow> merge_scan \<Rightarrow> merge_scan" where
  "scanned inc index rs s =
     (let mid = takeWhile (\<lambda>r. rr_start r \<le> in_end inc) rs in
      s\<lparr>ms_first_affected := (if ms_affected_count s = 0 \<and> rs \<noteq> [] then index else ms_first_affected s),
        ms_affected_count := ms_affected_count s + length mid,
        ms_union_start := foldl min (ms_union_start s) (map rr_start mid),
        ms_union_end := foldl max (ms_union_end s) (map range_stop mid),
        ms_overlapping := ms_overlapping s + (\<Sum>r\<leftarrow>mid. card (overlaps inc (range_byte r))),
        ms_conflicting := ms_conflicting s + (\<Sum>r\<leftarrow>mid. card (conflicts inc (range_byte r)))\<rparr>)"

lemma touching_counts:
  assumes "incoming_ok inc" and "in_offset inc \<le> range_stop r" and "rr_start r \<le> in_end inc"
    and "\<not> max (rr_start r) (in_offset inc) < min (range_stop r) (in_end inc)"
  shows "overlaps inc (range_byte r) = {}" and "conflicts inc (range_byte r) = {}"
proof -
  show "overlaps inc (range_byte r) = {}"
    using assms(4) by (auto simp: overlaps_def)
  with conflicts_le [OF assms(1)] show "conflicts inc (range_byte r) = {}"
    by blast
qed

lemma scan_touched:
  assumes "incoming_ok inc" and "ranges_ok rs" and "\<forall>r\<in>set rs. in_offset inc \<le> range_stop r"
    and "ms_affected_count s + length rs \<le> usize_max"
    and "ms_overlapping s + (\<Sum>r\<leftarrow>rs. card (overlaps inc (range_byte r))) \<le> usize_max"
    and "ms_conflicting s + (\<Sum>r\<leftarrow>rs. card (conflicts inc (range_byte r))) \<le> usize_max"
  shows "scan_ranges inc index rs s = Ok (scanned inc index rs s)"
  using assms
proof (induction rs arbitrary: index s)
  case Nil
  then show ?case
    by (simp add: scanned_def)
next
  case (Cons r rs)
  have ok: "ranges_ok rs" and re: "range_end r = Some (range_stop r)" and ne: "rr_start r \<le> range_stop r"
    using Cons.prems(2) range_end_Some [OF Cons.prems(2), of r] range_nonempty [OF Cons.prems(2), of r]
    by (auto simp: ranges_ok_def)
  show ?case
  proof (cases "rr_start r > in_end inc")
    case True
    then show ?thesis
      using Cons.prems(3) re by (simp add: scanned_def)
  next
    case False
    define s1 where "s1 = s\<lparr>ms_first_affected := (if ms_affected_count s = 0 then index else ms_first_affected s),
      ms_affected_count := ms_affected_count s + 1, ms_union_start := min (ms_union_start s) (rr_start r),
      ms_union_end := max (ms_union_end s) (range_stop r),
      ms_overlapping := ms_overlapping s + card (overlaps inc (range_byte r)),
      ms_conflicting := ms_conflicting s + card (conflicts inc (range_byte r))\<rparr>"
    have fits: "ms_affected_count s + 1 \<le> usize_max"
      "ms_overlapping s + card (overlaps inc (range_byte r)) \<le> usize_max"
      "ms_conflicting s + card (conflicts inc (range_byte r)) \<le> usize_max"
      using Cons.prems(4-6) by simp_all
    have "scan_ranges inc index (r # rs) s = scan_ranges inc (index + 1) rs s1"
    proof (cases "max (rr_start r) (in_offset inc) < min (range_stop r) (in_end inc)")
      case True
      show ?thesis
        using False Cons.prems(3) re fits measure_overlap_counts [OF Cons.prems(1) ne True] True
        by (simp add: checked_add_def s1_def Let_def)
    next
      case apart: False
      show ?thesis
        using False Cons.prems(3) re fits apart touching_counts [OF Cons.prems(1) _ _ apart]
        by (auto simp: checked_add_def s1_def Let_def)
    qed
    also have "\<dots> = Ok (scanned inc (index + 1) rs s1)"
      using Cons.prems ok by (intro Cons.IH) (auto simp: s1_def)
    also have "scanned inc (index + 1) rs s1 = scanned inc index (r # rs) s"
      using False by (simp add: scanned_def s1_def Let_def not_less add.assoc)
    finally show ?thesis .
  qed
qed

lemma scan_before:
  assumes "\<forall>r\<in>set pre. range_stop r < in_offset inc \<and> range_end r = Some (range_stop r)"
    and "index + length pre \<le> usize_max"
  shows "scan_ranges inc index (pre @ rest) s =
    scan_ranges inc (index + length pre) rest
      (if pre = [] then s else s\<lparr>ms_first_affected := index + length pre\<rparr>)"
  using assms
proof (induction pre arbitrary: index s)
  case (Cons r pre)
  then show ?case
    using Cons.IH [of "index + 1"] by (auto simp: checked_add_def add.assoc split: if_splits)
qed simp

section \<open>The plan\<close>

text \<open>Where a fragment lies among the ranges: behind some, touching the next, before the others.\<close>

definition placement ::
    "incoming \<Rightarrow> retained_range list \<Rightarrow> retained_range list \<Rightarrow> retained_range list \<Rightarrow> retained_range list \<Rightarrow> bool" where
  "placement inc rs pre mid post \<longleftrightarrow> rs = pre @ mid @ post
     \<and> (\<forall>r\<in>set pre. range_stop r < in_offset inc)
     \<and> (\<forall>r\<in>set mid. in_offset inc \<le> range_stop r \<and> rr_start r \<le> in_end inc)
     \<and> (\<forall>r\<in>set post. in_end inc < rr_start r)"

lemma sorted_dropWhile_stop:
  assumes "ranges_ok rs"
  shows "\<forall>r\<in>set (dropWhile (\<lambda>r. range_stop r < n) rs). n \<le> range_stop r"
  using assms
proof (induction rs)
  case (Cons a rs)
  have rest: "ranges_ok rs" and later: "range_stop a < rr_start b" "rr_start b < range_stop b" if "b \<in> set rs" for b
    using Cons.prems that range_nonempty [OF Cons.prems, of b] by (auto simp: ranges_ok_def)
  show ?case
  proof (cases "range_stop a < n")
    case True
    with Cons show ?thesis
      by (auto simp: ranges_ok_def)
  next
    case False
    then show ?thesis
      using later by force
  qed
qed simp

lemma sorted_dropWhile_start:
  assumes "ranges_ok rs"
  shows "\<forall>r\<in>set (dropWhile (\<lambda>r. rr_start r \<le> n) rs). n < rr_start r"
  using assms
proof (induction rs)
  case (Cons a rs)
  have later: "rr_start a < rr_start b" if "b \<in> set rs" for b
    using Cons.prems that range_nonempty [OF Cons.prems, of a] by (force simp: ranges_ok_def)
  show ?case
  proof (cases "rr_start a \<le> n")
    case True
    with Cons show ?thesis
      by (auto simp: ranges_ok_def)
  next
    case False
    then show ?thesis
      using later by (auto dest!: later)
  qed
qed simp

lemma placement_exists:
  assumes "ranges_ok rs"
  obtains pre mid post where "placement inc rs pre mid post"
    and "mid = takeWhile (\<lambda>r. rr_start r \<le> in_end inc) (mid @ post)"
proof
  let ?before = "\<lambda>r. range_stop r < in_offset inc" and ?reach = "\<lambda>r. rr_start r \<le> in_end inc"
  let ?pre = "takeWhile ?before rs" and ?rest = "dropWhile ?before rs"
  let ?mid = "takeWhile ?reach ?rest" and ?post = "dropWhile ?reach ?rest"
  have rest: "ranges_ok ?rest"
    using assms ranges_ok_append [of ?pre ?rest] by simp
  show "placement inc rs ?pre ?mid ?post"
    using sorted_dropWhile_stop [OF assms, of "in_offset inc"] sorted_dropWhile_start [OF rest, of "in_end inc"]
    by (auto simp: placement_def dest: set_takeWhileD)
  show "?mid = takeWhile ?reach (?mid @ ?post)"
    by simp
qed

lemma content_disjoint: "ranges_ok (r # rs) \<Longrightarrow> dom (range_byte r) \<inter> dom (content rs) = {}"
  by (auto simp: dom_content ranges_ok_def disjoint_iff)

lemma overlaps_content:
  "ranges_ok rs \<Longrightarrow> (\<Sum>r\<leftarrow>rs. card (overlaps inc (range_byte r))) = card (overlaps inc (content rs))"
proof (induction rs)
  case (Cons r rs)
  have ok: "ranges_ok rs"
    using Cons.prems by (auto simp: ranges_ok_def)
  have "overlaps inc (content (r # rs)) = overlaps inc (range_byte r) \<union> overlaps inc (content rs)"
    by (auto simp: overlaps_def)
  moreover have "overlaps inc (range_byte r) \<inter> overlaps inc (content rs) = {}"
    using content_disjoint [OF Cons.prems] by (auto simp: overlaps_def)
  ultimately show ?case
    using Cons.IH [OF ok] by (simp add: card_Un_disjoint)
qed (simp add: overlaps_def)

lemma conflicts_content:
  assumes "incoming_ok inc"
  shows "ranges_ok rs \<Longrightarrow> (\<Sum>r\<leftarrow>rs. card (conflicts inc (range_byte r))) = card (conflicts inc (content rs))"
proof (induction rs)
  case (Cons r rs)
  have ok: "ranges_ok rs"
    using Cons.prems by (auto simp: ranges_ok_def)
  note disj = content_disjoint [OF Cons.prems]
  have "conflicts inc (content (r # rs)) = conflicts inc (range_byte r) \<union> conflicts inc (content rs)"
  proof (intro set_eqI)
    fix p
    show "p \<in> conflicts inc (content (r # rs)) \<longleftrightarrow> p \<in> conflicts inc (range_byte r) \<union> conflicts inc (content rs)"
    proof (cases "p \<in> dom (content rs)")
      case True
      then have "range_byte r p = None"
        using disj by (auto simp del: dom_range_byte)
      with True show ?thesis
        by (auto simp: conflicts_def)
    next
      case False
      then show ?thesis
        by (auto simp: conflicts_def map_add_def split: option.splits)
    qed
  qed
  moreover have "conflicts inc (range_byte r) \<inter> conflicts inc (content rs) = {}"
    using disj by (auto simp: conflicts_def simp del: dom_range_byte)
  ultimately show ?case
    using Cons.IH [OF ok] by (simp add: card_Un_disjoint finite_conflicts assms)
qed (simp add: conflicts_def)

lemma untouched_empty:
  assumes "incoming_ok inc" and "range_stop r < in_offset inc \<or> in_end inc < rr_start r"
  shows "overlaps inc (range_byte r) = {}" and "conflicts inc (range_byte r) = {}"
proof -
  show "overlaps inc (range_byte r) = {}"
    using assms(2) by (auto simp: overlaps_def)
  with conflicts_le [OF assms(1)] show "conflicts inc (range_byte r) = {}"
    by blast
qed

lemma placement_sums:
  assumes "incoming_ok inc" and "ranges_ok rs" and "placement inc rs pre mid post"
  shows "(\<Sum>r\<leftarrow>mid. card (overlaps inc (range_byte r))) = card (overlaps inc (content rs))"
    and "(\<Sum>r\<leftarrow>mid. card (conflicts inc (range_byte r))) = card (conflicts inc (content rs))"
proof -
  have rs: "rs = pre @ mid @ post"
    using assms(3) by (simp add: placement_def)
  have zero: "overlaps inc (range_byte r) = {} \<and> conflicts inc (range_byte r) = {}" if "r \<in> set pre \<union> set post" for r
    using untouched_empty [OF assms(1), of r] assms(3) that by (auto simp: placement_def)
  have z: "(\<Sum>r\<leftarrow>pre. card (overlaps inc (range_byte r))) = 0" "(\<Sum>r\<leftarrow>post. card (overlaps inc (range_byte r))) = 0"
    "(\<Sum>r\<leftarrow>pre. card (conflicts inc (range_byte r))) = 0" "(\<Sum>r\<leftarrow>post. card (conflicts inc (range_byte r))) = 0"
    using zero by (simp_all add: sum_list_eq_0_iff)
  show "(\<Sum>r\<leftarrow>mid. card (overlaps inc (range_byte r))) = card (overlaps inc (content rs))"
    using overlaps_content [OF assms(2), of inc] z unfolding rs by simp
  show "(\<Sum>r\<leftarrow>mid. card (conflicts inc (range_byte r))) = card (conflicts inc (content rs))"
    using conflicts_content [OF assms(1,2)] z unfolding rs by simp
qed

text \<open>What a plan says of the ranges it was made for.\<close>

definition planned ::
    "incoming \<Rightarrow> retained_range list \<Rightarrow> retained_range list \<Rightarrow> retained_range list \<Rightarrow> retained_range list \<Rightarrow> merge_plan \<Rightarrow> bool" where
  "planned inc rs pre mid post mp \<longleftrightarrow> placement inc rs pre mid post
     \<and> mp_first_affected mp = length pre \<and> mp_affected_count mp = length mid
     \<and> mp_union_start mp = foldl min (in_offset inc) (map rr_start mid)
     \<and> mp_union_end mp = foldl max (in_end inc) (map range_stop mid)
     \<and> mp_added_bytes mp = length (in_payload inc) - card (overlaps inc (content rs))
     \<and> mp_conflicting_bytes mp = card (conflicts inc (content rs))
     \<and> mp_result_range_count mp = length rs + 1 - length mid
     \<and> (mp_kind mp = Unchanged \<longleftrightarrow> mp_added_bytes mp = 0 \<and> mp_conflicting_bytes mp = 0)
     \<and> (mp_kind mp = Append \<longrightarrow> mp_added_bytes mp = length (in_payload inc)
          \<and> (\<exists>r. mid = [r] \<and> range_stop r = in_offset inc))
     \<and> (mp_kind mp = Prepend \<longrightarrow> mp_added_bytes mp = length (in_payload inc)
          \<and> (\<exists>r. mid = [r] \<and> rr_start r = in_end inc))"

lemma plan_merge_planned:
  assumes inc: "incoming_ok inc" and rs: "ranges_ok rs" and small: "length rs < usize_max"
  obtains pre mid post mp where "plan_merge rs inc = Ok mp" and "planned inc rs pre mid post mp"
proof -
  obtain pre mid post where place: "placement inc rs pre mid post"
      and mid: "mid = takeWhile (\<lambda>r. rr_start r \<le> in_end inc) (mid @ post)"
    using placement_exists [OF rs] by blast
  have split: "rs = pre @ mid @ post" and later: "\<forall>r\<in>set (mid @ post). in_offset inc \<le> range_stop r"
    using place rs inc range_nonempty [OF rs] by (fastforce simp: placement_def incoming_ok_def)+
  have ok: "ranges_ok (mid @ post)"
    using rs unfolding split by (simp add: ranges_ok_append)
  have sums: "(\<Sum>r\<leftarrow>mid @ post. card (overlaps inc (range_byte r))) \<le> length (in_payload inc)"
    "(\<Sum>r\<leftarrow>mid @ post. card (conflicts inc (range_byte r))) \<le> length (in_payload inc)"
    using overlaps_content [OF ok, of inc] conflicts_content [OF inc ok] card_overlaps_le [OF inc]
      card_mono [OF finite_overlaps conflicts_le [OF inc]] by (metis order_trans)+
  have fits: "length (in_payload inc) \<le> usize_max"
    using inc by (simp add: incoming_ok_def)
  let ?s0 = "\<lparr>ms_first_affected = length rs, ms_affected_count = 0, ms_union_start = in_offset inc,
        ms_union_end = in_end inc, ms_overlapping = 0, ms_conflicting = 0\<rparr>"
  let ?s1 = "if pre = [] then ?s0 else ?s0\<lparr>ms_first_affected := length pre\<rparr>"
  have "scan_ranges inc 0 rs ?s0 = scan_ranges inc (length pre) (mid @ post) ?s1"
    using scan_before [of pre inc 0 "mid @ post" ?s0] place small range_end_Some [OF rs]
    unfolding split placement_def by auto
  also have "\<dots> = Ok (scanned inc (length pre) (mid @ post) ?s1)"
    using sums fits small split by (intro scan_touched [OF inc ok later]) auto
  finally have scan: "scan_ranges inc 0 rs ?s0 = Ok (scanned inc (length pre) (mid @ post) ?s1)" .
  define s where "s = scanned inc (length pre) (mid @ post) ?s1"
  have s: "ms_first_affected s = length pre" "ms_affected_count s = length mid"
    "ms_union_start s = foldl min (in_offset inc) (map rr_start mid)"
    "ms_union_end s = foldl max (in_end inc) (map range_stop mid)"
    "ms_overlapping s = card (overlaps inc (content rs))" "ms_conflicting s = card (conflicts inc (content rs))"
    unfolding s_def scanned_def mid [symmetric] Let_def
    using split placement_sums [OF inc rs place] by auto
  have one: "mid = [rs ! length pre]" if "length mid = 1"
    using that unfolding split by (cases mid) auto
  have target: "get_index rs (length pre) = Some (rs ! length pre)" if "length mid = 1"
    using that by (simp add: split get_index_def)
  have target_end: "range_end (rs ! length pre) = Some (range_stop (rs ! length pre))" if "length mid = 1"
    using that by (intro range_end_Some [OF rs] nth_mem) (simp add: split)
  have added: "checked_sub (length (in_payload inc)) (card (overlaps inc (content rs)))
      = Some (length (in_payload inc) - card (overlaps inc (content rs)))"
    using card_overlaps_le [OF inc, of "content rs"] by (simp add: checked_sub_def)
  have "length mid \<le> length rs"
    unfolding split by simp
  then have count: "Option.bind (checked_add (length rs) 1) (\<lambda>count. checked_sub count (length mid))
      = Some (length rs + 1 - length mid)"
    using small by (simp add: checked_sub_def checked_add_def)
  show thesis
  proof (rule that)
    let ?added = "length (in_payload inc) - card (overlaps inc (content rs))"
    let ?kind = "if ?added = 0 \<and> card (conflicts inc (content rs)) = 0 then Unchanged
            else if length mid = 1 \<and> ?added = length (in_payload inc)
                \<and> Option.bind (get_index rs (length pre)) range_end = Some (in_offset inc) then Append
            else if length mid = 1 \<and> ?added = length (in_payload inc)
                \<and> map_option rr_start (get_index rs (length pre)) = Some (in_end inc) then Prepend
            else Replace"
    let ?mp = "\<lparr>mp_first_affected = length pre, mp_affected_count = length mid,
       mp_union_start = foldl min (in_offset inc) (map rr_start mid),
       mp_union_end = foldl max (in_end inc) (map range_stop mid), mp_added_bytes = ?added,
       mp_conflicting_bytes = card (conflicts inc (content rs)),
       mp_result_range_count = length rs + 1 - length mid, mp_kind = ?kind\<rparr>"
    show "plan_merge rs inc = Ok ?mp"
      by (simp only: plan_merge_def scan let_ok.simps s_def [symmetric] s added count ok_or_simps Let_def)
    show "planned inc rs pre mid post ?mp"
      using place one target target_end by (auto simp: planned_def split: if_splits)
  qed
qed

end
