(* ===== verification/Ip_Union.thy ===== *)
theory Ip_Union
  imports Ip_Ranges
begin

text \<open>
  Executing a merge plan: the union of the fragment and the ranges it touches is one interval, the
  merged range holds the policy's choice at every position of it, and the ranges stay in order.
\<close>

definition resolve :: "overlap_policy \<Rightarrow> incoming \<Rightarrow> (nat \<rightharpoonup> u8) \<Rightarrow> nat \<rightharpoonup> u8" where
  "resolve policy inc m = (if policy = Last then m ++ in_byte inc else in_byte inc ++ m)"

section \<open>The union\<close>

lemma planned_union:
  assumes inc: "incoming_ok inc" and rs: "ranges_ok rs" and p: "planned inc rs pre mid post mp"
  shows "mp_union_start mp \<le> in_offset inc" and "in_end inc \<le> mp_union_end mp"
    and "mp_union_start mp < mp_union_end mp" and "mp_union_end mp \<le> usize_max"
    and "\<And>r. r \<in> set mid \<Longrightarrow> mp_union_start mp \<le> rr_start r \<and> range_stop r \<le> mp_union_end mp"
    and "\<And>r. r \<in> set pre \<Longrightarrow> range_stop r < mp_union_start mp"
    and "\<And>r. r \<in> set post \<Longrightarrow> mp_union_end mp < rr_start r"
    and "{mp_union_start mp..<mp_union_end mp} = {in_offset inc..<in_end inc} \<union> dom (content mid)"
proof -
  let ?U = "mp_union_start mp" and ?E = "mp_union_end mp"
  have split: "rs = pre @ mid @ post" and place: "placement inc rs pre mid post"
    and U: "?U = foldl min (in_offset inc) (map rr_start mid)" and E: "?E = foldl max (in_end inc) (map range_stop mid)"
    using p by (auto simp: planned_def placement_def)
  have mid: "in_offset inc \<le> range_stop r" "rr_start r \<le> in_end inc" "rr_start r < range_stop r" "range_stop r \<le> usize_max"
    if "r \<in> set mid" for r
    using that place range_nonempty [OF rs, of r] rs unfolding split by (auto simp: placement_def ranges_ok_def)
  show lo: "?U \<le> in_offset inc" and hi: "in_end inc \<le> ?E"
    unfolding U E by (rule foldl_min_bounds foldl_max_bounds)+
  have ne: "in_offset inc < in_end inc" "in_end inc \<le> usize_max"
    using inc by (auto simp: incoming_ok_def)
  show "?U < ?E"
    using lo hi ne by linarith
  have Uin: "?U = in_offset inc \<or> (\<exists>r\<in>set mid. ?U = rr_start r)" and Ein: "?E = in_end inc \<or> (\<exists>r\<in>set mid. ?E = range_stop r)"
    using foldl_min_bounds(3) [of "in_offset inc" "map rr_start mid"]
      foldl_max_bounds(3) [of "in_end inc" "map range_stop mid"] unfolding U E by auto
  show "?E \<le> usize_max"
    using Ein mid(4) ne by auto
  show inside: "?U \<le> rr_start r \<and> range_stop r \<le> ?E" if "r \<in> set mid" for r
    unfolding U E using that by (auto intro: foldl_min_bounds foldl_max_bounds)
  show "range_stop r < ?U" if "r \<in> set pre" for r
    using that place rs Uin unfolding split by (auto simp: placement_def ranges_ok_append)
  show "?E < rr_start r" if "r \<in> set post" for r
    using that place rs Ein unfolding split by (auto simp: placement_def ranges_ok_append)
  show "{?U..<?E} = {in_offset inc..<in_end inc} \<union> dom (content mid)"
  proof (intro set_eqI iffI)
    fix q
    assume q: "q \<in> {?U..<?E}"
    consider "q < in_offset inc" | "in_offset inc \<le> q \<and> q < in_end inc" | "in_end inc \<le> q"
      by linarith
    then show "q \<in> {in_offset inc..<in_end inc} \<union> dom (content mid)"
    proof cases
      case 1
      then obtain r where "r \<in> set mid" "?U = rr_start r"
        using Uin q by auto
      with 1 mid(1) [of r] q show ?thesis
        by (auto simp: dom_content intro!: bexI [of _ r])
    next
      case 2
      then show ?thesis by simp
    next
      case 3
      then obtain r where "r \<in> set mid" "?E = range_stop r"
        using Ein q by auto
      with 3 mid(2) [of r] q show ?thesis
        by (auto simp: dom_content intro!: bexI [of _ r])
    qed
  next
    fix q
    assume "q \<in> {in_offset inc..<in_end inc} \<union> dom (content mid)"
    then consider "in_offset inc \<le> q" "q < in_end inc" | r where "r \<in> set mid" "rr_start r \<le> q" "q < range_stop r"
      by (auto simp: dom_content)
    then show "q \<in> {?U..<?E}"
      using lo hi inside by cases (auto dest: inside)
  qed
qed

section \<open>The merged range\<close>

lemma copy_into_Ok:
  assumes "i + length bs \<le> length t" and "length t \<le> usize_max"
  shows "copy_into i bs t = Ok (copy_at t i bs)"
  using assms by (simp add: copy_into_def checked_add_def write_range_def)

lemma map_add_absorb: "dom m \<subseteq> dom n \<Longrightarrow> m ++ n = n"
  by (rule ext) (auto simp: map_add_def split: option.splits)

lemma copy_range_step:
  assumes "U \<le> rr_start r" and "range_stop r \<le> U + length t" and "length t \<le> usize_max"
  shows "\<exists>t'. copy_retained U r t = Ok t'
      \<and> length t' = length t \<and> bytes_at U t' = bytes_at U t ++ range_byte r"
proof -
  obtain f g where fg: "deque_as_slices (rr_bytes r) = (f, g)"
    by fastforce
  then have items: "dq_items (rr_bytes r) = f @ g"
    using as_slices_append [of "rr_bytes r"] by simp
  let ?i = "rr_start r - U"
  have fits: "?i + length f + length g \<le> length t"
    using assms(1,2) by (simp add: range_stop_def items)
  let ?t1 = "copy_at t ?i f"
  let ?t2 = "copy_at ?t1 (?i + length f) g"
  have len: "length ?t1 = length t" "length ?t2 = length t"
    using fits by simp_all
  have "bytes_at U ?t2 = (bytes_at U t ++ bytes_at (U + ?i) f) ++ bytes_at (U + (?i + length f)) g"
    using fits len by (simp add: bytes_at_copy_at)
  also have "\<dots> = bytes_at U t ++ range_byte r"
    using assms(1) by (simp add: range_byte_def items bytes_at_append map_add_assoc)
  finally show ?thesis
    using assms fits len fg
    by (intro exI [of _ ?t2]) (simp add: copy_retained_def checked_sub_def copy_into_Ok add.commute)
qed

lemma copy_ranges:
  assumes "\<forall>r\<in>set mid. U \<le> rr_start r \<and> range_stop r \<le> U + length t" and "length t \<le> usize_max"
  shows "\<exists>t'. for_each (copy_retained U) mid t = Ok t'
      \<and> length t' = length t \<and> bytes_at U t' = bytes_at U t ++ content mid"
  using assms
proof (induction mid arbitrary: t)
  case (Cons r mid)
  obtain t1 where t1: "copy_retained U r t = Ok t1"
      "length t1 = length t" "bytes_at U t1 = bytes_at U t ++ range_byte r"
    using copy_range_step [of U r t] Cons.prems by auto
  from Cons.IH [of t1] Cons.prems t1 show ?case
    by (simp add: map_add_assoc)
qed simp

lemma merge_affected_holds:
  assumes inc: "incoming_ok inc" and rs: "ranges_ok rs" and p: "planned inc rs pre mid post mp"
    and cap: "mp_union_end mp - mp_union_start mp \<le> capacity"
  shows "(\<not> alloc AllocMerge capacity
      \<and> merge_affected alloc rs inc mp policy capacity = Err (IpResource (AllocationFailed capacity)))
    \<or> (\<exists>m. alloc AllocMerge capacity \<and> merge_affected alloc rs inc mp policy capacity = Ok m
      \<and> rr_start m = mp_union_start mp \<and> range_stop m = mp_union_end mp \<and> dq_capacity (rr_bytes m) = capacity
      \<and> range_byte m = resolve policy inc (content mid))"
proof (cases "alloc AllocMerge capacity")
  case False
  then show ?thesis
    using planned_union(3) [OF inc rs p] by (simp add: merge_affected_def checked_sub_def try_reserve_def)
next
  case True
  let ?U = "mp_union_start mp" and ?E = "mp_union_end mp"
  note u = planned_union [OF inc rs p]
  have mid: "take (mp_affected_count mp) (drop (mp_first_affected mp) rs) = mid"
    using p by (simp add: planned_def placement_def)
  let ?zeros = "replicate (?E - ?U) (0 :: u8)"
  let ?i = "in_offset inc - ?U"
  have payload: "?i + length (in_payload inc) \<le> ?E - ?U" and small: "?E - ?U \<le> usize_max"
    using u(1,2,4) inc by (auto simp: incoming_ok_def)
  have fill: "\<exists>t'. copy_into ?i (in_payload inc) t = Ok t' \<and> length t' = length t
      \<and> bytes_at ?U t' = bytes_at ?U t ++ in_byte inc" if "length t = ?E - ?U" for t
    using that payload small u(1)
    by (intro exI [of _ "copy_at t ?i (in_payload inc)"]) (simp add: copy_into_Ok bytes_at_copy_at in_byte_def)
  have place: "\<exists>t'. for_each (copy_retained ?U) mid t = Ok t'
      \<and> length t' = length t \<and> bytes_at ?U t' = bytes_at ?U t ++ content mid" if "length t = ?E - ?U" for t
    using that u(3,5) small by (intro copy_ranges) auto
  have covered: "dom (bytes_at ?U ?zeros) \<subseteq> dom (in_byte inc ++ content mid)"
    "dom (bytes_at ?U ?zeros) \<subseteq> dom (content mid ++ in_byte inc)"
    using u(3,8) dom_in_byte [OF inc] by auto
  have "\<exists>t. length t = ?E - ?U \<and> bytes_at ?U t = resolve policy inc (content mid)
    \<and> merge_affected alloc rs inc mp policy capacity =
        Ok \<lparr>rr_start = ?U, rr_bytes = \<lparr>dq_items = t, dq_head = 0, dq_capacity = capacity\<rparr>\<rparr>"
  proof (cases "policy = Last")
    case last: True
    obtain t1 where t1: "length t1 = ?E - ?U" "bytes_at ?U t1 = bytes_at ?U ?zeros ++ content mid"
        and e1: "for_each (copy_retained ?U) mid ?zeros = Ok t1"
      using place [of ?zeros] by auto
    obtain t2 where t2: "copy_into ?i (in_payload inc) t1 = Ok t2" "length t2 = ?E - ?U"
        "bytes_at ?U t2 = bytes_at ?U t1 ++ in_byte inc"
      using fill [OF t1(1)] t1(1) by auto
    show ?thesis
      using last True u(1,3) cap t1 t2 e1 map_add_absorb [OF covered(2)]
      by (intro exI [of _ t2])
         (simp add: merge_affected_def mid checked_sub_def try_reserve_def deque_truncate_def deque_from_vec_def
           resolve_def min_absorb1 flip: map_add_assoc)
  next
    case first: False
    obtain t1 where t1: "copy_into ?i (in_payload inc) ?zeros = Ok t1" "length t1 = ?E - ?U"
        "bytes_at ?U t1 = bytes_at ?U ?zeros ++ in_byte inc"
      using fill [of ?zeros] by auto
    obtain t2 where t2: "length t2 = ?E - ?U" "bytes_at ?U t2 = bytes_at ?U t1 ++ content mid"
        and e2: "for_each (copy_retained ?U) mid t1 = Ok t2"
      using place [OF t1(2)] t1(2) by auto
    show ?thesis
      using first True u(1,3) cap t1 t2 e2 map_add_absorb [OF covered(1)]
      by (intro exI [of _ t2])
         (simp add: merge_affected_def mid checked_sub_def try_reserve_def deque_truncate_def deque_from_vec_def
           resolve_def min_absorb1 flip: map_add_assoc)
  qed
  then show ?thesis
    using True u(3) by (auto simp: range_stop_def range_byte_def)
qed

section \<open>The ranges after the update\<close>

lemma content_outside:
  assumes "\<And>r. r \<in> set rs \<Longrightarrow> p < rr_start r \<or> range_stop r \<le> p"
  shows "content rs p = None"
proof -
  have "p \<notin> dom (content rs)"
    using assms by (auto simp: dom_content dest: leD)
  then show ?thesis
    by blast
qed

lemma merged_content:
  assumes inc: "incoming_ok inc" and rs: "ranges_ok rs" and p: "planned inc rs pre mid post mp"
    and m: "rr_start m = mp_union_start mp" "range_stop m = mp_union_end mp"
      "range_byte m = resolve policy inc (content mid)"
  shows "content (pre @ [m] @ post) = resolve policy inc (content rs)"
proof
  fix q
  note u = planned_union [OF inc rs p]
  have split: "rs = pre @ mid @ post"
    using p by (simp add: planned_def placement_def)
  show "content (pre @ [m] @ post) q = resolve policy inc (content rs) q"
  proof (cases "mp_union_start mp \<le> q \<and> q < mp_union_end mp")
    case True
    have "content pre q = None" "content post q = None"
      using True u(6,7) by (intro content_outside; force)+
    then show ?thesis
      by (simp add: split content_append map_add_def m(3) resolve_def split: option.splits)
  next
    case False
    then have out: "q \<notin> {mp_union_start mp..<mp_union_end mp}"
      by simp
    have "q \<notin> dom (range_byte m)"
      using out unfolding dom_range_byte m(1,2) .
    moreover have "q \<notin> dom (content mid)" "q \<notin> dom (in_byte inc)"
      using out unfolding u(8) dom_in_byte [OF inc] by blast+
    ultimately have "range_byte m q = None" "content mid q = None" "in_byte inc q = None"
      by blast+
    then show ?thesis
      by (simp add: split content_append map_add_def resolve_def split: option.splits)
  qed
qed

lemma merged_ok:
  assumes inc: "incoming_ok inc" and rs: "ranges_ok rs" and p: "planned inc rs pre mid post mp"
    and m: "rr_start m = mp_union_start mp" "range_stop m = mp_union_end mp"
      "length (dq_items (rr_bytes m)) \<le> dq_capacity (rr_bytes m)"
  shows "ranges_ok (pre @ [m] @ post)"
proof -
  note u = planned_union [OF inc rs p]
  have "ranges_ok pre" "ranges_ok post" "\<forall>a\<in>set pre. \<forall>b\<in>set post. range_stop a < rr_start b"
    using p rs by (auto simp: planned_def placement_def ranges_ok_append)
  moreover have "ranges_ok [m]"
    using u(3,4) m by (auto simp: ranges_ok_def range_stop_def)
  ultimately show ?thesis
    using u(6,7) m ranges_ok_append [of "[m]" post] by (auto simp: ranges_ok_append)
qed

lemma resolve_disjoint:
  assumes "dom m \<inter> dom (in_byte inc) = {}"
  shows "resolve policy inc m = m ++ in_byte inc"
  using map_add_comm [OF assms] by (simp add: resolve_def)

lemma resolve_agree:
  assumes inc: "incoming_ok inc" and "in_end inc - in_offset inc = card (overlaps inc m)" and "conflicts inc m = {}"
  shows "resolve policy inc m = m"
proof -
  have sub: "overlaps inc m \<subseteq> {in_offset inc..<in_end inc}"
    by (auto simp: overlaps_def)
  have "overlaps inc m = {in_offset inc..<in_end inc}"
    using assms(2) by (intro card_subset_eq [OF _ sub]) simp_all
  then have "dom (in_byte inc) \<subseteq> dom m"
    by (auto simp: dom_in_byte [OF inc] overlaps_def)
  moreover have "m q = in_byte inc q" if "in_byte inc q \<noteq> None" for q
  proof -
    have "q \<in> dom m"
      using calculation that by blast
    then show ?thesis
      using assms(3) that by (auto simp: conflicts_def)
  qed
  then have "m ++ in_byte inc = m"
    by (intro ext) (simp add: map_add_def split: option.splits)
  ultimately show ?thesis
    by (simp add: resolve_def map_add_absorb)
qed

lemma card_resolve:
  assumes "incoming_ok inc" and "finite (dom m)"
  shows "card (dom (resolve policy inc m)) = card (dom m) + (length (in_payload inc) - card (overlaps inc m))"
proof -
  let ?I = "{in_offset inc..<in_end inc}"
  have "dom (resolve policy inc m) = dom m \<union> (?I - overlaps inc m)"
    using dom_in_byte [OF assms(1)] by (auto simp: resolve_def overlaps_def)
  moreover have "dom m \<inter> (?I - overlaps inc m) = {}"
    by (auto simp: overlaps_def)
  moreover have "card (?I - overlaps inc m) = card ?I - card (overlaps inc m)"
    by (rule card_Diff_subset) (auto simp: overlaps_def)
  ultimately show ?thesis
    using assms by (simp add: card_Un_disjoint incoming_ok_def)
qed

text \<open>A fragment that adds nothing and contradicts nothing lies inside one range.\<close>

lemma unchanged_single:
  assumes inc: "incoming_ok inc" and rs: "ranges_ok rs" and place: "placement inc rs pre mid post"
    and full: "{in_offset inc..<in_end inc} \<subseteq> dom (content rs)"
  obtains r where "mid = [r]" and "rr_start r \<le> in_offset inc" and "in_end inc \<le> range_stop r"
proof -
  have split: "rs = pre @ mid @ post"
    using place by (simp add: placement_def)
  have ne: "in_offset inc < in_end inc"
    using inc by (simp add: incoming_ok_def)
  have cover: "\<exists>r\<in>set mid. rr_start r \<le> q \<and> q < range_stop r" if "in_offset inc \<le> q" "q < in_end inc" for q
  proof -
    have "q \<in> dom (content rs)"
      using full that by auto
    then obtain r where "r \<in> set rs" "rr_start r \<le> q" "q < range_stop r"
      unfolding dom_content by auto
    moreover have "r \<notin> set pre" "r \<notin> set post"
      using place that calculation by (auto simp: placement_def)
    ultimately show ?thesis
      using split by auto
  qed
  obtain r rest where mid: "mid = r # rest"
    using cover [of "in_offset inc"] ne by (cases mid) auto
  have ok: "ranges_ok (r # rest)"
    using rs unfolding split mid [symmetric] by (simp add: ranges_ok_append)
  then have later: "range_stop r < rr_start b" if "b \<in> set rest" for b
    using that by (auto simp: ranges_ok_def)
  have stop: "in_offset inc \<le> range_stop r"
    using place mid by (auto simp: placement_def)
  have "rest = []"
  proof (rule ccontr)
    assume "rest \<noteq> []"
    then obtain b where b: "b \<in> set rest"
      by (cases rest) auto
    then have "range_stop r < in_end inc"
      using later [OF b] place mid by (fastforce simp: placement_def)
    then obtain c where c: "c \<in> set mid" "rr_start c \<le> range_stop r" "range_stop r < range_stop c"
      using cover [OF stop] by auto
    then show False
      using later [of c] mid by auto
  qed
  moreover have "in_offset inc \<le> in_end inc - 1" "in_end inc - 1 < in_end inc"
    using ne by linarith+
  then have "rr_start r \<le> in_offset inc" "in_end inc - 1 < range_stop r"
    using cover [of "in_offset inc"] cover [of "in_end inc - 1"] ne calculation mid by auto
  then have "rr_start r \<le> in_offset inc" "in_end inc \<le> range_stop r"
    by linarith+
  ultimately show thesis
    using that mid by blast
qed

text \<open>
  An update fits its plan: in place only where the plan says so and the ring has room, otherwise
  with a range that holds the policy's choice over the whole union.
\<close>

definition fitting ::
    "incoming \<Rightarrow> retained_range list \<Rightarrow> merge_plan \<Rightarrow> overlap_policy \<Rightarrow> range_update \<Rightarrow> bool" where
  "fitting inc mid mp policy update =
     (case update of
        UpdateUnchanged \<Rightarrow> mp_kind mp = Unchanged
      | UpdateAppend \<Rightarrow> mp_kind mp = Append
          \<and> mp_union_end mp - mp_union_start mp \<le> (\<Sum>r\<leftarrow>mid. dq_capacity (rr_bytes r))
      | UpdatePrepend \<Rightarrow> mp_kind mp = Prepend
          \<and> mp_union_end mp - mp_union_start mp \<le> (\<Sum>r\<leftarrow>mid. dq_capacity (rr_bytes r))
      | UpdateReplace m \<Rightarrow> mp_kind mp \<noteq> Unchanged \<and> rr_start m = mp_union_start mp
          \<and> range_stop m = mp_union_end mp \<and> range_byte m = resolve policy inc (content mid)
          \<and> length (dq_items (rr_bytes m)) \<le> dq_capacity (rr_bytes m))"

text \<open>The ranges an update leaves.\<close>

definition updated ::
    "incoming \<Rightarrow> retained_range list \<Rightarrow> retained_range list \<Rightarrow> retained_range list \<Rightarrow> range_update \<Rightarrow> retained_range list" where
  "updated inc pre mid post update =
     (case update of
        UpdateUnchanged \<Rightarrow> pre @ mid @ post
      | UpdateAppend \<Rightarrow> pre @ map (\<lambda>r. r\<lparr>rr_bytes := deque_extend (in_payload inc) (rr_bytes r)\<rparr>) mid @ post
      | UpdatePrepend \<Rightarrow> pre @ map (\<lambda>r. r\<lparr>rr_bytes := foldr deque_push_front (in_payload inc) (rr_bytes r),
            rr_start := in_offset inc\<rparr>) mid @ post
      | UpdateReplace m \<Rightarrow> pre @ [m] @ post)"

text \<open>In place, the one touched range becomes the range a replacement would have been.\<close>

lemma append_in_place:
  assumes inc: "incoming_ok inc" and rs: "ranges_ok rs" and p: "planned inc rs pre [r] post mp"
    and k: "range_stop r = in_offset inc" "mp_union_end mp - mp_union_start mp \<le> dq_capacity (rr_bytes r)"
  defines "m \<equiv> r\<lparr>rr_bytes := deque_extend (in_payload inc) (rr_bytes r)\<rparr>"
  shows "rr_start m = mp_union_start mp" and "range_stop m = mp_union_end mp"
    and "range_byte m = resolve policy inc (content [r])" and "dq_capacity (rr_bytes m) = dq_capacity (rr_bytes r)"
    and "dq_items (rr_bytes m) = dq_items (rr_bytes r) @ in_payload inc"
proof -
  have U: "mp_union_start mp = min (in_offset inc) (rr_start r)" and E: "mp_union_end mp = max (in_end inc) (range_stop r)"
    using p by (auto simp: planned_def)
  have start: "rr_start r < range_stop r"
    using p rs range_nonempty [OF rs, of r] by (auto simp: planned_def placement_def)
  have bounds: "mp_union_start mp = rr_start r" "mp_union_end mp = in_end inc"
    using start k(1) inc unfolding U E by (auto simp: incoming_ok_def)
  have "length (dq_items (rr_bytes r)) + length (in_payload inc) \<le> dq_capacity (rr_bytes r)"
    using k inc bounds start by (simp add: range_stop_def incoming_ok_def)
  note grown = deque_extend_fits [OF this]
  then show "dq_items (rr_bytes m) = dq_items (rr_bytes r) @ in_payload inc"
    "dq_capacity (rr_bytes m) = dq_capacity (rr_bytes r)"
    by (simp_all add: m_def)
  show "rr_start m = mp_union_start mp"
    using bounds by (simp add: m_def)
  show "range_stop m = mp_union_end mp"
    using bounds k(1) inc grown by (simp add: m_def range_stop_def incoming_ok_def)
  have "dom (content [r]) \<inter> dom (in_byte inc) = {}"
    using k(1) by (auto simp: dom_in_byte [OF inc])
  then have "resolve policy inc (content [r]) = range_byte r ++ in_byte inc"
    by (simp add: resolve_disjoint)
  also have "\<dots> = range_byte m"
    using k(1) grown by (simp add: range_byte_def in_byte_def m_def bytes_at_append range_stop_def)
  finally show "range_byte m = resolve policy inc (content [r])" ..
qed

lemma prepend_in_place:
  assumes inc: "incoming_ok inc" and rs: "ranges_ok rs" and p: "planned inc rs pre [r] post mp"
    and k: "rr_start r = in_end inc" "mp_union_end mp - mp_union_start mp \<le> dq_capacity (rr_bytes r)"
  defines "m \<equiv> r\<lparr>rr_bytes := foldr deque_push_front (in_payload inc) (rr_bytes r), rr_start := in_offset inc\<rparr>"
  shows "rr_start m = mp_union_start mp" and "range_stop m = mp_union_end mp"
    and "range_byte m = resolve policy inc (content [r])" and "dq_capacity (rr_bytes m) = dq_capacity (rr_bytes r)"
    and "dq_items (rr_bytes m) = in_payload inc @ dq_items (rr_bytes r)"
proof -
  have U: "mp_union_start mp = min (in_offset inc) (rr_start r)" and E: "mp_union_end mp = max (in_end inc) (range_stop r)"
    using p by (auto simp: planned_def)
  have start: "rr_start r < range_stop r"
    using p rs range_nonempty [OF rs, of r] by (auto simp: planned_def placement_def)
  have bounds: "mp_union_start mp = in_offset inc" "mp_union_end mp = range_stop r"
    using start k(1) inc unfolding U E by (auto simp: incoming_ok_def)
  have "length (dq_items (rr_bytes r)) + length (in_payload inc) \<le> dq_capacity (rr_bytes r)"
    using k inc bounds start by (simp add: range_stop_def incoming_ok_def)
  from deque_push_fronts_fit [OF this]
  have grown: "dq_items (foldr deque_push_front (in_payload inc) (rr_bytes r)) = in_payload inc @ dq_items (rr_bytes r)"
    "dq_capacity (foldr deque_push_front (in_payload inc) (rr_bytes r)) = dq_capacity (rr_bytes r)"
    by auto
  then show "dq_items (rr_bytes m) = in_payload inc @ dq_items (rr_bytes r)"
    "dq_capacity (rr_bytes m) = dq_capacity (rr_bytes r)"
    by (simp_all add: m_def)
  show "rr_start m = mp_union_start mp"
    using bounds by (simp add: m_def)
  show "range_stop m = mp_union_end mp"
    using bounds k(1) inc grown by (simp add: m_def range_stop_def incoming_ok_def)
  have "dom (content [r]) \<inter> dom (in_byte inc) = {}"
    using k(1) by (auto simp: dom_in_byte [OF inc])
  then have "resolve policy inc (content [r]) = range_byte r ++ in_byte inc"
    by (simp add: resolve_disjoint)
  also have "\<dots> = in_byte inc ++ range_byte r"
    using k(1) by (intro map_add_comm) (auto simp: dom_in_byte [OF inc])
  also have "\<dots> = range_byte m"
    using k(1) inc grown by (simp add: range_byte_def in_byte_def m_def bytes_at_append incoming_ok_def)
  finally show "range_byte m = resolve policy inc (content [r])" ..
qed

lemma planned_unchanged:
  assumes inc: "incoming_ok inc" and rs: "ranges_ok rs" and p: "planned inc rs pre mid post mp"
    and k: "mp_kind mp = Unchanged"
  obtains r where "mid = [r]" and "rr_start r = mp_union_start mp" and "range_stop r = mp_union_end mp"
    and "resolve policy inc (content rs) = content rs"
proof -
  have place: "placement inc rs pre mid post" and card: "length (in_payload inc) \<le> card (overlaps inc (content rs))"
    and none: "card (conflicts inc (content rs)) = 0"
    using p k by (auto simp: planned_def)
  then have eq: "in_end inc - in_offset inc = card (overlaps inc (content rs))"
    using card_overlaps_le [OF inc, of "content rs"] inc by (simp add: incoming_ok_def)
  have conf: "conflicts inc (content rs) = {}"
    using none finite_conflicts [OF inc] by simp
  have "overlaps inc (content rs) = {in_offset inc..<in_end inc}"
    using eq by (intro card_subset_eq) (auto simp: overlaps_def)
  then have "{in_offset inc..<in_end inc} \<subseteq> dom (content rs)"
    by (auto simp: overlaps_def)
  then obtain r where r: "mid = [r]" "rr_start r \<le> in_offset inc" "in_end inc \<le> range_stop r"
    using unchanged_single [OF inc rs place] by blast
  moreover have "rr_start r = mp_union_start mp" "range_stop r = mp_union_end mp"
    using p r by (auto simp: planned_def)
  ultimately show thesis
    using that resolve_agree [OF inc eq conf] by blast
qed

text \<open>Every fitting update leaves ordered ranges that hold the resolved bytes.\<close>

lemma updated_ok:
  assumes inc: "incoming_ok inc" and rs: "ranges_ok rs" and p: "planned inc rs pre mid post mp"
    and fit: "fitting inc mid mp policy update"
  shows "ranges_ok (updated inc pre mid post update)"
    and "content (updated inc pre mid post update) = resolve policy inc (content rs)"
    and "length (updated inc pre mid post update) = mp_result_range_count mp"
proof -
  have split: "rs = pre @ mid @ post" and count: "mp_result_range_count mp = length rs + 1 - length mid"
    using p by (auto simp: planned_def placement_def)
  have one: "ranges_ok (pre @ [m] @ post) \<and> content (pre @ [m] @ post) = resolve policy inc (content rs)
      \<and> length (pre @ [m] @ post) = mp_result_range_count mp"
    if "rr_start m = mp_union_start mp" "range_stop m = mp_union_end mp"
      "range_byte m = resolve policy inc (content mid)"
      "length (dq_items (rr_bytes m)) \<le> dq_capacity (rr_bytes m)" for m
    using merged_ok [OF inc rs p] merged_content [OF inc rs p] that count split by auto
  have "ranges_ok (updated inc pre mid post update)
    \<and> content (updated inc pre mid post update) = resolve policy inc (content rs)
    \<and> length (updated inc pre mid post update) = mp_result_range_count mp"
  proof (cases update)
    case UpdateUnchanged
    then have k: "mp_kind mp = Unchanged"
      using fit by (simp add: fitting_def)
    obtain r where "mid = [r]" "resolve policy inc (content rs) = content rs"
      using planned_unchanged [OF inc rs p k] by blast
    then show ?thesis
      using UpdateUnchanged rs count split by (simp add: updated_def)
  next
    case UpdateAppend
    then obtain r where r: "mid = [r]" "range_stop r = in_offset inc"
        "mp_union_end mp - mp_union_start mp \<le> dq_capacity (rr_bytes r)"
      using fit p by (auto simp: fitting_def planned_def)
    note place = append_in_place [OF inc rs p [unfolded r] r(2,3)]
    let ?m = "r\<lparr>rr_bytes := deque_extend (in_payload inc) (rr_bytes r)\<rparr>"
    have "length (dq_items (rr_bytes ?m)) \<le> dq_capacity (rr_bytes ?m)"
      using place(1,2,4) r(3) unfolding range_stop_def by linarith
    with one [unfolded r(1), OF place(1-3)] show ?thesis
      using UpdateAppend r(1) by (simp add: updated_def)
  next
    case UpdatePrepend
    then obtain r where r: "mid = [r]" "rr_start r = in_end inc"
        "mp_union_end mp - mp_union_start mp \<le> dq_capacity (rr_bytes r)"
      using fit p by (auto simp: fitting_def planned_def)
    note place = prepend_in_place [OF inc rs p [unfolded r] r(2,3)]
    let ?m = "r\<lparr>rr_bytes := foldr deque_push_front (in_payload inc) (rr_bytes r), rr_start := in_offset inc\<rparr>"
    have "length (dq_items (rr_bytes ?m)) \<le> dq_capacity (rr_bytes ?m)"
      using place(1,2,4) r(3) unfolding range_stop_def by linarith
    with one [unfolded r(1), OF place(1-3)] show ?thesis
      using UpdatePrepend r(1) by (simp add: updated_def)
  next
    case (UpdateReplace m)
    then show ?thesis
      using fit one [of m] by (simp add: fitting_def updated_def)
  qed
  then show "ranges_ok (updated inc pre mid post update)"
    "content (updated inc pre mid post update) = resolve policy inc (content rs)"
    "length (updated inc pre mid post update) = mp_result_range_count mp"
    by auto
qed

text \<open>The only failure of an update is the allocation of a slot for a new range; it changes nothing.\<close>

lemma apply_range_update_eq:
  assumes p: "planned inc rs pre mid post mp" and fit: "fitting inc mid mp policy update"
    and small: "length rs \<le> usize_max"
  shows "apply_range_update alloc update inc mp rs =
    (if (\<exists>m. update = UpdateReplace m) \<and> mid = [] \<and> \<not> alloc AllocRangeSlot 1
     then (Err (IpResource (AllocationFailed RANGE_METADATA_CHARGE)), rs)
     else (Ok (), updated inc pre mid post update))"
proof -
  have split: "rs = pre @ mid @ post" and at: "mp_first_affected mp = length pre" "mp_affected_count mp = length mid"
    using p by (auto simp: planned_def placement_def)
  have small': "length pre + length mid \<le> usize_max"
    using small by (simp add: split)
  show ?thesis
  proof (cases update)
    case UpdateUnchanged
    then show ?thesis
      by (simp add: apply_range_update_def updated_def split run_effect)
  next
    case UpdateAppend
    then obtain r where "mid = [r]"
      using fit p by (auto simp: fitting_def planned_def)
    then show ?thesis
      using UpdateAppend by (simp add: apply_range_update_def updated_def split at get_index_def list_update_append run_effect Let_def)
  next
    case UpdatePrepend
    then obtain r where "mid = [r]"
      using fit p by (auto simp: fitting_def planned_def)
    then show ?thesis
      using UpdatePrepend by (simp add: apply_range_update_def updated_def split at get_index_def list_update_append run_effect Let_def)
  next
    case (UpdateReplace m)
    then show ?thesis
      using small' by (simp add: apply_range_update_def updated_def split at checked_add_def get_range_def run_effect Let_def)
  qed
qed

text \<open>A completed datagram reads the same bytes without storing them.\<close>

lemma completed_payload_eq:
  assumes inc: "incoming_ok inc" and rs: "ranges_ok rs" and p: "planned inc rs pre mid post mp"
    and fit: "fitting inc mid mp policy update"
    and one: "mp_result_range_count mp = 1"
  obtains parts where "completed_payload rs update inc = Ok parts"
    and "length (concat parts) = mp_union_end mp - mp_union_start mp"
    and "bytes_at (mp_union_start mp) (concat parts) = resolve policy inc (content rs)"
proof -
  have split: "rs = pre @ mid @ post" and count: "mp_result_range_count mp = length rs + 1 - length mid"
    using p by (simp_all add: planned_def placement_def)
  have "length pre + length post = 0"
    using one count unfolding split by simp
  then have all: "rs = mid" "pre = []" "post = []"
    using split by simp_all
  have single: "\<exists>m. updated inc pre mid post update = [m] \<and> rr_start m = mp_union_start mp \<and> range_stop m = mp_union_end mp
      \<and> (\<exists>parts. completed_payload rs update inc = Ok parts \<and> concat parts = dq_items (rr_bytes m))"
  proof (cases update)
    case UpdateUnchanged
    then have k: "mp_kind mp = Unchanged"
      using fit by (simp add: fitting_def)
    obtain r where "mid = [r]" "rr_start r = mp_union_start mp" "range_stop r = mp_union_end mp"
      using planned_unchanged [OF inc rs p k] by blast
    then show ?thesis
      using UpdateUnchanged all
      by (simp add: updated_def completed_payload_def get_index_def split_def)
  next
    case UpdateAppend
    then obtain r where r: "mid = [r]" "range_stop r = in_offset inc"
        "mp_union_end mp - mp_union_start mp \<le> dq_capacity (rr_bytes r)"
      using fit p by (auto simp: fitting_def planned_def)
    show ?thesis
      using UpdateAppend all r append_in_place [OF inc rs p [unfolded r] r(2,3)]
      by (simp add: updated_def completed_payload_def get_index_def split_def flip: append_assoc)
  next
    case UpdatePrepend
    then obtain r where r: "mid = [r]" "rr_start r = in_end inc"
        "mp_union_end mp - mp_union_start mp \<le> dq_capacity (rr_bytes r)"
      using fit p by (auto simp: fitting_def planned_def)
    show ?thesis
      using UpdatePrepend all r prepend_in_place [OF inc rs p [unfolded r] r(2,3)]
      by (simp add: updated_def completed_payload_def get_index_def split_def)
  next
    case (UpdateReplace m)
    then show ?thesis
      using fit all by (simp add: fitting_def updated_def completed_payload_def split_def Let_def)
  qed
  then obtain m parts where m: "updated inc pre mid post update = [m]" "rr_start m = mp_union_start mp"
      "range_stop m = mp_union_end mp" "completed_payload rs update inc = Ok parts" "concat parts = dq_items (rr_bytes m)"
    by blast
  then have "range_byte m = resolve policy inc (content rs)"
    using updated_ok(2) [OF inc rs p fit] by simp
  then show thesis
    using m by (intro that [of parts]) (auto simp: range_byte_def range_stop_def)
qed

end
