(* ===== verification/Ip_Charges.thy ===== *)
theory Ip_Charges
  imports Ip_Union
begin

text \<open>
  Memory accounting of one push: the storage plan predicts the capacity the ranges have after the
  update, the charge of a datagram is what it retains, and the capacity the engine settles on is one
  it has charged for.
\<close>

section \<open>Capacity\<close>

definition capacity_sum :: "retained_range list \<Rightarrow> nat" where
  "capacity_sum rs = (\<Sum>r\<leftarrow>rs. dq_capacity (rr_bytes r))"

lemma capacity_sum_simps [simp]:
  "capacity_sum [] = 0" "capacity_sum (r # rs) = dq_capacity (rr_bytes r) + capacity_sum rs"
  "capacity_sum (xs @ ys) = capacity_sum xs + capacity_sum ys"
  by (simp_all add: capacity_sum_def)

lemma total_capacity_fold:
  assumes "a \<le> usize_max"
  shows "foldl (\<lambda>total range'. Option.bind total (\<lambda>t. checked_add t (dq_capacity (rr_bytes range')))) (Some a) rs =
     (if a + capacity_sum rs \<le> usize_max then Some (a + capacity_sum rs) else None)"
  using assms
proof (induction rs arbitrary: a)
  case (Cons r rs)
  have none: "foldl (\<lambda>total range'. Option.bind total (\<lambda>t. checked_add t (dq_capacity (rr_bytes range')))) None rs = None"
    by (induction rs) auto
  show ?case
  proof (cases "a + dq_capacity (rr_bytes r) \<le> usize_max")
    case True
    with Cons.IH [of "a + dq_capacity (rr_bytes r)"] show ?thesis
      by (simp add: checked_add_def add.assoc)
  next
    case False
    with none show ?thesis
      by (simp add: checked_add_def)
  qed
qed simp

lemma total_capacity_eq:
  "total_capacity rs = (if capacity_sum rs \<le> usize_max then Some (capacity_sum rs) else None)"
  using total_capacity_fold [of 0 rs] by (simp add: total_capacity_def)

text \<open>A storage plan either keeps the buffers or replaces the touched ones by one allocation.\<close>

definition storage_ok :: "retained_range list \<Rightarrow> retained_range list \<Rightarrow> merge_plan \<Rightarrow> storage_plan \<Rightarrow> bool" where
  "storage_ok rs mid mp sp \<longleftrightarrow>
     (if sp_allocation sp = 0
      then sp_retained_payload sp = capacity_sum rs \<and> mp_kind mp \<noteq> Replace
        \<and> (mp_kind mp \<noteq> Unchanged \<longrightarrow> mp_union_end mp - mp_union_start mp \<le> capacity_sum mid)
      else mp_kind mp \<noteq> Unchanged \<and> mp_union_end mp - mp_union_start mp \<le> sp_allocation sp
        \<and> sp_retained_payload sp = capacity_sum rs - capacity_sum mid + sp_allocation sp)"

lemma plan_storage_cases:
  assumes inc: "incoming_ok inc" and rs: "ranges_ok rs" and p: "planned inc rs pre mid post mp"
  shows "plan_storage r rs mp capacity \<noteq> Panic"
    and "plan_storage r rs mp capacity = Ok sp \<Longrightarrow> storage_ok rs mid mp sp"
    and "plan_storage r rs mp capacity = Err e \<Longrightarrow> e = aggregate_limit r"
proof -
  have affected: "get_range rs (mp_first_affected mp) (mp_first_affected mp + mp_affected_count mp) = Some mid"
    using p by (simp add: planned_def placement_def get_range_def slice_of_def)
  have "mp_union_start mp < mp_union_end mp"
    using planned_union(3) [OF inc rs p] .
  then have required: "minus_or_panic (mp_union_end mp) (mp_union_start mp) = Ok (mp_union_end mp - mp_union_start mp)"
    "0 < mp_union_end mp - mp_union_start mp"
    by simp_all
  have sub: "capacity_sum mid \<le> capacity_sum rs"
    using p by (simp add: planned_def placement_def)
  show "plan_storage r rs mp capacity \<noteq> Panic"
    by (auto simp: plan_storage_def outcome_iff affected required Let_def)
  show "plan_storage r rs mp capacity = Err e \<Longrightarrow> e = aggregate_limit r"
    by (auto simp: plan_storage_def outcome_iff affected required Let_def split: if_splits)
  show "plan_storage r rs mp capacity = Ok sp \<Longrightarrow> storage_ok rs mid mp sp"
    using required(2) sub
    by (cases "mp_kind mp")
       (auto simp: plan_storage_def storage_ok_def outcome_iff affected required total_capacity_eq checked_iff
          bind_eq_Some_conv Let_def split: if_splits)
qed

text \<open>The update realises the plan: the ranges it leaves have the capacity that was charged.\<close>

lemma updated_capacity:
  assumes inc: "incoming_ok inc" and rs: "ranges_ok rs" and p: "planned inc rs pre mid post mp"
    and fit: "fitting inc mid mp policy update"
    and plan: "case update of UpdateReplace m \<Rightarrow> dq_capacity (rr_bytes m) = a | _ \<Rightarrow> True"
  shows "capacity_sum (updated inc pre mid post update) =
    (case update of UpdateReplace m \<Rightarrow> capacity_sum rs - capacity_sum mid + a | _ \<Rightarrow> capacity_sum rs)"
proof -
  have split: "rs = pre @ mid @ post"
    using p by (auto simp: planned_def placement_def)
  show ?thesis
  proof (cases update)
    case UpdateAppend
    then obtain r where r: "mid = [r]" "range_stop r = in_offset inc"
        "mp_union_end mp - mp_union_start mp \<le> dq_capacity (rr_bytes r)"
      using fit p by (auto simp: fitting_def planned_def)
    then show ?thesis
      using UpdateAppend append_in_place(4) [OF inc rs p [unfolded r] r(2,3)] by (simp add: updated_def split)
  next
    case UpdatePrepend
    then obtain r where r: "mid = [r]" "rr_start r = in_end inc"
        "mp_union_end mp - mp_union_start mp \<le> dq_capacity (rr_bytes r)"
      using fit p by (auto simp: fitting_def planned_def)
    then show ?thesis
      using UpdatePrepend prepend_in_place(4) [OF inc rs p [unfolded r] r(2,3)] by (simp add: updated_def split)
  qed (use plan in \<open>simp_all add: updated_def split\<close>)
qed

lemma choose_update_cases:
  assumes inc: "incoming_ok inc" and rs: "ranges_ok rs" and p: "planned inc rs pre mid post mp"
    and sp: "storage_ok rs mid mp sp"
  shows "choose_update alloc r existing inc mp now external rs sp ch \<noteq> Panic"
    and "choose_update alloc r existing inc mp now external rs sp ch = Ok (update, ch') \<Longrightarrow>
      ch' = ch \<and> fitting inc mid mp (ir_overlap_policy r) update
      \<and> capacity_sum (updated inc pre mid post update) = sp_retained_payload sp"
    and "choose_update alloc r existing inc mp now external rs sp ch = Err e \<Longrightarrow>
      e = IpResource (AllocationFailed (sp_allocation sp))"
proof -
  let ?run = "choose_update alloc r existing inc mp now external rs sp ch"
  have "(\<exists>update. ?run = Ok (update, ch) \<and> fitting inc mid mp (ir_overlap_policy r) update
      \<and> capacity_sum (updated inc pre mid post update) = sp_retained_payload sp)
    \<or> ?run = Err (IpResource (AllocationFailed (sp_allocation sp)))"
  proof (cases "sp_allocation sp = 0")
    case True
    then have keep: "sp_retained_payload sp = capacity_sum rs" "mp_kind mp \<noteq> Replace"
      "mp_kind mp \<noteq> Unchanged \<Longrightarrow> mp_union_end mp - mp_union_start mp \<le> (\<Sum>r\<leftarrow>mid. dq_capacity (rr_bytes r))"
      using sp by (auto simp: storage_ok_def capacity_sum_def)
    define update where "update = (case mp_kind mp of Append \<Rightarrow> UpdateAppend | Prepend \<Rightarrow> UpdatePrepend | _ \<Rightarrow> UpdateUnchanged)"
    have run: "?run = Ok (update, ch)"
      using True keep(2) by (simp add: choose_update_def update_def split: update_kind.splits)
    have fit: "fitting inc mid mp (ir_overlap_policy r) update"
      using keep by (cases "mp_kind mp") (simp_all add: update_def fitting_def)
    have "capacity_sum (updated inc pre mid post update) = sp_retained_payload sp"
      using updated_capacity [OF inc rs p fit, of 0] keep(1)
      by (cases "mp_kind mp") (simp_all add: update_def)
    with run fit show ?thesis
      by blast
  next
    case False
    then have room: "mp_union_end mp - mp_union_start mp \<le> sp_allocation sp" "mp_kind mp \<noteq> Unchanged"
      "sp_retained_payload sp = capacity_sum rs - capacity_sum mid + sp_allocation sp"
      using sp by (auto simp: storage_ok_def)
    from merge_affected_holds [OF inc rs p room(1), of alloc "ir_overlap_policy r"]
    show ?thesis
    proof (elim disjE exE conjE)
      assume "merge_affected alloc rs inc mp (ir_overlap_policy r) (sp_allocation sp)
        = Err (IpResource (AllocationFailed (sp_allocation sp)))"
      then show ?thesis
        using False by (simp add: choose_update_def)
    next
      fix m
      assume run: "merge_affected alloc rs inc mp (ir_overlap_policy r) (sp_allocation sp) = Ok m"
        and m: "rr_start m = mp_union_start mp" "range_stop m = mp_union_end mp"
          "dq_capacity (rr_bytes m) = sp_allocation sp" "range_byte m = resolve (ir_overlap_policy r) inc (content mid)"
      have fit: "fitting inc mid mp (ir_overlap_policy r) (UpdateReplace m)"
        using m room by (simp add: fitting_def range_stop_def)
      have "capacity_sum (updated inc pre mid post (UpdateReplace m)) = sp_retained_payload sp"
        using updated_capacity [OF inc rs p fit, of "sp_allocation sp"] m(3) room(3) by simp
      moreover have "?run = Ok (UpdateReplace m, ch)"
        using False run m(3) by (simp add: choose_update_def)
      ultimately show ?thesis
        using fit by blast
    qed
  qed
  then show "?run \<noteq> Panic"
    and "?run = Ok (update, ch') \<Longrightarrow>
      ch' = ch \<and> fitting inc mid mp (ir_overlap_policy r) update
      \<and> capacity_sum (updated inc pre mid post update) = sp_retained_payload sp"
    and "?run = Err e \<Longrightarrow> e = IpResource (AllocationFailed (sp_allocation sp))"
    by auto
qed

section \<open>Choosing a capacity\<close>

text \<open>
  Whatever the search returns is what \<open>attempt\<close> answered for some capacity in its interval, and it
  fails or panics only where an attempt does.
\<close>

declare search_capacity.simps [simp del]

lemma search_capacity_step:
  assumes "lower < upper" and "c = lower + (upper - lower + 1) div 2"
  shows "search_capacity attempt lower upper storage accepted =
    let_ok (attempt c) (\<lambda>(candidate_storage, admitted).
      case admitted of
        Ok candidate_charges \<Rightarrow> search_capacity attempt c upper candidate_storage candidate_charges
      | Err e \<Rightarrow> if over_aggregate (Err e) then search_capacity attempt lower (c - 1) storage accepted else Err e
      | Panic \<Rightarrow> Panic)"
  by (subst search_capacity.simps) (simp only: assms if_True Let_def)

lemma search_capacity_answer:
  assumes "search_capacity attempt lower upper storage accepted = Ok (sp, ch)"
    and "attempt lower = Ok (storage, Ok accepted)" and "lower \<le> upper"
  shows "\<exists>c. lower \<le> c \<and> c \<le> upper \<and> attempt c = Ok (sp, Ok ch)"
  using assms
proof (induction attempt lower upper storage accepted rule: search_capacity.induct)
  case (1 attempt lower upper storage accepted)
  show ?case
  proof (cases "lower < upper")
    case False
    with 1 show ?thesis
      by (auto simp: search_capacity.simps)
  next
    case True
    define c where "c = lower + (upper - lower + 1) div 2"
    have c: "lower < c" "c \<le> upper"
      using True by (auto simp: c_def)
    note step = search_capacity_step [OF True c_def]
    obtain st adm where at: "attempt c = Ok (st, adm)"
      using 1(3) unfolding step by (auto simp: outcome_iff)
    show ?thesis
    proof (cases adm)
      case (Ok ch')
      have "search_capacity attempt c upper st ch' = Ok (sp, ch)"
        using 1(3) Ok unfolding step by (simp add: at)
      from 1(1) [OF True c_def at refl Ok this] at Ok c
      obtain c' where "c \<le> c'" "c' \<le> upper" "attempt c' = Ok (sp, Ok ch)"
        by auto
      then show ?thesis
        using c by (intro exI [of _ c']) auto
    next
      case (Err e)
      have over: "over_aggregate (Err e)" and rec: "search_capacity attempt lower (c - 1) storage accepted = Ok (sp, ch)"
        using 1(3) Err unfolding step by (auto simp: at split: if_splits)
      have "lower \<le> c - 1"
        using c by linarith
      then obtain c' where "lower \<le> c'" "c' \<le> c - 1" "attempt c' = Ok (sp, Ok ch)"
        using 1(2) [OF True c_def at refl Err over rec 1(4)] by auto
      then show ?thesis
        using c by (intro exI [of _ c']) auto
    next
      case Panic
      then show ?thesis
        using 1(3) unfolding step by (simp add: at)
    qed
  qed
qed

lemma search_capacity_no_panic:
  assumes "\<And>c. attempt c \<noteq> Panic" and "\<And>c st. attempt c \<noteq> Ok (st, Panic)"
  shows "search_capacity attempt lower upper storage accepted \<noteq> Panic"
  using assms
proof (induction attempt lower upper storage accepted rule: search_capacity.induct)
  case (1 attempt lower upper storage accepted)
  show ?case
  proof (cases "lower < upper")
    case True
    define c where "c = lower + (upper - lower + 1) div 2"
    note step = search_capacity_step [OF True c_def]
    show ?thesis
    proof (cases "attempt c")
      case (Ok pair)
      obtain st adm where pair: "pair = (st, adm)"
        by fastforce
      with Ok have at: "attempt c = Ok (st, adm)"
        by simp
      show ?thesis
        using 1(1) [OF True c_def at refl _ 1(3,4)] 1(2) [OF True c_def at refl _ _ 1(3,4)] 1(4) [of c st] at
        unfolding step by (auto split: outcome.splits)
    qed (use 1(3) [of c] in \<open>simp_all add: step\<close>)
  qed (simp add: search_capacity.simps)
qed

lemma choose_capacity_answer:
  assumes "choose_capacity attempt required preferred = Ok (sp, ch)" and "required \<le> preferred"
  shows "\<exists>c. required \<le> c \<and> c \<le> preferred \<and> attempt c = Ok (sp, Ok ch)"
proof -
  obtain st adm where at: "attempt preferred = Ok (st, adm)"
    using assms(1) by (auto simp: choose_capacity_def outcome_iff)
  show ?thesis
  proof (cases "over_aggregate adm \<and> preferred > required")
    case True
    then obtain st' ch' where low: "attempt required = Ok (st', Ok ch')"
        and search: "search_capacity attempt required (preferred - 1) st' ch' = Ok (sp, ch)"
      using assms(1) at by (auto simp: choose_capacity_def outcome_iff)
    have "required \<le> preferred - 1"
      using True by linarith
    then obtain c where "required \<le> c" "c \<le> preferred - 1" "attempt c = Ok (sp, Ok ch)"
      using search_capacity_answer [OF search low] by auto
    then show ?thesis
      by (intro exI [of _ c]) auto
  next
    case False
    then show ?thesis
      using assms at by (auto simp: choose_capacity_def outcome_iff)
  qed
qed

lemma choose_capacity_no_panic:
  assumes "\<And>c. attempt c \<noteq> Panic" and "\<And>c st. attempt c \<noteq> Ok (st, Panic)"
  shows "choose_capacity attempt required preferred \<noteq> Panic"
  using assms search_capacity_no_panic [of attempt, OF assms]
  by (auto simp: choose_capacity_def outcome_iff split: prod.splits)

end
