(* ===== verification/Ip_State.thy ===== *)
theory Ip_State
  imports Ip_Charges
begin

text \<open>
  What a validated fragment satisfies, the invariant of one retained datagram, and why the checks of
  a push make the reconstruction of a completed datagram succeed.
\<close>

section \<open>Validated fragments\<close>

text \<open>The header an incoming fragment or a retained datagram carries fits its family.\<close>

definition ipv4_header_ok :: "ipv4_datagram_key \<Rightarrow> bytes \<Rightarrow> bool" where
  "ipv4_header_ok k h \<longleftrightarrow> 20 \<le> length h \<and> length h \<le> 60 \<and> drop_bit 4 (h ! 0) = 4
     \<and> unat (h ! 0 AND 0x0f) * 4 = length h
     \<and> be16 (h ! 4) (h ! 5) = v4_identification k \<and> h ! 9 = v4_protocol k
     \<and> ipv4_of [h ! 12, h ! 13, h ! 14, h ! 15] = v4_source k
     \<and> ipv4_of [h ! 16, h ! 17, h ! 18, h ! 19] = v4_destination k"

definition ipv6_prefix_ok :: "ipv6_datagram_key \<Rightarrow> bytes \<Rightarrow> usize \<Rightarrow> bool" where
  "ipv6_prefix_ok k p at \<longleftrightarrow> 40 \<le> length p \<and> 6 \<le> at \<and> at < length p \<and> (at < 40 \<longrightarrow> at = 6) \<and> drop_bit 4 (p ! 0) = 6
     \<and> ipv6_of (take 16 (drop 8 p)) = v6_source k \<and> ipv6_of (take 16 (drop 24 p)) = v6_destination k"

fun incoming_header_ok :: "datagram_key \<Rightarrow> incoming_reconstruction \<Rightarrow> bool" where
  "incoming_header_ok (KeyV4 k) (IncIpv4 h) \<longleftrightarrow> ipv4_header_ok k h"
| "incoming_header_ok (KeyV6 k) (IncIpv6 p at _) \<longleftrightarrow> ipv6_prefix_ok k p at"
| "incoming_header_ok _ _ \<longleftrightarrow> False"

fun header_ok :: "datagram_key \<Rightarrow> reconstruction \<Rightarrow> bool" where
  "header_ok (KeyV4 k) (RecIpv4 None _) \<longleftrightarrow> True"
| "header_ok (KeyV4 k) (RecIpv4 (Some h) _) \<longleftrightarrow> ipv4_header_ok k h"
| "header_ok (KeyV6 k) (RecIpv6 p at _ _ _) \<longleftrightarrow> ipv6_prefix_ok k p at"
| "header_ok _ _ \<longleftrightarrow> False"

definition valid_incoming :: "ip_limits \<Rightarrow> incoming \<Rightarrow> bool" where
  "valid_incoming limits inc \<longleftrightarrow> incoming_ok inc \<and> in_end inc \<le> 65535 \<and> in_end inc \<le> max_bytes_per_datagram limits
     \<and> incoming_header_ok (in_key inc) (in_reconstruction inc)
     \<and> (in_offset inc = 0 \<longrightarrow> in_more_fragments inc)"

lemma validate_ipv4_header_Ok:
  assumes "validate_ipv4_header f = Ok e"
  shows "ipv4_header_ok (f4_key f) (f4_header f)"
  using assms nibble_less [of "f4_header f ! 0"]
  by (auto simp: validate_ipv4_header_def outcome_iff checked_iff IPV4_MIN_LENGTH_def Let_def ipv4_header_ok_def)

declare predecessor_loop.simps [simp del]

lemma predecessor_loop_inside:
  assumes "predecessor_loop prefix c at = Some q" and "at < length prefix" and "chain_bytes c = prefix"
    and "40 \<le> chain_offset c" and "at = 6 \<or> 40 \<le> at"
  shows "q < length prefix \<and> (q = 6 \<or> 40 \<le> q)"
  using assms
proof (induction prefix c at rule: predecessor_loop.induct)
  case (1 prefix c at)
  show ?case
  proof (cases "chain_protocol c = FRAGMENT")
    case True
    with 1(2,3,6) show ?thesis
      by (auto simp: predecessor_loop.simps [of prefix c] chain_position_def split: if_splits)
  next
    case False
    then obtain x c' where nx: "chain_next c = (Some (Ok x), c')"
        and rec: "predecessor_loop prefix c' (ext_offset x) = Some q"
      using 1(2)
      by (auto simp: predecessor_loop.simps [of prefix c] chain_position_def
          split: prod.splits option.splits outcome.splits)
    note item = chain_next_item [OF nx]
    have "extension_in prefix x" and bytes: "chain_bytes c' = prefix"
      using chain_step_Ok(3) [OF item(4,10)] item(7) 1(4) by simp_all
    then have inside: "ext_offset x < length prefix" and behind: "40 \<le> ext_offset x" "40 \<le> chain_offset c'"
      using chain_step_Ok(2) [OF item(4,10)] item(5) 1(5) by (auto simp: extension_in_def ext_end_def)
    show ?thesis
      by (rule 1(1) [OF refl _ _ _ _ _ rec inside bytes, of "chain_protocol c" "chain_offset c" "Some (Ok x)"])
         (use False nx behind in \<open>simp_all add: chain_position_def\<close>)
  qed
qed

lemma ipv6_fragment_predecessor_inside:
  assumes "ipv6_fragment_predecessor prefix = Some q"
  shows "40 \<le> length prefix" and "q < length prefix \<and> (q = 6 \<or> 40 \<le> q)"
proof -
  show len: "40 \<le> length prefix"
    using assms by (auto simp: ipv6_fragment_predecessor_def bind_eq_Some_conv checked_iff IPV6_LENGTH_def)
  let ?c = "chain_with_ceiling (length prefix div 8) (chain_new prefix IPV6_LENGTH (prefix ! 6))"
  have "predecessor_loop prefix ?c 6 = Some q"
    using assms by (auto simp: ipv6_fragment_predecessor_def bind_eq_Some_conv checked_iff IPV6_LENGTH_def)
  moreover have "chain_bytes ?c = prefix" "40 \<le> chain_offset ?c"
    by (simp_all add: chain_with_ceiling_def chain_new_def IPV6_LENGTH_def)
  ultimately show "q < length prefix \<and> (q = 6 \<or> 40 \<le> q)"
    using len by (elim predecessor_loop_inside) simp_all
qed

lemma validate_ipv6_prefix_Ok:
  assumes "validate_ipv6_prefix f = Ok e"
  shows "ipv6_prefix_ok (f6_key f) (f6_unfragmentable_prefix f) (f6_predecessor_next_header_offset f)"
proof -
  have "ipv6_fragment_predecessor (f6_unfragmentable_prefix f) = Some (f6_predecessor_next_header_offset f)"
    using assms by (auto simp: validate_ipv6_prefix_def outcome_iff Let_def)
  from ipv6_fragment_predecessor_inside [OF this] show ?thesis
    using assms by (auto simp: validate_ipv6_prefix_def outcome_iff checked_iff bind_eq_Some_conv IPV6_LENGTH_def
      ipv6_prefix_ok_def Let_def)
qed

text \<open>The extent check bounds the end of what the fragment and the datagram cover.\<close>

lemma wire_extent_Ok:
  assumes "validate_family_wire_extent existing inc final_length = Ok u"
  shows "(case final_length of
      None \<Rightarrow> max (in_end inc) (case last_range_end existing of None \<Rightarrow> 0 | Some e \<Rightarrow> e) | Some len \<Rightarrow> len) \<le> 65535"
    (is "?extent \<le> _")
proof -
  obtain n where "\<not> (case checked_add n ?extent of None \<Rightarrow> True | Some len \<Rightarrow> len > MAX_WIRE_LENGTH)"
    using assms unfolding validate_family_wire_extent_def Let_def let_ok_Ok_iff ensure_iff by blast
  then show ?thesis
    by (auto simp: checked_iff MAX_WIRE_LENGTH_def split: option.splits)
qed

lemma validate_fragment_Ok:
  assumes "validate_fragment fragment limits = Ok inc"
  shows "valid_incoming limits inc"
proof -
  have extent: "validate_family_wire_extent None inc (if in_more_fragments inc then None else Some (in_end inc)) = Ok ()"
    and limit: "in_end inc \<le> max_bytes_per_datagram limits"
    and sizes: "in_payload inc \<noteq> []" "in_end inc = in_offset inc + length (in_payload inc)" "in_end inc \<le> usize_max"
    and atomic: "in_offset inc = 0 \<longrightarrow> in_more_fragments inc"
    using assms
    by (auto simp: validate_fragment_def outcome_iff checked_iff Let_def unat_eq_zero split: fragment.splits)
  have "in_end inc \<le> 65535"
    using wire_extent_Ok [OF extent] by (simp split: if_splits)
  moreover have "incoming_header_ok (in_key inc) (in_reconstruction inc)"
  proof (cases fragment)
    case (FragmentV4 f)
    with assms obtain e where "validate_ipv4_header f = Ok e" "in_key inc = KeyV4 (f4_key f)"
        "in_reconstruction inc = IncIpv4 (f4_header f)"
      by (auto simp: validate_fragment_def outcome_iff Let_def)
    then show ?thesis
      using validate_ipv4_header_Ok [of f e] by simp
  next
    case (FragmentV6 f)
    with assms obtain e where "validate_ipv6_prefix f = Ok e" "in_key inc = KeyV6 (f6_key f)"
        "in_reconstruction inc = IncIpv6 (f6_unfragmentable_prefix f) (f6_predecessor_next_header_offset f) (f6_next_header f)"
      by (auto simp: validate_fragment_def outcome_iff Let_def)
    then show ?thesis
      using validate_ipv6_prefix_Ok [of f e] by simp
  qed
  ultimately show ?thesis
    using limit sizes atomic by (simp add: valid_incoming_def incoming_ok_def)
qed

lemma wire_extent_no_panic: "validate_family_wire_extent existing inc final_length \<noteq> Panic"
proof (cases existing)
  case None
  then show ?thesis
    unfolding validate_family_wire_extent_def Let_def
    by (cases "in_reconstruction inc") (simp_all add: let_ok_Panic_iff ensure_iff ok_or_iff)
next
  case (Some st)
  then show ?thesis
    unfolding validate_family_wire_extent_def Let_def
    by (cases "in_reconstruction inc"; cases "ds_reconstruction st") (simp_all add: let_ok_Panic_iff ensure_iff ok_or_iff)
qed

lemma validate_fragment_no_panic: "validate_fragment fragment limits \<noteq> Panic"
proof -
  have "validate_ipv4_header f \<noteq> Panic" for f
    unfolding validate_ipv4_header_def Let_def by (simp add: let_ok_Panic_iff ensure_iff ok_or_iff)
  moreover have "validate_ipv6_prefix f \<noteq> Panic" for f
    unfolding validate_ipv6_prefix_def Let_def by (simp add: let_ok_Panic_iff ensure_iff ok_or_iff)
  ultimately show ?thesis
    unfolding validate_fragment_def Let_def
    by (simp add: let_ok_Panic_iff ensure_iff ok_or_iff wire_extent_no_panic split: fragment.splits)
qed

section \<open>The retained header\<close>

fun header_len :: "reconstruction \<Rightarrow> nat" where
  "header_len (RecIpv4 None _) = 0"
| "header_len (RecIpv4 (Some h) _) = length h"
| "header_len (RecIpv6 p _ _ _ _) = length p"

fun has_header :: "reconstruction \<Rightarrow> bool" where
  "has_header (RecIpv4 h _) \<longleftrightarrow> h \<noteq> None"
| "has_header (RecIpv6 _ _ _ _ z) \<longleftrightarrow> z"

definition existing_ok :: "datagram_key \<Rightarrow> datagram_state option \<Rightarrow> bool" where
  "existing_ok key existing \<longleftrightarrow> (case existing of None \<Rightarrow> True | Some st \<Rightarrow> header_ok key (ds_reconstruction st))"

definition had_header :: "datagram_state option \<Rightarrow> bool" where
  "had_header existing \<longleftrightarrow> (case existing of None \<Rightarrow> False | Some st \<Rightarrow> has_header (ds_reconstruction st))"

text \<open>The header a push retains: the established one, or the incoming one at offset zero or first.\<close>

definition retains :: "datagram_state option \<Rightarrow> incoming \<Rightarrow> ecn \<Rightarrow> reconstruction" where
  "retains existing inc e =
     (case (existing, in_reconstruction inc) of
        (Some st, IncIpv4 h) \<Rightarrow>
          if had_header existing \<or> in_offset inc \<noteq> 0 then with_ecn e (ds_reconstruction st) else RecIpv4 (Some h) e
      | (Some st, IncIpv6 p at n) \<Rightarrow>
          if had_header existing \<or> in_offset inc \<noteq> 0 then with_ecn e (ds_reconstruction st) else RecIpv6 p at n e True
      | (None, IncIpv4 h) \<Rightarrow> RecIpv4 (if in_offset inc = 0 then Some h else None) e
      | (None, IncIpv6 p at n) \<Rightarrow> RecIpv6 p at n e (in_offset inc = 0))"

lemma with_ecn_simps [simp]:
  "header_len (with_ecn e rc) = header_len rc" "has_header (with_ecn e rc) = has_header rc"
  "header_ok k (with_ecn e rc) = header_ok k rc" "reconstruction_ecn (with_ecn e rc) = e"
proof -
  show "header_len (with_ecn e rc) = header_len rc" "has_header (with_ecn e rc) = has_header rc"
    "reconstruction_ecn (with_ecn e rc) = e"
    by (cases rc; cases "case rc of RecIpv4 h _ \<Rightarrow> h | _ \<Rightarrow> None"; simp)+
  show "header_ok k (with_ecn e rc) = header_ok k rc"
  proof (cases rc)
    case (RecIpv4 h e')
    then show ?thesis
      by (cases k; cases h) simp_all
  qed (cases k; simp)
qed

lemma retained_header_of:
  assumes "existing_ok key existing" and "incoming_header_ok key (in_reconstruction inc)"
  shows "\<exists>rh. select_retained_header existing inc = Ok rh \<and> retained_header_len rh inc = header_len (retains existing inc e)"
    and "materialize_reconstruction alloc existing inc e = Ok (retains existing inc e)
      \<or> (\<exists>n. materialize_reconstruction alloc existing inc e = Err (IpResource (AllocationFailed n)))"
    and "header_ok key (retains existing inc e)"
    and "has_header (retains existing inc e) \<longleftrightarrow> had_header existing \<or> in_offset inc = 0"
    and "reconstruction_ecn (retains existing inc e) = e"
proof -
  note defs = retains_def select_retained_header_def had_header_def existing_ok_def
  have "(\<exists>rh. select_retained_header existing inc = Ok rh \<and> retained_header_len rh inc = header_len (retains existing inc e))
    \<and> (materialize_reconstruction alloc existing inc e = Ok (retains existing inc e)
      \<or> (\<exists>n. materialize_reconstruction alloc existing inc e = Err (IpResource (AllocationFailed n))))
    \<and> header_ok key (retains existing inc e) \<and> (has_header (retains existing inc e) \<longleftrightarrow> had_header existing \<or> in_offset inc = 0)
    \<and> reconstruction_ecn (retains existing inc e) = e"
  proof (cases existing)
    case None
    then show ?thesis
      using assms(2) by (cases key; cases "in_reconstruction inc")
        (auto simp: defs materialize_reconstruction_def copy_bytes_def try_reserve_def ensure_def)
  next
    case (Some st)
    show ?thesis
    proof (cases "in_reconstruction inc")
      case (IncIpv4 h)
      then obtain k fh e' where k: "key = KeyV4 k" and rc: "ds_reconstruction st = RecIpv4 fh e'"
        using assms Some by (cases key; cases "ds_reconstruction st") (auto simp: existing_ok_def)
      show ?thesis
        using assms Some IncIpv4 k rc
        by (cases fh) (auto simp: defs materialize_reconstruction_def copy_bytes_def try_reserve_def ensure_def)
    next
      case (IncIpv6 p at n)
      then obtain k p' at' n' e' z where k: "key = KeyV6 k" and rc: "ds_reconstruction st = RecIpv6 p' at' n' e' z"
        using assms Some by (cases key; cases "ds_reconstruction st") (auto simp: existing_ok_def)
      show ?thesis
        using assms Some IncIpv6 k rc
        by (auto simp: defs materialize_reconstruction_def copy_bytes_def try_reserve_def ensure_def)
    qed
  qed
  then show "\<exists>rh. select_retained_header existing inc = Ok rh \<and> retained_header_len rh inc = header_len (retains existing inc e)"
    and "materialize_reconstruction alloc existing inc e = Ok (retains existing inc e)
      \<or> (\<exists>n. materialize_reconstruction alloc existing inc e = Err (IpResource (AllocationFailed n)))"
    and "header_ok key (retains existing inc e)"
    and "has_header (retains existing inc e) \<longleftrightarrow> had_header existing \<or> in_offset inc = 0"
    and "reconstruction_ecn (retains existing inc e) = e"
    by - (elim conjE, assumption)+
qed

lemma header_len_pos: "header_ok key rc \<Longrightarrow> has_header rc \<Longrightarrow> 20 \<le> header_len rc"
  by (cases "(key, rc)" rule: header_ok.cases) (auto simp: ipv4_header_ok_def ipv6_prefix_ok_def)

end
