(* ===== verification/Ip_Rebuild.thy ===== *)
theory Ip_Rebuild
  imports Ip_State
begin

text \<open>
  The completed datagram: a rewritten header followed by the payload. The rewritten IPv4 header
  verifies, announces the right length, is no longer a fragment and keeps every other field.
\<close>

section \<open>The rewritten header\<close>

definition rewritten_ipv4 :: "bytes \<Rightarrow> ecn \<Rightarrow> nat \<Rightarrow> bytes" where
  "rewritten_ipv4 h e n =
     (let a = copy_at h 2 (be_bytes 2 n);
          b = a[1 := (a ! 1 AND 0xfc) OR ecn_ipv4_tos_bits e];
          c = copy_at b 6 (be_bytes 2 (unat (be16 (b ! 6) (b ! 7) AND 0xc000))) in
      copy_at c 10 (be_bytes 2 (unat (checksum_parts [copy_at c 10 [0, 0]]))))"

definition rewritten_ipv6 :: "bytes \<Rightarrow> usize \<Rightarrow> u8 \<Rightarrow> ecn \<Rightarrow> nat \<Rightarrow> bytes" where
  "rewritten_ipv6 p at n e len =
     (let a = copy_at p 4 (be_bytes 2 len);
          b = a[1 := (a ! 1 AND NOT 0x30) OR ecn_ipv6_traffic_class_bits e] in
      b[at := n])"

fun rebuilt :: "reconstruction \<Rightarrow> bytes \<Rightarrow> bytes" where
  "rebuilt (RecIpv4 (Some h) e) payload = rewritten_ipv4 h e (length h + length payload) @ payload"
| "rebuilt (RecIpv4 None e) payload = payload"
| "rebuilt (RecIpv6 p at n e z) payload = rewritten_ipv6 p at n e (length p - 40 + length payload) @ payload"

lemma copy_at_append:
  "i + length ys \<le> length xs \<Longrightarrow> copy_at (xs @ zs) i ys = copy_at xs i ys @ zs"
  by (simp add: copy_at_def)

lemma copy_at_twice:
  assumes "i + length ys \<le> length xs" and "length zs = length ys"
  shows "copy_at (copy_at xs i ys) i zs = copy_at xs i zs"
  using assms by (simp add: copy_at_def)

lemma checksum_written:
  assumes "12 \<le> length h"
  shows "checksum_parts [copy_at h 10 (be_bytes 2 (unat (checksum_parts [copy_at h 10 [0, 0]])))] = 0"
  using checksum_field_verifies [of "take 10 h" "drop 12 h"] assms by (simp add: copy_at_def)

lemma length_rewritten_ipv4 [simp]: "12 \<le> length h \<Longrightarrow> length (rewritten_ipv4 h e n) = length h"
  by (simp add: rewritten_ipv4_def Let_def)

lemma rewritten_ipv4_verifies: "12 \<le> length h \<Longrightarrow> checksum_parts [rewritten_ipv4 h e n] = 0"
  by (simp add: rewritten_ipv4_def Let_def checksum_written)

lemma of_nat_u16_bytes: "n < 65536 \<Longrightarrow> be_bytes 2 (unat (of_nat n :: u16)) = be_bytes 2 n"
  by (simp add: unat_of_nat)

lemma put_u16_length:
  "n < 65536 \<Longrightarrow> at + 2 \<le> length h \<Longrightarrow> put_u16 at (of_nat n) (h @ pl) = Ok (copy_at h at (be_bytes 2 n) @ pl)"
  by (simp add: put_u16_def write_range_def copy_at_append of_nat_u16_bytes)

lemma reconstruct_ipv4_eq:
  assumes "20 \<le> length h" and "length h + length (concat parts) < 65536"
  shows "reconstruct_ipv4 alloc (Some h) e parts =
    (if alloc AllocDatagram (length h + length (concat parts))
     then Ok (rebuilt (RecIpv4 (Some h) e) (concat parts))
     else Err (IpResource (AllocationFailed (length h + length (concat parts)))))"
proof -
  let ?pl = "concat parts"
  let ?n = "length h + length ?pl"
  let ?a = "copy_at h 2 (be_bytes 2 ?n)"
  let ?b = "?a[1 := (?a ! 1 AND 0xfc) OR ecn_ipv4_tos_bits e]"
  let ?c = "copy_at ?b 6 (be_bytes 2 (unat (be16 (?b ! 6) (?b ! 7) AND 0xc000)))"
  have small: "?n \<le> usize_max" "?n < 65536"
    using assms(2) by (simp_all add: usize_max_def)
  have total: "payload_parts_length parts = Ok (length ?pl)"
    using small by (simp add: payload_parts_length_def total_length_eq)
  have len: "length ?a = length h" "length ?b = length h" "length ?c = length h"
    using assms(1) by simp_all
  have put_len: "put_u16 2 (of_nat ?n) (h @ ?pl) = Ok (?a @ ?pl)"
    using assms(1) small by (intro put_u16_length) simp_all
  have put_tos: "put_byte 1 (\<lambda>tos. (tos AND 0xfc) OR ecn_ipv4_tos_bits e) (?a @ ?pl) = Ok (?b @ ?pl)"
    using assms(1) len by (simp add: put_byte_def get_index_def nth_append list_update_append)
  have read_flags: "map_option (\<lambda>c. be16 (c ! 0) (c ! 1)) (Option.bind (get_range (?b @ ?pl) 6 8) (first_chunk 2))
      = Some (be16 (?b ! 6) (?b ! 7))"
    using assms(1) len by (simp add: get_range_def first_chunk_def slice_of_def nth_append)
  have put_flags: "put_u16 6 (be16 (?b ! 6) (?b ! 7) AND 0xc000) (?b @ ?pl) = Ok (?c @ ?pl)"
    using assms(1) len by (simp add: put_u16_def write_range_def copy_at_append)
  have zero: "write_range (?c @ ?pl) 10 [0, 0] = Some (copy_at ?c 10 [0, 0] @ ?pl)"
    using assms(1) len by (simp add: write_range_def copy_at_append)
  have covered: "get_range (copy_at ?c 10 [0, 0] @ ?pl) 0 (length h) = Some (copy_at ?c 10 [0, 0])"
    using assms(1) len by (simp add: get_range_def slice_of_def)
  have put_sum: "put_u16 10 w (copy_at ?c 10 [0, 0] @ ?pl) = Ok (copy_at ?c 10 (be_bytes 2 (unat w)) @ ?pl)" for w
    using assms(1) len by (simp add: put_u16_def write_range_def copy_at_append copy_at_twice)
  have word: "Option.bind (checked_add (length h) (length ?pl)) u16_try_from = Some (of_nat ?n)"
    "unat (of_nat ?n :: u16) = ?n"
    using small unat_of_nat_u16 [of ?n] by (simp_all add: checked_add_def u16_try_from_def)
  show ?thesis
  proof (cases "alloc AllocDatagram ?n")
    case True
    then have "try_reserve alloc AllocDatagram (unat (of_nat ?n :: u16)) = Ok ()"
      unfolding word(2) by (simp add: try_reserve_def)
    with True show ?thesis
      unfolding reconstruct_ipv4_def
      by (simp only: ok_or_simps let_ok.simps total word(1) Let_def put_len put_tos read_flags put_flags zero covered put_sum
          rebuilt.simps rewritten_ipv4_def if_True)
  next
    case False
    then have "try_reserve alloc AllocDatagram (unat (of_nat ?n :: u16)) = Err (IpResource (AllocationFailed ?n))"
      unfolding word(2) by (simp add: try_reserve_def)
    with False show ?thesis
      unfolding reconstruct_ipv4_def
      by (simp only: ok_or_simps let_ok.simps total word(1) if_False)
  qed
qed

lemma reconstruct_ipv6_eq:
  assumes "40 \<le> length p" and "at < length p" and "length p - 40 + length (concat parts) < 65536"
  shows "reconstruct_ipv6 alloc p at n e parts =
    (if alloc AllocDatagram (length p + length (concat parts))
     then Ok (rebuilt (RecIpv6 p at n e z) (concat parts))
     else Err (IpResource (AllocationFailed (length p + length (concat parts)))))"
proof -
  let ?pl = "concat parts"
  let ?len = "length p - 40 + length ?pl"
  let ?a = "copy_at p 4 (be_bytes 2 ?len)"
  let ?b = "?a[1 := (?a ! 1 AND NOT 0x30) OR ecn_ipv6_traffic_class_bits e]"
  have small: "length ?pl \<le> usize_max" "?len \<le> usize_max" "length p + length ?pl \<le> usize_max" "?len < 65536"
    using assms(1,3) by (simp_all add: usize_max_def)
  have total: "payload_parts_length parts = Ok (length ?pl)"
    using small by (simp add: payload_parts_length_def total_length_eq)
  have ext: "checked_sub (length p) IPV6_LENGTH = Some (length p - 40)"
    "Option.bind (checked_add (length p - 40) (length ?pl)) u16_try_from = Some (of_nat ?len)"
    "checked_add (length p) (length ?pl) = Some (length p + length ?pl)"
    using assms(1) small by (simp_all add: checked_sub_def checked_add_def u16_try_from_def IPV6_LENGTH_def)
  have len: "length ?a = length p" "length ?b = length p"
    using assms(1) by simp_all
  have put_len: "put_u16 4 (of_nat ?len) (p @ ?pl) = Ok (?a @ ?pl)"
    using assms(1) small by (intro put_u16_length) simp_all
  have put_class: "put_byte 1 (\<lambda>tc. (tc AND NOT 0x30) OR ecn_ipv6_traffic_class_bits e) (?a @ ?pl) = Ok (?b @ ?pl)"
    using assms(1) len by (simp add: put_byte_def get_index_def nth_append list_update_append)
  have put_next: "put_byte at (\<lambda>_. n) (?b @ ?pl) = Ok (?b[at := n] @ ?pl)"
    using assms(2) len by (simp add: put_byte_def get_index_def nth_append list_update_append)
  show ?thesis
  proof (cases "alloc AllocDatagram (length p + length ?pl)")
    case True
    then have "try_reserve alloc AllocDatagram (length p + length ?pl) = Ok ()"
      by (simp add: try_reserve_def)
    with True show ?thesis
      unfolding reconstruct_ipv6_def
      by (simp only: ok_or_simps let_ok.simps total ext Let_def put_len put_class put_next
          rebuilt.simps rewritten_ipv6_def if_True)
  next
    case False
    then have "try_reserve alloc AllocDatagram (length p + length ?pl) = Err (IpResource (AllocationFailed (length p + length ?pl)))"
      by (simp add: try_reserve_def)
    with False show ?thesis
      unfolding reconstruct_ipv6_def
      by (simp only: ok_or_simps let_ok.simps total ext if_False)
  qed
qed

text \<open>How long a reconstructed datagram may be: IPv6 does not count its base header.\<close>

fun wire_length :: "reconstruction \<Rightarrow> nat \<Rightarrow> nat" where
  "wire_length (RecIpv4 h e) n = header_len (RecIpv4 h e) + n"
| "wire_length (RecIpv6 p at m e z) n = length p - 40 + n"

lemma reconstruct_bytes_eq:
  assumes "header_ok key rc" and "has_header rc" and "wire_length rc (length (concat parts)) < 65536"
  shows "reconstruct_bytes alloc rc parts = Ok (rebuilt rc (concat parts))
    \<or> (\<exists>n. reconstruct_bytes alloc rc parts = Err (IpResource (AllocationFailed n)))"
    and "alloc AllocDatagram (header_len rc + length (concat parts)) \<Longrightarrow>
      reconstruct_bytes alloc rc parts = Ok (rebuilt rc (concat parts))"
proof -
  have "reconstruct_bytes alloc rc parts =
    (if alloc AllocDatagram (header_len rc + length (concat parts)) then Ok (rebuilt rc (concat parts))
     else Err (IpResource (AllocationFailed (header_len rc + length (concat parts)))))"
  proof (cases rc)
    case (RecIpv4 fh e)
    then obtain h k where "fh = Some h" "ipv4_header_ok k h"
      using assms(1,2) by (cases key) auto
    then show ?thesis
      using assms(3) RecIpv4 by (simp add: reconstruct_ipv4_eq ipv4_header_ok_def)
  next
    case (RecIpv6 p at n e z)
    then obtain k where "ipv6_prefix_ok k p at"
      using assms(1) by (cases key) auto
    then show ?thesis
      using assms(3) RecIpv6 by (simp add: reconstruct_ipv6_eq [where z = z] ipv6_prefix_ok_def)
  qed
  then show "reconstruct_bytes alloc rc parts = Ok (rebuilt rc (concat parts))
    \<or> (\<exists>n. reconstruct_bytes alloc rc parts = Err (IpResource (AllocationFailed n)))"
    and "alloc AllocDatagram (header_len rc + length (concat parts)) \<Longrightarrow>
      reconstruct_bytes alloc rc parts = Ok (rebuilt rc (concat parts))"
    by auto
qed

section \<open>Its fields\<close>

text \<open>Which bytes of an IPv4 header the rewriting changes, and to what.\<close>

lemma rewritten_ipv4_fields:
  assumes "20 \<le> length h" and "n < 65536"
  shows "i < length h \<Longrightarrow> i \<notin> {1, 2, 3, 6, 7, 10, 11} \<Longrightarrow> rewritten_ipv4 h e n ! i = h ! i"
    and "unat (be16 (rewritten_ipv4 h e n ! 2) (rewritten_ipv4 h e n ! 3)) = n"
    and "rewritten_ipv4 h e n ! 1 = (h ! 1 AND 0xfc) OR ecn_ipv4_tos_bits e"
    and "be16 (rewritten_ipv4 h e n ! 6) (rewritten_ipv4 h e n ! 7) = be16 (h ! 6) (h ! 7) AND 0xc000"
proof -
  define a where "a = copy_at h 2 (be_bytes 2 n)"
  define b where "b = a[1 := (a ! 1 AND 0xfc) OR ecn_ipv4_tos_bits e]"
  define w where "w = be16 (b ! 6) (b ! 7) AND 0xc000"
  define c where "c = copy_at b 6 (be_bytes 2 (unat w))"
  define s where "s = checksum_parts [copy_at c 10 [0, 0]]"
  have d: "rewritten_ipv4 h e n = copy_at c 10 (be_bytes 2 (unat s))"
    by (simp add: rewritten_ipv4_def Let_def a_def b_def c_def s_def w_def)
  have len: "length a = length h" "length b = length h" "length c = length h"
    using assms(1) by (simp_all add: a_def b_def c_def)
  have a: "a ! i = (if i = 2 then be_bytes 2 n ! 0 else if i = 3 then be_bytes 2 n ! 1 else h ! i)" if "i < length h" for i
    using that assms(1) by (auto simp: a_def nth_copy_at)
  have b: "b ! i = (if i = 1 then (h ! 1 AND 0xfc) OR ecn_ipv4_tos_bits e else a ! i)" if "i < length h" for i
    using that assms(1) len a [of 1] by (simp add: b_def nth_list_update)
  have c: "c ! i = (if i = 6 then be_bytes 2 (unat w) ! 0 else if i = 7 then be_bytes 2 (unat w) ! 1 else b ! i)"
    if "i < length h" for i
    using that assms(1) len by (auto simp: c_def nth_copy_at)
  have d': "rewritten_ipv4 h e n ! i = (if i = 10 \<or> i = 11 then be_bytes 2 (unat s) ! (i - 10) else c ! i)"
    if "i < length h" for i
    using that assms(1) len unfolding d by (auto simp: nth_copy_at)
  show "i < length h \<Longrightarrow> i \<notin> {1, 2, 3, 6, 7, 10, 11} \<Longrightarrow> rewritten_ipv4 h e n ! i = h ! i"
    using a b c d' by simp
  have "rewritten_ipv4 h e n ! 2 = be_bytes 2 n ! 0" "rewritten_ipv4 h e n ! 3 = be_bytes 2 n ! 1"
    using assms(1) by (simp_all add: d' c b a)
  then show "unat (be16 (rewritten_ipv4 h e n ! 2) (rewritten_ipv4 h e n ! 3)) = n"
    using be16_be_bytes [of "of_nat n :: u16"] assms(2) by (simp add: unat_of_nat)
  show "rewritten_ipv4 h e n ! 1 = (h ! 1 AND 0xfc) OR ecn_ipv4_tos_bits e"
    using assms(1) by (simp add: d' c b)
  have "rewritten_ipv4 h e n ! 6 = be_bytes 2 (unat w) ! 0" "rewritten_ipv4 h e n ! 7 = be_bytes 2 (unat w) ! 1"
    using assms(1) by (simp_all add: d' c)
  then have "be16 (rewritten_ipv4 h e n ! 6) (rewritten_ipv4 h e n ! 7) = w"
    using be16_be_bytes [of w] by simp
  also have "w = be16 (h ! 6) (h ! 7) AND 0xc000"
    using assms(1) by (simp add: w_def b a)
  finally show "be16 (rewritten_ipv4 h e n ! 6) (rewritten_ipv4 h e n ! 7) = be16 (h ! 6) (h ! 7) AND 0xc000" .
qed

lemma ipv4_walk_intro:
  assumes "20 \<le> length ip" and "drop_bit 4 (ip ! 0) = 4" and "20 \<le> unat (ip ! 0 AND 0x0f) * 4"
    and "unat (ip ! 0 AND 0x0f) * 4 \<le> unat (be16 (ip ! 2) (ip ! 3))" and "unat (be16 (ip ! 2) (ip ! 3)) \<le> length ip"
  shows "ipv4_walk ip = Ok \<lparr>ipv4_header_length = unat (ip ! 0 AND 0x0f) * 4,
      ipv4_total_length = unat (be16 (ip ! 2) (ip ! 3)), ipv4_identification = be16 (ip ! 4) (ip ! 5),
      ipv4_flags_and_offset = be16 (ip ! 6) (ip ! 7), ipv4_protocol = ip ! 9\<rparr>"
  using assms by (simp add: ipv4_walk_def ipv4_walk_lengths_def first_chunk_def IPV4_MIN_LENGTH_def Let_def not_less)

text \<open>The rebuilt IPv4 datagram walks as a whole, unfragmented datagram of its own length.\<close>

lemma rebuilt_ipv4_walks:
  assumes ok: "ipv4_header_ok k h" and small: "length h + length pl < 65536"
  shows "\<exists>w. ipv4_walk (rebuilt (RecIpv4 (Some h) e) pl) = Ok w \<and> ipv4_header_length w = length h
    \<and> ipv4_total_length w = length (rebuilt (RecIpv4 (Some h) e) pl) \<and> \<not> ipv4_is_fragment w
    \<and> ipv4_identification w = v4_identification k \<and> ipv4_protocol w = v4_protocol k
    \<and> checksum_parts [take (length h) (rebuilt (RecIpv4 (Some h) e) pl)] = 0"
proof -
  let ?n = "length h + length pl"
  let ?h = "rewritten_ipv4 h e ?n"
  let ?d = "?h @ pl"
  have h: "20 \<le> length h" "drop_bit 4 (h ! 0) = 4" "unat (h ! 0 AND 0x0f) * 4 = length h"
      "be16 (h ! 4) (h ! 5) = v4_identification k" "h ! 9 = v4_protocol k"
    using ok by (auto simp: ipv4_header_ok_def)
  have len: "length ?h = length h"
    using h(1) by simp
  note f = rewritten_ipv4_fields [OF h(1) small, where e = e]
  have byte: "?d ! i = ?h ! i" if "i < 20" for i
    using that len h(1) by (simp add: nth_append)
  have same: "?d ! 0 = h ! 0" "?d ! 4 = h ! 4" "?d ! 5 = h ! 5" "?d ! 9 = h ! 9"
    using f(1) [of 0] f(1) [of 4] f(1) [of 5] f(1) [of 9] h(1) by (force simp: byte)+
  have total: "unat (be16 (?d ! 2) (?d ! 3)) = ?n" and flags: "be16 (?d ! 6) (?d ! 7) = be16 (h ! 6) (h ! 7) AND 0xc000"
    using f(2,4) by (simp_all add: byte)
  have nofrag: "(x AND 0xc000) AND 0x3fff = 0" for x :: u16
    by (simp add: and.assoc)
  have "ipv4_walk ?d = Ok \<lparr>ipv4_header_length = unat (?d ! 0 AND 0x0f) * 4,
      ipv4_total_length = unat (be16 (?d ! 2) (?d ! 3)), ipv4_identification = be16 (?d ! 4) (?d ! 5),
      ipv4_flags_and_offset = be16 (?d ! 6) (?d ! 7), ipv4_protocol = ?d ! 9\<rparr>"
    by (intro ipv4_walk_intro; (unfold same(1) total length_append len h(3))?; use h(1,2) in simp)
  then show ?thesis
    unfolding same total flags
    using h len rewritten_ipv4_verifies [of h e ?n] nofrag by (simp add: ipv4_is_fragment_def)
qed

lemma rebuilt_ipv4_addresses:
  assumes ok: "ipv4_header_ok k h" and small: "length h + length pl < 65536"
  shows "ipv4_of (slice_of (rebuilt (RecIpv4 (Some h) e) pl) 12 16) = v4_source k"
    and "ipv4_of (slice_of (rebuilt (RecIpv4 (Some h) e) pl) 16 20) = v4_destination k"
proof -
  let ?h = "rewritten_ipv4 h e (length h + length pl)"
  have h: "20 \<le> length h" "length ?h = length h"
      "ipv4_of [h ! 12, h ! 13, h ! 14, h ! 15] = v4_source k" "ipv4_of [h ! 16, h ! 17, h ! 18, h ! 19] = v4_destination k"
    using ok by (auto simp: ipv4_header_ok_def)
  have four: "slice_of (?h @ pl) i (i + 4) = [h ! i, h ! (i + 1), h ! (i + 2), h ! (i + 3)]" if "12 \<le> i" "i + 4 \<le> 20" for i
  proof (rule nth_equalityI)
    fix j
    assume "j < length (slice_of (?h @ pl) i (i + 4))"
    then have j: "j < 4"
      by (simp add: slice_of_def)
    then have "slice_of (?h @ pl) i (i + 4) ! j = h ! (i + j)"
      using rewritten_ipv4_fields(1) [OF h(1) small, of "i + j" e] that h(1,2) by (simp add: slice_of_def nth_append)
    moreover have "j = 0 \<or> j = 1 \<or> j = 2 \<or> j = 3"
      using j by presburger
    ultimately show "slice_of (?h @ pl) i (i + 4) ! j = [h ! i, h ! (i + 1), h ! (i + 2), h ! (i + 3)] ! j"
      by (elim disjE) simp_all
  qed (use that h(1,2) in \<open>simp add: slice_of_def\<close>)
  show "ipv4_of (slice_of (rebuilt (RecIpv4 (Some h) e) pl) 12 16) = v4_source k"
    and "ipv4_of (slice_of (rebuilt (RecIpv4 (Some h) e) pl) 16 20) = v4_destination k"
    using four [of 12] four [of 16] h(3,4) by simp_all
qed

end
