(* ===== verification/Fragment_Tiles.thy ===== *)
theory Fragment_Tiles
  imports Fragmenter Ip_Rebuild
begin

text \<open>
  What the fragmentation loops produce: frames that carry consecutive chunks of the payload behind the
  headers that one pass computes, within the two limits on the output.
\<close>

section \<open>Appending\<close>

definition min_frame_length :: "frame \<Rightarrow> nat" where
  "min_frame_length frame = (if fr_link_type frame = LINK_ETHERNET then 60 else 0)"

definition fragment_of :: "frame \<Rightarrow> usize \<Rightarrow> bytes \<Rightarrow> bytes \<Rightarrow> frame" where
  "fragment_of frame offset header chunk =
     (let content = take offset (fr_bytes frame) @ header @ chunk;
          padded = content @ replicate (min_frame_length frame - length content) 0 in
      frame\<lparr>fr_captured_length := of_nat (length padded), fr_original_length := of_nat (length padded), fr_bytes := padded\<rparr>)"

abbreviation total_bytes :: "frame list \<Rightarrow> nat" where
  "total_bytes fs \<equiv> (\<Sum>f\<leftarrow>fs. length (fr_bytes f))"

lemma append_fragment_Ok:
  assumes "append_fragment frame offset header chunk options (retained, output) = Ok acc"
  shows "acc = (retained + length (fr_bytes (fragment_of frame offset header chunk)),
      output @ [fragment_of frame offset header chunk])"
    and "length output < fo_max_fragments options"
    and "retained + length (fr_bytes (fragment_of frame offset header chunk)) \<le> fo_max_output_bytes options"
    and "frame_ok (fragment_of frame offset header chunk)"
proof -
  let ?n = "max (offset + length header + length chunk) (min_frame_length frame)"
  let ?bs = "take offset (fr_bytes frame) @ header @ chunk"
  let ?bytes = "?bs @ replicate (?n - length ?bs) 0"
  obtain new where room: "\<not> length output \<ge> fo_max_fragments options"
      "retained + ?n \<le> fo_max_output_bytes options" "offset \<le> length (fr_bytes frame)"
    and new: "frame_new None (fr_link_type frame) ?bytes = Ok new"
    and acc: "acc = (retained + ?n, output @ [new\<lparr>fr_timestamp := fr_timestamp frame,
        fr_interface := fr_interface frame, fr_direction := fr_direction frame\<rparr>])"
    using assms
    by (auto simp: append_fragment_def outcome_iff checked_iff Let_def min_frame_length_def slice_of_def
        bind_eq_Some_conv split: if_splits)
  have pad: "?bytes = fr_bytes (fragment_of frame offset header chunk)" "length ?bytes = ?n"
    using room(3) by (auto simp: fragment_of_def Let_def max_def)
  note new' = frame_new_Ok [OF new]
  have eq: "new\<lparr>fr_timestamp := fr_timestamp frame, fr_interface := fr_interface frame, fr_direction := fr_direction frame\<rparr>
      = fragment_of frame offset header chunk"
    unfolding new'(1) pad(1) by (simp add: fragment_of_def Let_def)
  show "frame_ok (fragment_of frame offset header chunk)"
    unfolding eq [symmetric] using new'(2) by (simp add: frame_ok_def)
  from eq show "acc = (retained + length (fr_bytes (fragment_of frame offset header chunk)),
      output @ [fragment_of frame offset header chunk])"
    and "retained + length (fr_bytes (fragment_of frame offset header chunk)) \<le> fo_max_output_bytes options"
    and "length output < fo_max_fragments options"
    using acc room pad by auto
qed

lemma frame_new_no_panic: "frame_new ts lt bs \<noteq> Panic"
  using frame_new_cases [of bs ts lt] by auto

lemma append_fragment_no_panic:
  "offset \<le> length (fr_bytes frame) \<Longrightarrow> append_fragment frame offset header chunk options acc \<noteq> Panic"
  by (cases acc) (auto simp: append_fragment_def outcome_iff checked_iff Let_def frame_new_no_panic)

section \<open>A run of a loop\<close>

inductive cut_run ::
    "(usize \<Rightarrow> (transform_error, bytes \<times> usize) outcome) \<Rightarrow> frame \<Rightarrow> usize \<Rightarrow> bytes \<Rightarrow> fragment_options
      \<Rightarrow> usize \<Rightarrow> usize \<times> frame list \<Rightarrow> frame list \<Rightarrow> bool"
  for step frame offset payload options where
  finish: "length payload \<le> position \<Longrightarrow> cut_run step frame offset payload options position acc (snd acc)"
| cut: "position < length payload \<Longrightarrow> step position = Ok (header, count) \<Longrightarrow> position + count \<le> length payload
    \<Longrightarrow> append_fragment frame offset header (slice_of payload position (position + count)) options acc = Ok acc'
    \<Longrightarrow> cut_run step frame offset payload options (position + count) acc' fs
    \<Longrightarrow> cut_run step frame offset payload options position acc fs"

lemma fragment_loop4_run:
  "fragment_loop4 frame offset ip hl copied identification flags payload options position acc = Ok fs
    \<Longrightarrow> cut_run (fragment_step4 ip hl copied identification flags (fo_mtu options) (length payload))
      frame offset payload options position acc fs"
proof (induction frame offset ip hl copied identification flags payload options position acc
    rule: fragment_loop4.induct)
  case (1 frame offset ip hl copied identification flags payload options position acc)
  show ?case
  proof (cases "position < length payload")
    case True
    then obtain header count chunk acc' where
      step: "fragment_step4 ip hl copied identification flags (fo_mtu options) (length payload) position
          = Ok (header, count)"
      and chunk: "get_range payload position (position + count) = Some chunk"
      and app: "append_fragment frame offset header chunk options acc = Ok acc'"
      and rest: "fragment_loop4 frame offset ip hl copied identification flags payload options (position + count)
          acc' = Ok fs"
      using 1(2) by (subst (asm) fragment_loop4.simps) (auto simp: outcome_iff)
    have "expect (get_range payload position (position + count)) = Ok chunk"
      by (simp add: chunk)
    from 1(1) [OF True step refl this app rest] show ?thesis
      using True step chunk app by (auto simp: checked_iff intro: cut_run.cut)
  next
    case False
    then show ?thesis
      using 1(2) by (subst (asm) fragment_loop4.simps) (auto intro: cut_run.finish)
  qed
qed

lemma fragment_loop6_run:
  "fragment_loop6 frame offset ip prefix_len prefix_next identification room payload options position acc = Ok fs
    \<Longrightarrow> cut_run (fragment_step6 ip prefix_len prefix_next identification room (length payload))
      frame offset payload options position acc fs"
proof (induction frame offset ip prefix_len prefix_next identification room payload options position acc
    rule: fragment_loop6.induct)
  case (1 frame offset ip prefix_len prefix_next identification room payload options position acc)
  show ?case
  proof (cases "position < length payload")
    case True
    then obtain header count chunk acc' where
      step: "fragment_step6 ip prefix_len prefix_next identification room (length payload) position = Ok (header, count)"
      and chunk: "get_range payload position (position + count) = Some chunk"
      and app: "append_fragment frame offset header chunk options acc = Ok acc'"
      and rest: "fragment_loop6 frame offset ip prefix_len prefix_next identification room payload options
          (position + count) acc' = Ok fs"
      using 1(2) by (subst (asm) fragment_loop6.simps) (auto simp: outcome_iff)
    have "expect (get_range payload position (position + count)) = Ok chunk"
      by (simp add: chunk)
    from 1(1) [OF True step refl this app rest] show ?thesis
      using True step chunk app by (auto simp: checked_iff intro: cut_run.cut)
  next
    case False
    then show ?thesis
      using 1(2) by (subst (asm) fragment_loop6.simps) (auto intro: cut_run.finish)
  qed
qed

text \<open>The frames after a position carry the rest of the payload, chunk by chunk.\<close>

fun tiled ::
    "(usize \<Rightarrow> (transform_error, bytes \<times> usize) outcome) \<Rightarrow> frame \<Rightarrow> usize \<Rightarrow> bytes \<Rightarrow> usize \<Rightarrow> frame list \<Rightarrow> bool" where
  "tiled step frame offset payload position [] \<longleftrightarrow> length payload \<le> position"
| "tiled step frame offset payload position (f # fs) \<longleftrightarrow> position < length payload
     \<and> (\<exists>header count. step position = Ok (header, count) \<and> position + count \<le> length payload
         \<and> f = fragment_of frame offset header (slice_of payload position (position + count))
         \<and> frame_ok f \<and> tiled step frame offset payload (position + count) fs)"

definition within_limits :: "fragment_options \<Rightarrow> frame list \<Rightarrow> bool" where
  "within_limits options fs \<longleftrightarrow> length fs \<le> fo_max_fragments options
     \<and> (fs \<noteq> [] \<longrightarrow> total_bytes fs \<le> fo_max_output_bytes options)"

lemma cut_run_tiled:
  assumes "cut_run step frame offset payload options position acc fs"
    and "fst acc = total_bytes (snd acc)" and "within_limits options (snd acc)"
  shows "within_limits options fs \<and> (\<exists>new. fs = snd acc @ new \<and> tiled step frame offset payload position new)"
  using assms
proof (induction rule: cut_run.induct)
  case (cut position header count acc acc' fs)
  obtain retained out where acc: "acc = (retained, out)"
    by fastforce
  note app = append_fragment_Ok [OF cut.hyps(4) [unfolded acc]]
  let ?f = "fragment_of frame offset header (slice_of payload position (position + count))"
  have "fst acc' = total_bytes (snd acc')" "within_limits options (snd acc')"
    using app(2,3) cut.prems unfolding app(1) by (auto simp: acc within_limits_def)
  with cut.IH obtain new where "within_limits options fs" "fs = snd acc' @ new"
      "tiled step frame offset payload (position + count) new"
    by blast
  then have "fs = snd acc @ ?f # new" "tiled step frame offset payload position (?f # new)"
    using cut.hyps(1-3) app(4) by (auto simp: app(1) acc)
  then show ?case
    using \<open>within_limits options fs\<close> by blast
qed auto

lemma cut_run_start:
  assumes "cut_run step frame offset payload options 0 (0, []) fs"
  shows "within_limits options fs" and "tiled step frame offset payload 0 fs"
  using cut_run_tiled [OF assms] by (auto simp: within_limits_def)

end
