(* ===== verification/Fragment_Headers.thy ===== *)
theory Fragment_Headers
  imports Fragment_Tiles
begin

text \<open>
  The headers the IPv4 fragments carry: how long the copied options are, which fields a pass writes,
  and that the walker reads the result back. The link header in front of a fragment is the original one.
\<close>

section \<open>Copied options\<close>

lemma copied_loop_Ok:
  "copied_loop ip c copied = Ok out \<Longrightarrow> cursor_at c \<le> length (cursor_bytes c)
    \<Longrightarrow> length out \<le> length copied + (length (cursor_bytes c) - cursor_at c)"
proof (induction ip c copied rule: copied_loop.induct)
  case (1 ip c copied)
  obtain item c' where nxt: "ipv4_options_next c = (item, c')"
    by fastforce
  show ?case
  proof (cases "\<exists>x. item = Some (Ok x)")
    case True
    then obtain x where x: "item = Some (Ok x)"
      by blast
    note it = ipv4_options_item [OF nxt [unfolded x]]
    have fits: "cursor_at c' \<le> length (cursor_bytes c')"
      using it(4,5) by simp
    show ?thesis
    proof (cases "option_kind x AND 0x80 \<noteq> 0")
      case copy: True
      then obtain range' where range': "expect (get_range ip (option_start x) (option_end x)) = (Ok range' :: (transform_error, _) outcome)"
        and rest: "copied_loop ip c' (copied @ range') = Ok out"
        using 1(3) by (subst (asm) copied_loop.simps) (auto simp: nxt x outcome_iff)
      have "length range' = cursor_at c' - cursor_at c"
        using range' it(1,2) by (auto simp: outcome_iff checked_iff)
      moreover have "length out \<le> length (copied @ range') + (length (cursor_bytes c') - cursor_at c')"
        using 1(1) [OF nxt [symmetric] x refl copy range' rest fits] .
      ultimately show ?thesis
        using it(3-5) by simp
    next
      case skip: False
      then have rest: "copied_loop ip c' copied = Ok out"
        using 1(3) by (subst (asm) copied_loop.simps) (auto simp: nxt x)
      show ?thesis
        using 1(2) [OF nxt [symmetric] x refl _ rest fits] skip it(3-5) by simp
    qed
  next
    case False
    then show ?thesis
      using 1(3) by (subst (asm) copied_loop.simps) (auto simp: nxt split: option.splits outcome.splits)
  qed
qed

lemma copied_loop_no_panic:
  "cursor_bytes c = take n ip \<Longrightarrow> copied_loop ip c copied \<noteq> Panic"
proof (induction ip c copied rule: copied_loop.induct)
  case (1 ip c copied)
  obtain item c' where nxt: "ipv4_options_next c = (item, c')"
    by fastforce
  have no: "item \<noteq> Some Panic"
    using nxt ipv4_options_no_panic by blast
  show ?case
  proof (cases "\<exists>x. item = Some (Ok x)")
    case True
    then obtain x where x: "item = Some (Ok x)"
      by blast
    note it = ipv4_options_item [OF nxt [unfolded x]]
    have same: "cursor_bytes c' = take n ip"
      using it(5) 1(3) by simp
    have "get_range ip (option_start x) (option_end x) \<noteq> None"
      using it 1(3) by (simp add: checked_iff)
    moreover have "copied_loop ip c' (copied @ r) \<noteq> Panic"
      if "option_kind x AND 0x80 \<noteq> 0" "expect (get_range ip (option_start x) (option_end x)) = (Ok r :: (transform_error, _) outcome)" for r
      using 1(1) [OF nxt [symmetric] x refl that same] .
    moreover have "copied_loop ip c' copied \<noteq> Panic" if "\<not> option_kind x AND 0x80 \<noteq> 0"
      using 1(2) [OF nxt [symmetric] x refl that same] .
    ultimately show ?thesis
      by (subst copied_loop.simps) (auto simp: nxt x outcome_iff)
  next
    case False
    then show ?thesis
      using no by (subst copied_loop.simps) (auto simp: nxt split: option.splits outcome.splits)
  qed
qed

lemma pad_word_length: "length (pad_word xs) mod 4 = 0 \<and> length (pad_word xs) < length xs + 4 \<and> take (length xs) (pad_word xs) = xs"
proof (induction xs rule: pad_word.induct)
  case (1 xs)
  show ?case
  proof (cases "length xs mod 4 = 0")
    case False
    with 1 have ih: "length (pad_word (xs @ [0])) mod 4 = 0" "length (pad_word (xs @ [0])) < length xs + 5"
        "take (Suc (length xs)) (pad_word (xs @ [0])) = xs @ [0]"
      by auto
    have "length (pad_word (xs @ [0])) \<noteq> length xs + 4"
      using ih(1) False by auto
    moreover have "take (length xs) (pad_word (xs @ [0])) = xs"
      using arg_cong [OF ih(3), of "take (length xs)"] by simp
    ultimately show ?thesis
      using False ih by (simp add: pad_word.simps [of xs])
  qed (simp add: pad_word.simps [of xs])
qed

lemma copied_options_length:
  assumes "copied_options ip h = Ok copied" and "ipv4_walk ip = Ok h"
  shows "length copied mod 4 = 0" and "20 + length copied \<le> ipv4_header_length h"
proof -
  note b = ipv4_walk_lengths_bounds [OF assms(2) [unfolded ipv4_walk_def]]
  obtain out where out: "copied_loop ip (ipv4_options h ip) [] = Ok out" and c: "copied = pad_word out"
    using assms(1) by (auto simp: copied_options_def outcome_iff)
  have "length out \<le> ipv4_header_length h - 20"
    using copied_loop_Ok [OF out] b by (simp add: ipv4_options_def IPV4_MIN_LENGTH_def)
  moreover have p: "length copied mod 4 = 0" "length copied < length out + 4"
    using pad_word_length [of out] unfolding c by simp_all
  ultimately show "length copied mod 4 = 0" and "20 + length copied \<le> ipv4_header_length h"
    using b(1,3) by presburger+
qed

section \<open>The written header\<close>

definition written_ipv4 :: "bytes \<Rightarrow> nat \<Rightarrow> u16 \<Rightarrow> u16 \<Rightarrow> bytes" where
  "written_ipv4 base len identification flags =
     (let c = copy_at (copy_at (copy_at base 2 (be_bytes 2 len)) 4 (be_bytes 2 (unat identification))) 6
            (be_bytes 2 (unat flags)) in
      copy_at c 10 (be_bytes 2 (unat (checksum_parts [copy_at c 10 [0, 0]]))))"

lemma written_ipv4_fields:
  fixes identification flags :: u16
  assumes "20 \<le> length base" and "len < 65536"
  defines "w \<equiv> written_ipv4 base len identification flags"
  shows "length w = length base" and "i < length base \<Longrightarrow> i \<notin> {2, 3, 4, 5, 6, 7, 10, 11} \<Longrightarrow> w ! i = base ! i"
    and "unat (be16 (w ! 2) (w ! 3)) = len" and "be16 (w ! 4) (w ! 5) = identification"
    and "be16 (w ! 6) (w ! 7) = flags" and "checksum_parts [w] = 0"
proof -
  define a where "a = copy_at base 2 (be_bytes 2 len)"
  define b where "b = copy_at a 4 (be_bytes 2 (unat identification))"
  define c where "c = copy_at b 6 (be_bytes 2 (unat flags))"
  define s where "s = checksum_parts [copy_at c 10 [0, 0]]"
  have w: "w = copy_at c 10 (be_bytes 2 (unat s))"
    by (simp add: w_def written_ipv4_def Let_def a_def b_def c_def s_def)
  have lens: "length a = length base" "length b = length base" "length c = length base"
    using assms(1) by (simp_all add: a_def b_def c_def)
  show lw: "length w = length base"
    using assms(1) lens by (simp add: w)
  have a: "a ! i = (if i = 2 then be_bytes 2 len ! 0 else if i = 3 then be_bytes 2 len ! 1 else base ! i)"
    if "i < length base" for i
    using that assms(1) by (auto simp: a_def nth_copy_at)
  have b: "b ! i = (if i = 4 then be_bytes 2 (unat identification) ! 0 else if i = 5 then be_bytes 2 (unat identification) ! 1 else a ! i)"
    if "i < length base" for i
    using that assms(1) lens by (auto simp: b_def nth_copy_at)
  have c: "c ! i = (if i = 6 then be_bytes 2 (unat flags) ! 0 else if i = 7 then be_bytes 2 (unat flags) ! 1 else b ! i)"
    if "i < length base" for i
    using that assms(1) lens by (auto simp: c_def nth_copy_at)
  have d: "w ! i = (if i = 10 \<or> i = 11 then be_bytes 2 (unat s) ! (i - 10) else c ! i)" if "i < length base" for i
    using that assms(1) lens unfolding w by (auto simp: nth_copy_at)
  show "i < length base \<Longrightarrow> i \<notin> {2, 3, 4, 5, 6, 7, 10, 11} \<Longrightarrow> w ! i = base ! i"
    by (simp add: a b c d)
  show "unat (be16 (w ! 2) (w ! 3)) = len"
    using be16_be_bytes [of "of_nat len :: u16"] assms(1,2) by (simp add: unat_of_nat a b c d)
  show "be16 (w ! 4) (w ! 5) = identification" "be16 (w ! 6) (w ! 7) = flags"
    using be16_be_bytes [of identification] be16_be_bytes [of flags] assms(1) by (simp_all add: a b c d)
  show "checksum_parts [w] = 0"
    unfolding w s_def using assms(1) lens by (intro checksum_written) simp
qed

text \<open>The bytes a fragment's header starts from.\<close>

definition base_ipv4_ok :: "bytes \<Rightarrow> bool" where
  "base_ipv4_ok base \<longleftrightarrow> 20 \<le> length base \<and> drop_bit 4 (base ! 0) = 4 \<and> unat (base ! 0 AND 0x0f) * 4 = length base"

lemma walk_written_ipv4:
  assumes "base_ipv4_ok base" and "length base + n < 65536" and "n \<le> length rest"
  shows "ipv4_walk (written_ipv4 base (length base + n) identification flags @ rest) =
    Ok \<lparr>ipv4_header_length = length base, ipv4_total_length = length base + n, ipv4_identification = identification,
        ipv4_flags_and_offset = flags, ipv4_protocol = base ! 9\<rparr>"
proof -
  let ?w = "written_ipv4 base (length base + n) identification flags"
  let ?d = "?w @ rest"
  have base: "20 \<le> length base" "drop_bit 4 (base ! 0) = 4" "unat (base ! 0 AND 0x0f) * 4 = length base"
    using assms(1) by (auto simp: base_ipv4_ok_def)
  note f = written_ipv4_fields [OF base(1) assms(2), where identification = identification and flags = flags]
  have byte: "?d ! i = ?w ! i" if "i < 20" for i
    using that f(1) base(1) by (simp add: nth_append)
  have zero: "(0 :: nat) < length base"
    using base(1) by linarith
  have same: "?d ! 0 = base ! 0" "?d ! 9 = base ! 9"
    using f(2) [of 0] f(2) [of 9] base(1) by (force simp: byte)+
  have rest: "unat (be16 (?d ! 2) (?d ! 3)) = length base + n" "be16 (?d ! 4) (?d ! 5) = identification"
      "be16 (?d ! 6) (?d ! 7) = flags"
    using f(3-5) by (simp_all add: byte)
  have "ipv4_walk ?d = Ok \<lparr>ipv4_header_length = unat (?d ! 0 AND 0x0f) * 4,
      ipv4_total_length = unat (be16 (?d ! 2) (?d ! 3)), ipv4_identification = be16 (?d ! 4) (?d ! 5),
      ipv4_flags_and_offset = be16 (?d ! 6) (?d ! 7), ipv4_protocol = ?d ! 9\<rparr>"
    by (intro ipv4_walk_intro; (unfold same(1) rest(1) length_append f(1) base(3))?; use base(1,2) assms(3) in simp)
  then show ?thesis
    unfolding same rest base(3) .
qed

end
