(* ===== verification/Fragment_Ipv4.thy ===== *)
theory Fragment_Ipv4
  imports Fragment_Headers
begin

text \<open>
  IPv4 fragmentation read back by the header walker: every fragment is a frame behind the original link
  header whose IPv4 header walks, verifies and places its chunk of the payload.
\<close>

section \<open>The link header in front\<close>

lemma length_ethernet_bytes: "ethernet_ok h \<Longrightarrow> length (ethernet_bytes h) = eth_payload_offset h"
  by (simp add: ethernet_ok_def ethernet_bytes_def eth_payload_offset_def ETHERNET_LENGTH_def VLAN_TAG_LENGTH_def
      length_concat_tag_bytes del: length_concat)

lemma link_walk_prefix:
  assumes "link_walk t bytes = Ok (Some link)"
  shows "network_offset link \<le> length bytes" and "link_walk t (take (network_offset link) bytes @ rest) = Ok (Some link)"
proof -
  have "network_offset link \<le> length bytes \<and> link_walk t (take (network_offset link) bytes @ rest) = Ok (Some link)"
  proof (cases "t = LINK_ETHERNET")
    case True
    then obtain h where link: "link = LinkEthernet h" and walk: "ethernet_walk bytes = Ok h"
      using assms by (auto simp: link_walk_def outcome_iff)
    then obtain tail where ok: "ethernet_ok h" and bytes: "bytes = ethernet_bytes h @ tail"
      by (auto simp: ethernet_walk_iff)
    have "take (network_offset link) bytes = ethernet_bytes h"
      using length_ethernet_bytes [OF ok] by (simp add: bytes link)
    moreover have "ethernet_walk (ethernet_bytes h @ rest) = Ok h"
      using ok by (auto simp: ethernet_walk_iff)
    ultimately show ?thesis
      using length_ethernet_bytes [OF ok] True by (simp add: link_walk_def bytes link)
  next
    case False
    then show ?thesis
      using assms by (auto simp: link_walk_def Let_def split: if_splits)
  qed
  then show "network_offset link \<le> length bytes" and "link_walk t (take (network_offset link) bytes @ rest) = Ok (Some link)"
    by blast+
qed

lemma ip_walk_v4: "ip_walk ip = Ok (IpV4 h) \<longleftrightarrow> ip \<noteq> [] \<and> drop_bit 4 (ip ! 0) = 4 \<and> ipv4_walk ip = Ok h"
  by (auto simp: ip_walk_def get_index_def outcome_iff Let_def)

lemma link_walk_ip_v4:
  "link_walk_ip link frame = Ok (Some (IpV4 h)) \<longleftrightarrow> carries_ip link \<and> network_offset link \<le> length frame
     \<and> announced_ip_version link \<in> {None, Some 4} \<and> ip_walk (drop (network_offset link) frame) = Ok (IpV4 h)"
proof (cases "ip_walk (drop (network_offset link) frame) = Ok (IpV4 h)")
  case True
  then have "get_index (drop (network_offset link) frame) 0 = Some (drop (network_offset link) frame ! 0)"
      "drop_bit 4 (drop (network_offset link) frame ! 0) = 4"
    by (auto simp: ip_walk_v4 get_index_def)
  with True show ?thesis
    by (cases "announced_ip_version link") (auto simp: link_walk_ip_def outcome_iff checked_iff get_index_def Let_def)
qed (auto simp: link_walk_ip_def outcome_iff checked_iff Let_def)

section \<open>Reading a frame\<close>

definition carries_ipv4 :: "link_header \<Rightarrow> frame \<Rightarrow> ipv4_header \<Rightarrow> bytes \<Rightarrow> bytes \<Rightarrow> bool" where
  "carries_ipv4 link f h header payload \<longleftrightarrow>
     link_walk (fr_link_type f) (fr_bytes f) = Ok (Some link) \<and> link_walk_ip link (fr_bytes f) = Ok (Some (IpV4 h))
     \<and> header = take (ipv4_header_length h) (drop (network_offset link) (fr_bytes f))
     \<and> payload = slice_of (drop (network_offset link) (fr_bytes f)) (ipv4_header_length h) (ipv4_total_length h)"

lemma fragment_carries_ipv4:
  assumes "carries_ipv4 link frame h header payload" and "base_ipv4_ok base" and "length base + length chunk < 65536"
  shows "carries_ipv4 link
      (fragment_of frame (network_offset link) (written_ipv4 base (length base + length chunk) identification flags) chunk)
      \<lparr>ipv4_header_length = length base, ipv4_total_length = length base + length chunk,
        ipv4_identification = identification, ipv4_flags_and_offset = flags, ipv4_protocol = base ! 9\<rparr>
      (written_ipv4 base (length base + length chunk) identification flags) chunk"
proof -
  let ?w = "written_ipv4 base (length base + length chunk) identification flags"
  let ?off = "network_offset link"
  have orig: "link_walk (fr_link_type frame) (fr_bytes frame) = Ok (Some link)"
      "link_walk_ip link (fr_bytes frame) = Ok (Some (IpV4 h))"
    using assms(1) by (auto simp: carries_ipv4_def)
  have base: "20 \<le> length base" "drop_bit 4 (base ! 0) = 4"
    using assms(2) by (auto simp: base_ipv4_ok_def)
  note w = written_ipv4_fields [OF base(1) assms(3), where identification = identification and flags = flags]
  have w0: "?w ! 0 = base ! 0"
    by (rule w(2)) (use base(1) in auto)
  define pad where "pad = replicate (min_frame_length frame - length (take ?off (fr_bytes frame) @ ?w @ chunk)) (0 :: u8)"
  have bytes: "fr_bytes (fragment_of frame ?off ?w chunk) = take ?off (fr_bytes frame) @ ?w @ chunk @ pad"
    by (simp add: fragment_of_def Let_def pad_def)
  have off: "?off \<le> length (fr_bytes frame)"
    using link_walk_prefix(1) [OF orig(1)] .
  have tail: "drop ?off (fr_bytes (fragment_of frame ?off ?w chunk)) = ?w @ chunk @ pad"
    using off by (simp add: bytes)
  have walk: "ipv4_walk (?w @ chunk @ pad) = Ok \<lparr>ipv4_header_length = length base,
      ipv4_total_length = length base + length chunk, ipv4_identification = identification,
      ipv4_flags_and_offset = flags, ipv4_protocol = base ! 9\<rparr>"
    using assms(2,3) by (intro walk_written_ipv4) simp_all
  have ne: "?w \<noteq> []" "drop_bit 4 ((?w @ chunk @ pad) ! 0) = 4"
    using w(1) base w0 by (auto simp: nth_append)
  have "link_walk_ip link (fr_bytes (fragment_of frame ?off ?w chunk)) = Ok (Some (IpV4
      \<lparr>ipv4_header_length = length base, ipv4_total_length = length base + length chunk,
        ipv4_identification = identification, ipv4_flags_and_offset = flags, ipv4_protocol = base ! 9\<rparr>))"
    unfolding link_walk_ip_v4 tail ip_walk_v4 using orig(2) off ne walk by (simp add: link_walk_ip_v4 bytes)
  moreover have "link_walk (fr_link_type (fragment_of frame ?off ?w chunk)) (fr_bytes (fragment_of frame ?off ?w chunk)) = Ok (Some link)"
    using link_walk_prefix(2) [OF orig(1)] by (simp add: bytes) (simp add: fragment_of_def Let_def)
  ultimately show ?thesis
    unfolding carries_ipv4_def tail using w(1) by (simp add: slice_of_def)
qed

section \<open>The flags word\<close>

definition fragment_word :: "bool \<Rightarrow> nat \<Rightarrow> u16" where
  "fragment_word m position = push_bit 13 (if m then 1 else 0) OR of_nat (position div 8)"

lemma small_word:
  assumes "k < 8192"
  shows "(of_nat k :: u16) AND 0x1fff = of_nat k" and "(of_nat k :: u16) AND 0x2000 = 0" and "(of_nat k :: u16) AND 0xc000 = 0"
proof -
  have "take_bit 13 (of_nat k :: u16) = of_nat k"
    using assms by (simp add: take_bit_of_nat take_bit_nat_eq_self)
  moreover have "(0x1fff :: u16) = mask 13"
    by (simp add: mask_eq_exp_minus_1)
  ultimately show eq: "(of_nat k :: u16) AND 0x1fff = of_nat k"
    by (simp add: take_bit_eq_mask)
  show "(of_nat k :: u16) AND 0x2000 = 0" and "(of_nat k :: u16) AND 0xc000 = 0"
    by (subst eq [symmetric], subst and.assoc, simp)+
qed

lemma fragment_word_fields:
  assumes "position < 65536"
  shows "fragment_word m position AND 0x1fff = of_nat (position div 8)"
    and "fragment_word m position AND 0x2000 \<noteq> 0 \<longleftrightarrow> m" and "fragment_word m position AND 0xc000 = 0"
proof -
  have k: "position div 8 < 8192"
    using assms by simp
  note s = small_word [OF k]
  show "fragment_word m position AND 0x1fff = of_nat (position div 8)"
    and "fragment_word m position AND 0x2000 \<noteq> 0 \<longleftrightarrow> m" and "fragment_word m position AND 0xc000 = 0"
    unfolding fragment_word_def bit.conj_disj_distrib2 s by simp_all
qed

section \<open>One pass\<close>

lemma first_byte:
  assumes "5 \<le> k" and "k \<le> 15"
  shows "drop_bit 4 (0x40 OR of_nat k :: u8) = 4" and "unat ((0x40 OR of_nat k :: u8) AND 0x0f) = k"
proof -
  have "k = 5 \<or> k = 6 \<or> k = 7 \<or> k = 8 \<or> k = 9 \<or> k = 10 \<or> k = 11 \<or> k = 12 \<or> k = 13 \<or> k = 14 \<or> k = 15"
    using assms by presburger
  then show "drop_bit 4 (0x40 OR of_nat k :: u8) = 4" and "unat ((0x40 OR of_nat k :: u8) AND 0x0f) = k"
    by (elim disjE; simp)+
qed

lemma fragment_header4_base:
  assumes "fragment_header4 ip (ipv4_header_length h) copied position = Ok base" and "ipv4_walk ip = Ok h"
    and "length copied mod 4 = 0" and "20 + length copied \<le> ipv4_header_length h"
  shows "base_ipv4_ok base" and "length base \<le> ipv4_header_length h"
    and "1 \<le> i \<Longrightarrow> i < 20 \<Longrightarrow> base ! i = ip ! i" and "position = 0 \<Longrightarrow> base = take (ipv4_header_length h) ip"
proof -
  note b = ipv4_walk_lengths_bounds [OF assms(2) [unfolded ipv4_walk_def]]
    and f = ipv4_walk_lengths_fields [OF assms(2) [unfolded ipv4_walk_def]]
  show whole: "position = 0 \<Longrightarrow> base = take (ipv4_header_length h) ip"
    using assms(1) by (auto simp: fragment_header4_def outcome_iff checked_iff slice_of_def)
  have "base_ipv4_ok base \<and> length base \<le> ipv4_header_length h \<and> (1 \<le> i \<longrightarrow> i < 20 \<longrightarrow> base ! i = ip ! i)"
  proof (cases "position = 0")
    case True
    then show ?thesis
      using whole b(1,6) f(1,2) by (auto simp: base_ipv4_ok_def)
  next
    case False
    let ?k = "(20 + length copied) div 4"
    have base: "base = (take 20 ip @ copied)[0 := 0x40 OR of_nat ?k]"
      using assms(1) False b(1,6)
      by (auto simp: fragment_header4_def outcome_iff checked_iff slice_of_def IPV4_MIN_LENGTH_def Let_def)
    have len: "length base = 20 + length copied"
      using b(1,6) by (simp add: base)
    have k: "5 \<le> ?k" "?k \<le> 15" "?k * 4 = 20 + length copied"
      using assms(3,4) b(2) by presburger+
    have "base ! 0 = 0x40 OR of_nat ?k"
      using b(1,6) unfolding base by (subst nth_list_update_eq) simp_all
    moreover have "1 \<le> i \<longrightarrow> i < 20 \<longrightarrow> base ! i = ip ! i"
      using b(1,6) by (simp add: base nth_append)
    ultimately show ?thesis
      using first_byte [OF k(1,2)] k(3) len assms(4) by (simp add: base_ipv4_ok_def)
  qed
  then show "base_ipv4_ok base" and "length base \<le> ipv4_header_length h"
    and "1 \<le> i \<Longrightarrow> i < 20 \<Longrightarrow> base ! i = ip ! i"
    by blast+
qed

lemma fragment_step4_Ok:
  assumes "fragment_step4 ip hl copied identification flags mtu n position = Ok (header, count)"
  obtains base where "fragment_header4 ip hl copied position = Ok base" and "length base \<le> mtu"
    and "payload_count (mtu - length base) (n - position) = Ok count" and "length base + count < 65536"
    and "header = written_ipv4 base (length base + count) identification
      ((flags AND 0x8000) OR fragment_word (position + count < n) position)"
proof -
  obtain base room len a b c d where base: "fragment_header4 ip hl copied position = Ok base"
    and room: "checked_sub mtu (length base) = Some room" and count: "payload_count room (n - position) = Ok count"
    and len: "u16_try_from (length base + count) = Some len"
    and a: "write_range base 2 (be_bytes 2 (unat len)) = Some a"
    and b: "write_range a 4 (be_bytes 2 (unat identification)) = Some b"
    and c: "write_range b 6 (be_bytes 2 (unat ((flags AND 0x8000) OR fragment_word (position + count < n) position))) = Some c"
    and d: "write_range c 10 [0, 0] = Some d"
    and header: "write_range d 10 (be_bytes 2 (unat (checksum_parts [d]))) = Some header"
    using assms unfolding fragment_step4_def Let_def let_ok_Ok_iff ok_or_iff expect_iff fragment_word_def or.assoc
    by auto
  have small: "length base + count < 65536" "be_bytes 2 (unat len) = be_bytes 2 (length base + count)"
    using len of_nat_u16_bytes [of "length base + count"] by (auto simp: u16_try_from_def split: if_splits)
  have fits: "12 \<le> length c"
    using d by (simp add: checked_iff)
  have "header = copy_at c 10 (be_bytes 2 (unat (checksum_parts [copy_at c 10 [0, 0]])))"
    using d header fits by (simp add: checked_iff copy_at_twice)
  then have "header = written_ipv4 base (length base + count) identification
      ((flags AND 0x8000) OR fragment_word (position + count < n) position)"
    using a b c by (simp add: checked_iff written_ipv4_def Let_def small(2))
  with base room count small(1) show thesis
    by (intro that) (auto simp: checked_iff)
qed

end
