(* ===== verification/Fragment_Parts.thy ===== *)
theory Fragment_Parts
  imports Fragment_Ipv4
begin

text \<open>
  The parts of a fragmented IPv4 datagram as the walker reads them: the header fields, the header bytes
  and the payload of each fragment, in order.
\<close>

type_synonym ipv4_part = "ipv4_header \<times> bytes \<times> bytes"

abbreviation part_header :: "ipv4_part \<Rightarrow> ipv4_header" where
  "part_header p \<equiv> fst p"

abbreviation part_bytes :: "ipv4_part \<Rightarrow> bytes" where
  "part_bytes p \<equiv> fst (snd p)"

abbreviation part_payload :: "ipv4_part \<Rightarrow> bytes" where
  "part_payload p \<equiv> snd (snd p)"

definition part_offset :: "ipv4_part \<Rightarrow> nat" where
  "part_offset p = 8 * unat (ipv4_flags_and_offset (part_header p) AND 0x1fff)"

definition part_more :: "ipv4_part \<Rightarrow> bool" where
  "part_more p \<longleftrightarrow> ipv4_flags_and_offset (part_header p) AND 0x2000 \<noteq> 0"

section \<open>One part\<close>

definition tile4 :: "usize \<Rightarrow> bytes \<Rightarrow> u16 \<Rightarrow> nat \<Rightarrow> nat \<Rightarrow> ipv4_part \<Rightarrow> bool" where
  "tile4 mtu header identification n position p \<longleftrightarrow>
     (\<exists>base. base_ipv4_ok base \<and> length base \<le> length header \<and> (\<forall>i\<in>{1..<20}. base ! i = header ! i)
        \<and> (position = 0 \<longrightarrow> base = header) \<and> part_payload p \<noteq> [] \<and> position + length (part_payload p) \<le> n
        \<and> (position + length (part_payload p) < n \<longrightarrow> length (part_payload p) mod 8 = 0)
        \<and> length base + length (part_payload p) \<le> mtu \<and> length base + length (part_payload p) < 65536
        \<and> part_bytes p = written_ipv4 base (length base + length (part_payload p)) identification
             (fragment_word (position + length (part_payload p) < n) position)
        \<and> part_header p = \<lparr>ipv4_header_length = length base, ipv4_total_length = length base + length (part_payload p),
             ipv4_identification = identification,
             ipv4_flags_and_offset = fragment_word (position + length (part_payload p) < n) position,
             ipv4_protocol = base ! 9\<rparr>)"

fun tiles4 :: "usize \<Rightarrow> bytes \<Rightarrow> u16 \<Rightarrow> nat \<Rightarrow> nat \<Rightarrow> ipv4_part list \<Rightarrow> bool" where
  "tiles4 mtu header identification n position [] \<longleftrightarrow> position = n"
| "tiles4 mtu header identification n position (p # ps) \<longleftrightarrow> tile4 mtu header identification n position p
     \<and> tiles4 mtu header identification n (position + length (part_payload p)) ps"

abbreviation part_of :: "link_header \<Rightarrow> frame \<Rightarrow> ipv4_part \<Rightarrow> bool" where
  "part_of link f p \<equiv> carries_ipv4 link f (part_header p) (part_bytes p) (part_payload p)"

lemma carries_ipv4_bytes:
  assumes "carries_ipv4 link f h header payload"
  shows "ipv4_walk (drop (network_offset link) (fr_bytes f)) = Ok h" and "length header = ipv4_header_length h"
    and "length payload = ipv4_total_length h - ipv4_header_length h"
    and "base_ipv4_ok header" and "i < length header \<Longrightarrow> header ! i = drop (network_offset link) (fr_bytes f) ! i"
    and "header @ payload = take (ipv4_total_length h) (drop (network_offset link) (fr_bytes f))"
proof -
  let ?ip = "drop (network_offset link) (fr_bytes f)"
  have parts: "header = take (ipv4_header_length h) ?ip" "payload = slice_of ?ip (ipv4_header_length h) (ipv4_total_length h)"
    using assms by (auto simp: carries_ipv4_def)
  show walk: "ipv4_walk ?ip = Ok h"
    using assms by (simp add: carries_ipv4_def link_walk_ip_v4 ip_walk_v4)
  note b = ipv4_walk_lengths_bounds [OF walk [unfolded ipv4_walk_def]]
    and fl = ipv4_walk_lengths_fields [OF walk [unfolded ipv4_walk_def]]
  show len: "length header = ipv4_header_length h"
    using b(6) by (simp add: parts)
  show "length payload = ipv4_total_length h - ipv4_header_length h"
    using b(4,7) by (simp add: parts)
  show same: "i < length header \<Longrightarrow> header ! i = ?ip ! i" for i
    using len by (simp add: parts(1))
  have "header ! 0 = ?ip ! 0"
    using b(1) len by (intro same) linarith
  then show "base_ipv4_ok header"
    using b(1) fl(1,2) len by (simp add: base_ipv4_ok_def)
  show "header @ payload = take (ipv4_total_length h) ?ip"
    using slice_of_append_slice [of 0 "ipv4_header_length h" "ipv4_total_length h" ?ip] b(4)
    by (simp add: parts) (simp add: slice_of_def)
qed

lemma step_tile4:
  assumes car: "carries_ipv4 link frame h header payload"
    and copied: "length copied mod 4 = 0" "20 + length copied \<le> ipv4_header_length h"
    and plain: "ipv4_flags_and_offset h AND 0x8000 = 0"
    and step: "fragment_step4 (drop (network_offset link) (fr_bytes frame)) (ipv4_header_length h) copied identification
      (ipv4_flags_and_offset h) mtu (length payload) position = Ok (bytes, count)"
    and at: "position < length payload" and chunk: "chunk = slice_of payload position (position + count)"
  obtains p where "part_of link (fragment_of frame (network_offset link) bytes chunk) p"
    and "tile4 mtu header identification (length payload) position p" and "part_payload p = chunk"
    and "length chunk = count"
proof -
  let ?ip = "drop (network_offset link) (fr_bytes frame)"
  note orig = carries_ipv4_bytes [OF car]
  obtain base where base: "fragment_header4 ?ip (ipv4_header_length h) copied position = Ok base" "length base \<le> mtu"
    and count: "payload_count (mtu - length base) (length payload - position) = Ok count"
    and small: "length base + count < 65536"
    and bytes: "bytes = written_ipv4 base (length base + count) identification (fragment_word (position + count < length payload) position)"
    using step by (elim fragment_step4_Ok) (simp add: plain)
  note b = fragment_header4_base [OF base(1) orig(1) copied] and n = payload_count_Ok [OF count]
  have len: "length chunk = count"
    using n(3) at by (simp add: chunk)
  have ne: "chunk \<noteq> []"
    using len n(1) by auto
  have zero: "position = 0 \<Longrightarrow> base = header"
    using b(4) car by (simp add: carries_ipv4_def)
  have hl: "20 \<le> length header"
    using orig(4) by (simp add: base_ipv4_ok_def)
  let ?p = "(\<lparr>ipv4_header_length = length base, ipv4_total_length = length base + length chunk,
      ipv4_identification = identification, ipv4_flags_and_offset = fragment_word (position + count < length payload) position,
      ipv4_protocol = base ! 9\<rparr>, bytes, chunk)"
  have part: "part_of link (fragment_of frame (network_offset link) bytes chunk) ?p"
    using fragment_carries_ipv4 [OF car b(1), of chunk] small unfolding bytes by (simp add: len)
  have same: "\<forall>i\<in>{1..<20}. base ! i = header ! i"
    using b(3) orig(5) hl by simp
  have aligned: "position + count < length payload \<longrightarrow> count mod 8 = 0"
    using n(4) by auto
  have "tile4 mtu header identification (length payload) position ?p"
    unfolding tile4_def
    by (rule exI [of _ base]) (use b(1,2) same zero ne n(1-3) aligned base(2) small bytes orig(2) at in \<open>auto simp: len\<close>)
  with part show thesis
    by (intro that [of ?p]) (simp_all add: len)
qed

lemma tiled_tiles4:
  assumes car: "carries_ipv4 link frame h header payload"
    and copied: "length copied mod 4 = 0" "20 + length copied \<le> ipv4_header_length h"
    and plain: "ipv4_flags_and_offset h AND 0x8000 = 0"
  shows "tiled (fragment_step4 (drop (network_offset link) (fr_bytes frame)) (ipv4_header_length h) copied identification
      (ipv4_flags_and_offset h) mtu (length payload)) frame (network_offset link) payload position fs
    \<Longrightarrow> position \<le> length payload
    \<Longrightarrow> \<exists>ps. list_all2 (part_of link) fs ps \<and> tiles4 mtu header identification (length payload) position ps
      \<and> concat (map part_payload ps) = drop position payload"
proof (induction fs arbitrary: position)
  case (Cons f fs)
  let ?off = "network_offset link"
  obtain bytes count where step: "fragment_step4 (drop ?off (fr_bytes frame)) (ipv4_header_length h) copied identification
      (ipv4_flags_and_offset h) mtu (length payload) position = Ok (bytes, count)"
    and at: "position < length payload" "position + count \<le> length payload"
    and f: "f = fragment_of frame ?off bytes (slice_of payload position (position + count))"
    and rest: "tiled (fragment_step4 (drop ?off (fr_bytes frame)) (ipv4_header_length h) copied identification
      (ipv4_flags_and_offset h) mtu (length payload)) frame ?off payload (position + count) fs"
    using Cons.prems(1) by auto
  obtain p where p: "part_of link f p" "tile4 mtu header identification (length payload) position p"
      "part_payload p = slice_of payload position (position + count)" "length (part_payload p) = count"
    using step_tile4 [OF car copied plain step at(1) refl] f by metis
  from Cons.IH [OF rest at(2)] obtain ps where ps: "list_all2 (part_of link) fs ps"
      "tiles4 mtu header identification (length payload) (position + count) ps"
      "concat (map part_payload ps) = drop (position + count) payload"
    by blast
  have "slice_of payload position (position + count) @ drop (position + count) payload = drop position payload"
    by (simp add: slice_of_def take_drop_rest)
  then show ?case
    using p ps by (intro exI [of _ "p # ps"]) simp
qed simp

end
