(* ===== verification/Fragment_Frames.thy ===== *)
theory Fragment_Frames
  imports Fragment_Parts
begin

text \<open>
  The two families of \<open>fragment\<close> never panic: every slice they take lies inside the walked datagram.
\<close>

section \<open>No panic\<close>

lemma let_ok_no_panic: "m \<noteq> Panic \<Longrightarrow> (\<And>a. m = Ok a \<Longrightarrow> f a \<noteq> Panic) \<Longrightarrow> let_ok m f \<noteq> Panic"
  by (cases m) auto

lemma payload_count_no_panic: "payload_count room remaining \<noteq> Panic"
  by (simp add: payload_count_def outcome_iff Let_def)

lemma fragment_header4_length:
  assumes "20 \<le> hl" and "hl \<le> length ip"
  shows "fragment_header4 ip hl copied position \<noteq> Panic"
    and "fragment_header4 ip hl copied position = Ok base \<Longrightarrow> 20 \<le> length base"
proof -
  have "get_range ip 0 hl = Some (take hl ip)" "get_range ip 0 IPV4_MIN_LENGTH = Some (take 20 ip)"
      "get_index (take 20 ip @ copied) 0 = Some ((take 20 ip @ copied) ! 0)"
    using assms by (simp_all add: get_range_def get_index_def slice_of_def IPV4_MIN_LENGTH_def)
  then have "fragment_header4 ip hl copied position = Ok (if position = 0 then take hl ip
      else (take 20 ip @ copied)[0 := 0x40 OR of_nat (length (take 20 ip @ copied) div 4)])"
    by (simp add: fragment_header4_def Let_def)
  then show "fragment_header4 ip hl copied position \<noteq> Panic"
    and "fragment_header4 ip hl copied position = Ok base \<Longrightarrow> 20 \<le> length base"
    using assms by (auto split: if_splits)
qed

lemma fragment_step4_no_panic:
  assumes "20 \<le> hl" and "hl \<le> length ip"
  shows "fragment_step4 ip hl copied identification flags mtu n position \<noteq> Panic"
  unfolding fragment_step4_def Let_def
  by (intro let_ok_no_panic; (drule fragment_header4_length(2) [OF assms])?;
      simp add: fragment_header4_length(1) [OF assms] payload_count_no_panic outcome_iff checked_iff)

lemma fragment_loop4_no_panic:
  assumes "20 \<le> hl" and "hl \<le> length ip" and "offset \<le> length (fr_bytes frame)"
  shows "fragment_loop4 frame offset ip hl copied identification flags payload options position acc \<noteq> Panic"
  using assms
proof (induction frame offset ip hl copied identification flags payload options position acc rule: fragment_loop4.induct)
  case (1 frame offset ip hl copied identification flags payload options position acc)
  let ?step = "fragment_step4 ip hl copied identification flags (fo_mtu options) (length payload) position"
  have chunk: "get_range payload position (position + count) \<noteq> None"
    if step: "?step = Ok (header, count)" and "position < length payload" for header count
  proof -
    obtain base :: bytes where "payload_count (fo_mtu options - length base) (length payload - position) = Ok count"
      by (rule fragment_step4_Ok [OF step]) blast
    from payload_count_Ok(3) [OF this] show ?thesis
      using that(2) by (simp add: checked_iff)
  qed
  show ?case
  proof (cases "position < length payload")
    case True
    have "fragment_loop4 frame offset ip hl copied identification flags payload options (position + count) acc' \<noteq> Panic"
      if "?step = Ok (header, count)" "expect (get_range payload position (position + count)) = (Ok bytes :: (transform_error, _) outcome)"
        "append_fragment frame offset header bytes options acc = Ok acc'" for header count bytes acc'
      using 1(1) [OF True that(1) refl that(2,3) 1(2-4)] .
    then have "let_ok (expect (get_range payload position (position + count))) (\<lambda>bytes.
        let_ok (append_fragment frame offset header bytes options acc) (\<lambda>acc'.
        fragment_loop4 frame offset ip hl copied identification flags payload options (position + count) acc')) \<noteq> Panic"
      if "?step = Ok (header, count)" for header count
      using chunk [OF that True] append_fragment_no_panic [OF 1(4)] that
      by (intro let_ok_no_panic) (simp_all add: outcome_iff)
    then show ?thesis
      unfolding fragment_loop4.simps [of frame offset ip hl copied identification flags payload options position acc] if_P [OF True]
      using fragment_step4_no_panic [OF 1(2,3)] by (intro let_ok_no_panic) auto
  qed (simp add: fragment_loop4.simps [of frame offset ip hl copied identification flags payload options position acc])
qed

lemma fragment_ipv4_no_panic:
  assumes "ipv4_walk ip = Ok h" and "offset \<le> length (fr_bytes frame)"
  shows "fragment_ipv4 frame offset ip h options \<noteq> Panic"
proof -
  note b = ipv4_walk_lengths_bounds [OF assms(1) [unfolded ipv4_walk_def]]
  have copied: "copied_options ip h \<noteq> Panic"
    using copied_loop_no_panic [of "ipv4_options h ip"] by (simp add: copied_options_def outcome_iff ipv4_options_def)
  have loop: "fragment_loop4 frame offset ip (ipv4_header_length h) copied identification flags payload options position acc \<noteq> Panic"
    for copied identification flags payload position acc
    using b(1,6) assms(2) by (rule fragment_loop4_no_panic)
  show ?thesis
    using b(4,6,7) copied loop
    by (auto simp: fragment_ipv4_def outcome_iff checked_iff unchanged_def Let_def split: option.splits)
qed

lemma linked_inside:
  "linked p off es q stop \<Longrightarrow> e \<in> set es \<Longrightarrow> off \<le> ext_offset e \<and> ext_end e \<le> stop"
proof (induction es arbitrary: p off e)
  case (Cons x es)
  then have link: "ext_offset x = off" "linked (ext_next_header x) (ext_end x) es q stop"
    by simp_all
  have "ext_end x \<le> stop"
    using link(2)
  proof (cases "es = []")
    case False
    then have "hd es \<in> set es" "ext_offset (hd es) = ext_end x"
      using link(2) by (cases es; simp)+
    with Cons.IH [OF link(2), of "hd es"] show ?thesis
      by (simp add: ext_end_def)
  qed simp
  moreover have "off \<le> ext_end x"
    using link(1) by (simp add: ext_end_def)
  ultimately show ?case
    using Cons.IH [OF link(2), of e] Cons.prems(2) link(1) by auto
qed simp

lemma unfragmentable_found:
  assumes "unfragmentable index es found = Ok (pl, pn)"
  shows "(pl, pn) = found \<or> (\<exists>e\<in>set es. pl = ext_end e \<and> pn = ext_offset e)"
  using assms
proof (induction es arbitrary: index found)
  case (Cons e es)
  then obtain found' where rest: "unfragmentable (index + 1) es found' = Ok (pl, pn)"
      and found': "found' = found \<or> found' = (ext_end e, ext_offset e)"
    by (auto split: if_splits)
  from Cons.IH [OF rest] found' show ?case
    by auto
qed simp

lemma unfragmentable_no_panic: "unfragmentable index es found \<noteq> Panic"
  by (induction index es found rule: unfragmentable.induct) auto

text \<open>Where the unfragmentable part of a walked datagram ends.\<close>

lemma ipv6_prefix_bounds:
  assumes "ipv6_walk ip = Ok h" and "unfragmentable 0 (ipv6_extensions h) (IPV6_LENGTH, 6) = Ok (pl, pn)"
  shows "40 \<le> pl" and "pn < pl" and "pl \<le> snd (ipv6_upper_layer h)" and "snd (ipv6_upper_layer h) \<le> ipv6_datagram_length h"
    and "ipv6_datagram_length h \<le> length ip"
proof -
  obtain n p where len: "40 + n \<le> length ip" and chain: "ipv6_walk_chain (take (40 + n) ip) n p = Ok h"
    using assms(1) by (auto simp: ipv6_walk_Ok IPV6_LENGTH_def)
  note w = ipv6_walk_chain_walked [OF chain]
  have ext: "8 \<le> ext_length e" "ext_end e \<le> 40 + n" if "e \<in> set (ipv6_extensions h)" for e
    using w(5) that len by (auto simp: extension_in_def)
  have up: "40 \<le> ipv6_upper_layer_offset h" "ipv6_upper_layer_offset h \<le> 40 + n"
    using linked_end [OF w(3)] ext [of "last (ipv6_extensions h)"] linked_inside [OF w(3), of "last (ipv6_extensions h)"]
    by (cases "ipv6_extensions h = []"; auto simp: IPV6_LENGTH_def ext_end_def)+
  have "40 \<le> pl \<and> pn < pl \<and> pl \<le> ipv6_upper_layer_offset h"
    using unfragmentable_found [OF assms(2)]
  proof
    assume "(pl, pn) = (IPV6_LENGTH, 6)"
    then show ?thesis
      using up by (simp add: IPV6_LENGTH_def)
  next
    assume "\<exists>e\<in>set (ipv6_extensions h). pl = ext_end e \<and> pn = ext_offset e"
    then obtain e where e: "e \<in> set (ipv6_extensions h)" "pl = ext_end e" "pn = ext_offset e"
      by blast
    then show ?thesis
      using linked_inside [OF w(3) e(1)] ext(1) [OF e(1)] by (auto simp: IPV6_LENGTH_def ext_end_def)
  qed
  then show "40 \<le> pl" and "pn < pl" and "pl \<le> snd (ipv6_upper_layer h)" and "snd (ipv6_upper_layer h) \<le> ipv6_datagram_length h"
    and "ipv6_datagram_length h \<le> length ip"
    using up w(1) len by (simp_all add: ipv6_upper_layer_def ipv6_datagram_length_def IPV6_LENGTH_def)
qed

lemma fragment_step6_no_panic:
  assumes "40 \<le> pl" and "pn < pl" and "pl \<le> length ip"
  shows "fragment_step6 ip pl pn identification room n position \<noteq> Panic"
  unfolding fragment_step6_def Let_def
  by (intro let_ok_no_panic; use assms in \<open>simp add: payload_count_no_panic outcome_iff checked_iff\<close>)

lemma fragment_step6_Ok:
  assumes "fragment_step6 ip pl pn identification room n position = Ok (header, count)"
  shows "payload_count room (n - position) = Ok count" and "pn < pl" and "pl \<le> length ip" and "40 \<le> pl"
    and "pl - 40 + 8 + count < 65536"
    and "header = copy_at ((take pl ip)[pn := FRAGMENT]) 4 (be_bytes 2 (pl - 40 + 8 + count))
      @ [take pl ip ! pn, 0] @ be_bytes 2 (unat ((of_nat position AND 0xfff8) OR (if position + count < n then 1 else 0) :: u16))
      @ be_bytes 4 (unat identification)"
proof -
  obtain base nh ext len a where count: "payload_count room (n - position) = Ok count"
    and base: "get_range ip 0 pl = Some base" and nh: "get_index base pn = Some nh"
    and ext: "minus_or_panic pl 40 = (Ok ext :: (transform_error, _) outcome)"
    and len: "u16_try_from (ext + 8 + count) = Some len"
    and a: "write_range (base[pn := FRAGMENT]) 4 (be_bytes 2 (unat len)) = Some a"
    and header: "header = a @ [nh, 0]
      @ be_bytes 2 (unat ((of_nat position AND 0xfff8) OR (if position + count < n then 1 else 0) :: u16))
      @ be_bytes 4 (unat identification)"
    using assms unfolding fragment_step6_def Let_def let_ok_Ok_iff ok_or_iff expect_iff by auto
  have pl: "40 \<le> pl" "ext = pl - 40" "pl \<le> length ip" "base = take pl ip" "pn < pl" "nh = take pl ip ! pn"
    using base nh ext by (auto simp: checked_iff outcome_iff slice_of_def)
  have small: "pl - 40 + 8 + count < 65536" "be_bytes 2 (unat len) = be_bytes 2 (pl - 40 + 8 + count)"
    using len of_nat_u16_bytes [of "pl - 40 + 8 + count"] by (auto simp: u16_try_from_def pl(2) split: if_splits)
  show "payload_count room (n - position) = Ok count" and "pn < pl" and "pl \<le> length ip" and "40 \<le> pl"
    and "pl - 40 + 8 + count < 65536"
    by fact+
  show "header = copy_at ((take pl ip)[pn := FRAGMENT]) 4 (be_bytes 2 (pl - 40 + 8 + count))
      @ [take pl ip ! pn, 0] @ be_bytes 2 (unat ((of_nat position AND 0xfff8) OR (if position + count < n then 1 else 0) :: u16))
      @ be_bytes 4 (unat identification)"
    using a header unfolding pl(4,6) small(2) by (simp add: checked_iff)
qed

lemma fragment_loop6_no_panic:
  assumes "40 \<le> pl" and "pn < pl" and "pl \<le> length ip" and "offset \<le> length (fr_bytes frame)"
  shows "fragment_loop6 frame offset ip pl pn identification room payload options position acc \<noteq> Panic"
  using assms
proof (induction frame offset ip pl pn identification room payload options position acc rule: fragment_loop6.induct)
  case (1 frame offset ip pl pn identification room payload options position acc)
  let ?step = "fragment_step6 ip pl pn identification room (length payload) position"
  have chunk: "get_range payload position (position + count) \<noteq> None" if "?step = Ok (header, count)" "position < length payload" for header count
    using payload_count_Ok(3) [OF fragment_step6_Ok(1) [OF that(1)]] that(2) by (auto simp: checked_iff)
  show ?case
  proof (cases "position < length payload")
    case True
    have "fragment_loop6 frame offset ip pl pn identification room payload options (position + count) acc' \<noteq> Panic"
      if "?step = Ok (header, count)" "expect (get_range payload position (position + count)) = (Ok bytes :: (transform_error, _) outcome)"
        "append_fragment frame offset header bytes options acc = Ok acc'" for header count bytes acc'
      using 1(1) [OF True that(1) refl that(2,3) 1(2-5)] .
    then have "let_ok (expect (get_range payload position (position + count))) (\<lambda>bytes.
        let_ok (append_fragment frame offset header bytes options acc) (\<lambda>acc'.
        fragment_loop6 frame offset ip pl pn identification room payload options (position + count) acc')) \<noteq> Panic"
      if "?step = Ok (header, count)" for header count
      using chunk [OF that True] append_fragment_no_panic [OF 1(5)] that
      by (intro let_ok_no_panic) (simp_all add: outcome_iff)
    then show ?thesis
      unfolding fragment_loop6.simps [of frame offset ip pl pn identification room payload options position acc] if_P [OF True]
      using fragment_step6_no_panic [OF 1(2-4)] by (intro let_ok_no_panic) auto
  qed (simp add: fragment_loop6.simps [of frame offset ip pl pn identification room payload options position acc])
qed

lemma fragment_ipv6_no_panic:
  assumes "ipv6_walk ip = Ok h" and "offset \<le> length (fr_bytes frame)"
  shows "fragment_ipv6 frame offset ip h options \<noteq> Panic"
proof -
  have transport: "transport_header_length ip next_header cursor \<noteq> Panic" for next_header cursor
    by (auto simp: transport_header_length_def outcome_iff Let_def)
  have loop: "fragment_loop6 frame offset ip pl pn identification room payload options 0 (0, []) \<noteq> Panic"
    if "unfragmentable 0 (ipv6_extensions h) (IPV6_LENGTH, 6) = Ok (pl, pn)" for pl pn identification room payload
    using ipv6_prefix_bounds [OF assms(1) that] assms(2) by (intro fragment_loop6_no_panic) linarith+
  obtain next_header cursor where up: "ipv6_upper_layer h = (next_header, cursor)"
    by fastforce
  show ?thesis
  proof (cases "unfragmentable 0 (ipv6_extensions h) (IPV6_LENGTH, 6)")
    case (Ok found)
    then obtain pl pn where found: "unfragmentable 0 (ipv6_extensions h) (IPV6_LENGTH, 6) = Ok (pl, pn)"
      by (cases found) simp
    note b = ipv6_prefix_bounds [OF assms(1) found]
    show ?thesis
      unfolding fragment_ipv6_def Let_def up prod.case found let_ok.simps
      using b up loop [OF found] transport
      by (cases "ipv6_datagram_length h \<le> fo_mtu options"; simp only: if_True if_False;
          intro let_ok_no_panic; auto simp: outcome_iff checked_iff unchanged_def)
  qed (use unfragmentable_no_panic in \<open>auto simp: fragment_ipv6_def outcome_iff\<close>)
qed

end
