(* ===== verification/Fragment_Whole.thy ===== *)
theory Fragment_Whole
  imports Fragment_Frames
begin

text \<open>
  \<open>fragment\<close> as a whole: it never panics, and what it returns for an IPv4 frame that is longer than the
  MTU is the list of parts its loop cuts.
\<close>

lemma link_walk_ip_inside:
  assumes "link_walk_ip link frame = Ok (Some header)"
  shows "network_offset link \<le> length frame" and "ip_walk (drop (network_offset link) frame) = Ok header"
  using assms by (auto simp: link_walk_ip_def outcome_iff checked_iff Let_def split: if_splits)

lemma ip_walk_cases:
  assumes "ip_walk ip = Ok header"
  shows "(\<exists>h. header = IpV4 h \<and> ipv4_walk ip = Ok h) \<or> (\<exists>h. header = IpV6 h \<and> ipv6_walk ip = Ok h)"
  using assms by (auto simp: ip_walk_def outcome_iff Let_def split: option.splits if_splits)

lemma fragment_frame_no_panic: "fragment_frame frame options \<noteq> Panic"
proof -
  have fam: "(case header of IpV4 h \<Rightarrow> fragment_ipv4 frame (network_offset link) ip h options
      | IpV6 h \<Rightarrow> fragment_ipv6 frame (network_offset link) ip h options) \<noteq> Panic"
    if "link_walk_ip link (fr_bytes frame) = Ok (Some header)" "ip = drop (network_offset link) (fr_bytes frame)"
    for link header ip
    using link_walk_ip_inside [OF that(1)] ip_walk_cases [of ip header] fragment_ipv4_no_panic fragment_ipv6_no_panic
    unfolding that(2) by fastforce
  show ?thesis
    unfolding fragment_frame_def Let_def
    by (intro let_ok_no_panic;
        (simp add: outcome_iff checked_iff walk_no_panic; fail | simp add: outcome_iff checked_iff not_less link_walk_ip_inside(1) fam))
qed

section \<open>Frames longer than the MTU\<close>

text \<open>What every transform starts with: the checks on the options and the walk to the IP header.\<close>

lemma fragment_frame_Ok:
  assumes "fragment_frame frame options = Ok fs"
  obtains link header where "1 \<le> fo_max_fragments options" and "fo_max_fragments options \<le> 8192"
    and "fr_captured_length frame = fr_original_length frame"
    and "link_walk (fr_link_type frame) (fr_bytes frame) = Ok (Some link)"
    and "link_walk_ip link (fr_bytes frame) = Ok (Some header)"
    and "(case header of
        IpV4 h \<Rightarrow> fragment_ipv4 frame (network_offset link) (drop (network_offset link) (fr_bytes frame)) h options
      | IpV6 h \<Rightarrow> fragment_ipv6 frame (network_offset link) (drop (network_offset link) (fr_bytes frame)) h options) = Ok fs"
  using assms unfolding fragment_frame_def Let_def let_ok_Ok_iff ok_or_iff expect_iff map_err_iff ensure_iff get_from_iff
  by auto

lemma tiled_frames_ok: "tiled step frame offset payload position fs \<Longrightarrow> list_all frame_ok fs"
  by (induction fs arbitrary: position) auto

definition chosen_identification :: "fragment_options \<Rightarrow> u16 \<Rightarrow> u16" where
  "chosen_identification options original =
     (case fo_identification options of None \<Rightarrow> original | Some n \<Rightarrow> of_nat (unat n))"

lemma flags_all_clear:
  assumes "(w :: u16) AND 0x8000 = 0" and "w AND 0x4000 = 0" and "w AND 0x3fff = 0"
  shows "w = 0"
proof -
  have "w = w AND (0x8000 OR (0x4000 OR 0x3fff))"
  proof -
    have "(0x8000 OR (0x4000 OR 0x3fff) :: u16) = -1"
      by simp
    then show ?thesis
      by (simp only: and.right_neutral)
  qed
  also have "\<dots> = 0"
    unfolding bit.conj_disj_distrib assms by simp
  finally show ?thesis .
qed

lemma fragment_ipv4_parts:
  assumes car: "carries_ipv4 link frame h header payload" and long: "fo_mtu options < ipv4_total_length h"
    and run: "fragment_ipv4 frame (network_offset link) (drop (network_offset link) (fr_bytes frame)) h options = Ok fs"
  obtains ps where "list_all2 (part_of link) fs ps" and "within_limits options fs" and "list_all frame_ok fs"
    and "tiles4 (fo_mtu options) header (chosen_identification options (ipv4_identification h)) (length payload) 0 ps"
    and "concat (map part_payload ps) = payload" and "checksum_parts [header] = 0" and "ipv4_flags_and_offset h = 0"
    and "payload \<noteq> []"
proof -
  let ?ip = "drop (network_offset link) (fr_bytes frame)" and ?hl = "ipv4_header_length h"
  note orig = carries_ipv4_bytes [OF car]
  have notle: "\<not> ipv4_total_length h \<le> fo_mtu options"
    using long by simp
  obtain copied identification where sum: "checksum_parts [slice_of ?ip 0 ?hl] = 0"
    and plain: "\<not> ipv4_reserved_flag h" "\<not> ipv4_is_fragment h" "\<not> ipv4_dont_fragment h" "ipv4_total_length h \<noteq> ?hl"
    and copied: "copied_options ?ip h = Ok copied"
    and ident: "(case fo_identification options of None \<Rightarrow> Ok (ipv4_identification h)
        | Some n \<Rightarrow> ok_or (u16_try_from (unat n)) (TransformInvalid Ipv4Identification)) = Ok identification"
    and loop: "fragment_loop4 frame (network_offset link) ?ip ?hl copied identification (ipv4_flags_and_offset h)
        (slice_of ?ip ?hl (ipv4_total_length h)) options 0 (0, []) = Ok fs"
    using run unfolding fragment_ipv4_def Let_def if_not_P [OF notle] let_ok_Ok_iff ok_or_iff expect_iff ensure_iff get_range_iff
    by auto
  have clear: "ipv4_flags_and_offset h = 0"
    using plain(1,3,2) unfolding ipv4_reserved_flag_def ipv4_is_fragment_def ipv4_dont_fragment_def not_not
    by (rule flags_all_clear)
  have chosen: "identification = chosen_identification options (ipv4_identification h)"
    using ident by (auto simp: chosen_identification_def u16_try_from_def outcome_iff split: option.splits if_splits)
  have header: "slice_of ?ip 0 ?hl = header" and payload: "slice_of ?ip ?hl (ipv4_total_length h) = payload"
    using car by (simp_all add: carries_ipv4_def slice_of_def)
  note cut = cut_run_start [OF fragment_loop4_run [OF loop [unfolded payload chosen]]]
  note c = copied_options_length [OF copied orig(1)]
  have "ipv4_flags_and_offset h AND 0x8000 = 0"
    by (simp add: clear)
  from tiled_tiles4 [OF car c this cut(2) le0 [of "length payload"]]
  obtain ps where ps: "list_all2 (part_of link) fs ps"
      "tiles4 (fo_mtu options) header (chosen_identification options (ipv4_identification h)) (length payload) 0 ps"
      "concat (map part_payload ps) = payload"
    unfolding drop_0 by blast
  have "length payload \<noteq> 0"
    using orig(3) plain(4) ipv4_walk_lengths_bounds(4) [OF orig(1) [unfolded ipv4_walk_def]] by linarith
  then have "payload \<noteq> []"
    by simp
  then show thesis
    by (rule that [OF ps(1) cut(1) tiled_frames_ok [OF cut(2)] ps(2,3) sum [unfolded header] clear])
qed

end
