(* ===== verification/Ip_Push.thy ===== *)
theory Ip_Push
  imports Ip_Rebuild
begin

text \<open>
  One push on one datagram: what planning it establishes, when the datagram is complete, and the
  state it leaves otherwise.
\<close>

section \<open>A retained datagram\<close>

definition datagram_ok :: "ip_limits \<Rightarrow> datagram_key \<Rightarrow> datagram_state \<Rightarrow> bool" where
  "datagram_ok limits key st \<longleftrightarrow>
     ranges_ok (ds_ranges st) \<and> ds_ranges st \<noteq> []
     \<and> (\<forall>r\<in>set (ds_ranges st). range_stop r \<le> 65535 \<and> range_stop r \<le> max_bytes_per_datagram limits)
     \<and> ds_unique_bytes st = card (dom (content (ds_ranges st)))
     \<and> ds_memory_charge st = RANGE_METADATA_CHARGE * length (ds_ranges st) + capacity_sum (ds_ranges st)
          + header_len (ds_reconstruction st)
     \<and> ds_deadline st = Some (ds_last_update st + ip_idle_expiry limits)
     \<and> header_ok key (ds_reconstruction st)
     \<and> (0 \<in> dom (content (ds_ranges st)) \<longleftrightarrow> has_header (ds_reconstruction st))
     \<and> (\<forall>len. ds_final_length st = Some len \<longrightarrow>
          dom (content (ds_ranges st)) \<subseteq> {0..<len} \<and> dom (content (ds_ranges st)) \<noteq> {0..<len})
     \<and> 1 \<le> ds_fragment_count st \<and> ds_fragment_count st \<le> max_fragments_per_datagram limits"

definition old_ok :: "ip_limits \<Rightarrow> datagram_key \<Rightarrow> datagram_state option \<Rightarrow> bool" where
  "old_ok limits key existing \<longleftrightarrow> (case existing of None \<Rightarrow> True | Some st \<Rightarrow> datagram_ok limits key st)"

lemma old_ok_ranges:
  assumes "old_ok limits key existing"
  shows "ranges_ok (ranges_of existing)" and "existing_ok key existing"
    and "r \<in> set (ranges_of existing) \<Longrightarrow> range_stop r \<le> 65535 \<and> range_stop r \<le> max_bytes_per_datagram limits"
  using assms by (cases existing; simp add: old_ok_def ranges_of_def existing_ok_def datagram_ok_def)+

lemma few_ranges:
  assumes "ranges_ok rs" and "\<And>r. r \<in> set rs \<Longrightarrow> range_stop r \<le> 65535"
  shows "length rs \<le> 65535"
proof -
  have "length rs = (\<Sum>r\<leftarrow>rs. 1)"
    by (simp add: sum_list_triv)
  also have "\<dots> \<le> (\<Sum>r\<leftarrow>rs. length (dq_items (rr_bytes r)))"
    using assms(1) by (intro sum_list_mono) (auto simp: ranges_ok_def Suc_le_eq)
  also have "\<dots> = card (dom (content rs))"
    using card_dom_content [OF assms(1)] by simp
  also have "\<dots> \<le> card {0..<65535 :: nat}"
    using assms(2) by (intro card_mono) (auto simp: dom_content dest!: assms(2))
  finally show ?thesis
    by simp
qed

text \<open>A gap-free datagram is one range.\<close>

lemma ranges_full:
  assumes "ranges_ok rs" and "dom (content rs) = {0..<len}" and "0 < len"
  obtains m where "rs = [m]" and "rr_start m = 0" and "range_stop m = len"
proof -
  obtain m rest where rs: "rs = m # rest"
    using assms(2,3) by (cases rs) auto
  have later: "range_stop m < rr_start b" if "b \<in> set rest" for b
    using assms(1) that by (simp add: rs ranges_ok_def)
  have ne: "rr_start m < range_stop m"
    using range_nonempty [OF assms(1), of m] by (simp add: rs)
  have dom: "p < len \<longleftrightarrow> (\<exists>r\<in>set rs. rr_start r \<le> p \<and> p < range_stop r)" for p
  proof -
    have "p \<in> dom (content rs) \<longleftrightarrow> p < len"
      unfolding assms(2) by simp
    then show ?thesis
      by (simp add: dom_content)
  qed
  have "rest = []"
  proof (rule ccontr)
    assume "rest \<noteq> []"
    then obtain b where b: "b \<in> set rest"
      by (cases rest) auto
    have "rr_start b < range_stop b"
      using range_nonempty [OF assms(1), of b] b by (simp add: rs)
    then have "rr_start b < len"
      using dom [of "rr_start b"] b by (auto simp: rs)
    then have "range_stop m < len"
      using later [OF b] by linarith
    then obtain c where "c \<in> set rs" "rr_start c \<le> range_stop m" "range_stop m < range_stop c"
      using dom by blast
    then show False
      using later [of c] by (auto simp: rs)
  qed
  moreover have "rr_start m = 0"
    using dom [of 0] assms(3) calculation by (simp add: rs)
  moreover have "range_stop m = len"
    using dom [of "range_stop m"] dom [of "range_stop m - 1"] ne calculation
    by (auto simp: rs)
  ultimately show thesis
    using that rs by blast
qed

text \<open>The touched ranges become one range over the union.\<close>

lemma updated_union:
  assumes inc: "incoming_ok inc" and rs: "ranges_ok rs" and p: "planned inc rs pre mid post mp"
    and fit: "fitting inc mid mp policy update"
  obtains m where "updated inc pre mid post update = pre @ [m] @ post"
    and "rr_start m = mp_union_start mp" and "range_stop m = mp_union_end mp"
proof (cases update)
  case UpdateUnchanged
  then have k: "mp_kind mp = Unchanged"
    using fit by (simp add: fitting_def)
  obtain r where "mid = [r]" "rr_start r = mp_union_start mp" "range_stop r = mp_union_end mp"
    using planned_unchanged [OF inc rs p k] by blast
  then show thesis
    using UpdateUnchanged by (intro that [of r]) (simp_all add: updated_def)
next
  case UpdateAppend
  then obtain r where r: "mid = [r]" "range_stop r = in_offset inc"
      "mp_union_end mp - mp_union_start mp \<le> dq_capacity (rr_bytes r)"
    using fit p by (auto simp: fitting_def planned_def)
  show thesis
    using UpdateAppend r append_in_place(1,2) [OF inc rs p [unfolded r] r(2,3)]
    by (intro that) (simp_all add: updated_def)
next
  case UpdatePrepend
  then obtain r where r: "mid = [r]" "rr_start r = in_end inc"
      "mp_union_end mp - mp_union_start mp \<le> dq_capacity (rr_bytes r)"
    using fit p by (auto simp: fitting_def planned_def)
  show thesis
    using UpdatePrepend r prepend_in_place(1,2) [OF inc rs p [unfolded r] r(2,3)]
    by (intro that) (simp_all add: updated_def)
next
  case (UpdateReplace m)
  then show thesis
    using fit by (intro that [of m]) (simp_all add: updated_def fitting_def)
qed

text \<open>A push completes the datagram exactly when no byte below the final length is missing.\<close>

lemma completes_iff:
  assumes inc: "incoming_ok inc" and rs: "ranges_ok rs" and p: "planned inc rs pre mid post mp"
    and fit: "fitting inc mid mp policy update"
  shows "completes mp final \<longleftrightarrow> (\<exists>len. final = Some len \<and> dom (resolve policy inc (content rs)) = {0..<len})"
proof -
  note u = updated_ok [OF inc rs p fit]
  obtain m where m: "updated inc pre mid post update = pre @ [m] @ post"
      "rr_start m = mp_union_start mp" "range_stop m = mp_union_end mp"
    using updated_union [OF inc rs p fit] by blast
  have lt: "mp_union_start mp < mp_union_end mp"
    using planned_union(3) [OF inc rs p] .
  have count: "mp_result_range_count mp = 1 \<longleftrightarrow> pre = [] \<and> post = []"
    using u(3) m(1) by auto
  have "dom (resolve policy inc (content rs)) = {0..<len} \<longleftrightarrow>
      mp_result_range_count mp = 1 \<and> mp_union_start mp = 0 \<and> mp_union_end mp = len" for len
  proof
    assume full: "dom (resolve policy inc (content rs)) = {0..<len}"
    have "mp_union_start mp \<in> dom (content (updated inc pre mid post update))"
      using lt m by (auto simp: dom_content)
    then have "0 < len"
      using full u(2) by auto
    then obtain m' where m': "updated inc pre mid post update = [m']" "rr_start m' = 0" "range_stop m' = len"
      using ranges_full [OF u(1)] full u(2) by metis
    then have "m' = m" and "pre = []" "post = []"
      using m(1) by (auto simp: Cons_eq_append_conv append_eq_Cons_conv)
    then show "mp_result_range_count mp = 1 \<and> mp_union_start mp = 0 \<and> mp_union_end mp = len"
      using m m' count by simp
  next
    assume "mp_result_range_count mp = 1 \<and> mp_union_start mp = 0 \<and> mp_union_end mp = len"
    then have "updated inc pre mid post update = [m]" "rr_start m = 0" "range_stop m = len"
      using m count by auto
    then have "dom (content (updated inc pre mid post update)) = {0..<len}"
      by simp
    then show "dom (resolve policy inc (content rs)) = {0..<len}"
      by (simp only: u(2))
  qed
  then show ?thesis
    by (auto simp: completes_def split: option.splits)
qed

end
