(* ===== verification/Ip_Admit.thy ===== *)
theory Ip_Admit
  imports Ip_Push
begin

text \<open>
  What the admission of a push's charges establishes, and the plan of a push as a whole.
\<close>

section \<open>Admitted charges\<close>

definition old_unique :: "datagram_state option \<Rightarrow> nat" where
  "old_unique existing = (case existing of None \<Rightarrow> 0 | Some st \<Rightarrow> ds_unique_bytes st)"

definition old_charge :: "datagram_state option \<Rightarrow> nat" where
  "old_charge existing = (case existing of None \<Rightarrow> 0 | Some st \<Rightarrow> ds_memory_charge st)"

definition push_instant :: "datagram_state option \<Rightarrow> instant \<Rightarrow> instant" where
  "push_instant existing now = (case existing of None \<Rightarrow> now | Some st \<Rightarrow> max (ds_last_update st) now)"

definition slot_charge :: "ip_reassembler \<Rightarrow> datagram_state option \<Rightarrow> nat" where
  "slot_charge r existing =
     (if existing = None \<and> length (ir_datagrams r) \<ge> rt_datagram_slots (ir_retained r)
      then DATAGRAM_METADATA_CHARGE else 0)"

definition admitted ::
    "ip_reassembler \<Rightarrow> datagram_state option \<Rightarrow> incoming \<Rightarrow> merge_plan \<Rightarrow> storage_plan \<Rightarrow> instant \<Rightarrow> usize \<Rightarrow> nat
      \<Rightarrow> charges \<Rightarrow> bool" where
  "admitted r existing inc mp sp now external header ch \<longleftrightarrow>
     ch_unique_bytes ch = old_unique existing + mp_added_bytes mp
     \<and> ch_unique_bytes ch \<le> max_bytes_per_datagram (ir_limits r)
     \<and> ch_new_slot_charge ch = slot_charge r existing
     \<and> ch_prospective_charge ch = RANGE_METADATA_CHARGE * mp_result_range_count mp + sp_retained_payload sp + header
     \<and> old_charge existing \<le> rt_memory_charge (ir_retained r)
     \<and> ch_aggregate_memory_charge ch =
         rt_memory_charge (ir_retained r) - old_charge existing + ch_prospective_charge ch + slot_charge r existing
     \<and> ch_aggregate_memory_charge ch + external \<le> ip_max_aggregate_bytes (ir_limits r)
     \<and> ch_aggregate_memory_charge ch + external \<le> usize_max
     \<and> old_unique existing \<le> rt_payload_bytes (ir_retained r)
     \<and> ch_aggregate_payload_bytes ch = rt_payload_bytes (ir_retained r) - old_unique existing + ch_unique_bytes ch
     \<and> ch_aggregate_payload_bytes ch \<le> ip_max_aggregate_bytes (ir_limits r)
     \<and> ch_last_update ch = push_instant existing now
     \<and> ch_deadline ch = Some (push_instant existing now + ip_idle_expiry (ir_limits r))
     \<and> (\<forall>final. plan_final_length existing inc = Ok final \<longrightarrow> completes mp final \<longrightarrow>
          ch_replacement_peak_charge ch + header + mp_union_end mp \<le> ip_max_aggregate_bytes (ir_limits r)
          \<and> ch_replacement_peak_charge ch + header + mp_union_end mp \<le> usize_max)
     \<and> rt_memory_charge (ir_retained r) + external \<le> ip_max_aggregate_bytes (ir_limits r)"

lemma checked_filter_iff:
  "Option.bind x (\<lambda>n. if P n then Some n else None) = Some m \<longleftrightarrow> x = Some m \<and> P m"
  by (cases x) auto

lemma checked_test_iff:
  "(case checked_add a b of None \<Rightarrow> False | Some n \<Rightarrow> n \<le> m) \<longleftrightarrow> a + b \<le> usize_max \<and> a + b \<le> m"
  by (auto simp: checked_add_def)

lemmas admit_iff = let_ok_Ok_iff ok_or_iff checked_filter_iff bind_eq_Some_conv checked_iff checked_test_iff

lemma admit_charges_Ok:
  assumes run: "admit_charges r existing inc mp sp now external = Ok ch"
    and header: "reconstruction_retained_bytes existing inc = Ok header"
  shows "admitted r existing inc mp sp now external header ch"
proof -
  let ?max = "ip_max_aggregate_bytes (ir_limits r)" and ?mem = "rt_memory_charge (ir_retained r)"
  let ?pay = "rt_payload_bytes (ir_retained r)"
  obtain unique pros agg repl peak pay dl final u dups ovs where steps:
      "unique = old_unique existing + mp_added_bytes mp" "unique \<le> max_bytes_per_datagram (ir_limits r)"
      "instant_checked_add (push_instant existing now) (ip_idle_expiry (ir_limits r)) = Some dl"
      "pros = mp_result_range_count mp * RANGE_METADATA_CHARGE + sp_retained_payload sp + header"
      "old_charge existing \<le> ?mem" "agg = ?mem - old_charge existing + pros + slot_charge r existing"
      "agg + external \<le> usize_max" "agg + external \<le> ?max"
      "peak = ?mem + repl + external" "peak \<le> ?max"
      "plan_final_length existing inc = Ok final"
      "(if completes mp final
          then let_ok (ok_or (Option.bind (Option.bind (checked_add peak header)
              (\<lambda>charge. checked_add charge (mp_union_end mp)))
              (\<lambda>charge. if charge \<le> ?max then Some charge else None)) (aggregate_limit r)) (\<lambda>_. Ok ())
          else Ok ()) = Ok u"
      "old_unique existing \<le> ?pay" "pay = ?pay - old_unique existing + unique" "pay \<le> ?max"
      "ch = \<lparr>ch_unique_bytes = unique, ch_duplicate_fragments = dups,
          ch_overlap_bytes = ovs, ch_new_slot_charge = slot_charge r existing,
          ch_prospective_charge = pros, ch_aggregate_memory_charge = agg,
          ch_replacement_peak_charge = peak,
          ch_aggregate_payload_bytes = pay, ch_last_update = push_instant existing now,
          ch_deadline = Some dl\<rparr>"
    using run header
    unfolding admit_charges_def Let_def old_unique_def [symmetric] old_charge_def [symmetric]
      push_instant_def [symmetric] slot_charge_def [symmetric]
    by (simp only: admit_iff outcome.inject) blast
  have dl: "dl = push_instant existing now + ip_idle_expiry (ir_limits r)"
    using steps(3) by (simp add: instant_checked_add_def split: if_splits)
  have "peak + header + mp_union_end mp \<le> ?max \<and> peak + header + mp_union_end mp \<le> usize_max" if "completes mp final"
    using steps(12) that by (simp only: if_True admit_iff) auto
  with steps dl show ?thesis
    by (auto simp: admitted_def mult.commute)
qed

lemma plan_final_length_no_panic: "plan_final_length existing inc \<noteq> Panic"
  unfolding plan_final_length_def Let_def
  by (auto simp: let_ok_Panic_iff ensure_iff split: option.splits)

lemma admit_charges_no_panic:
  assumes "reconstruction_retained_bytes existing inc \<noteq> Panic"
  shows "admit_charges r existing inc mp sp now external \<noteq> Panic"
proof -
  have "replacement_allocation_charge r mp sp a b \<noteq> Panic" for a b
    by (simp add: replacement_allocation_charge_def let_ok_Panic_iff ok_or_iff)
  then show ?thesis
    using assms plan_final_length_no_panic
    unfolding admit_charges_def Let_def by (simp add: let_ok_Panic_iff ok_or_iff)
qed

lemma accumulated_ecn_no_panic: "accumulated_ecn existing inc \<noteq> Panic"
  by (auto simp: accumulated_ecn_def ecn_merge_def split: option.splits outcome.splits if_splits ecn.splits)

lemma consistency_no_panic: "validate_reconstruction_consistency existing inc \<noteq> Panic"
  by (simp add: validate_reconstruction_consistency_def ensure_iff split: option.splits reconstruction.splits
      incoming_reconstruction.splits)

lemma retained_bytes_Ok:
  assumes "existing_ok key existing" and "incoming_header_ok key (in_reconstruction inc)"
  shows "reconstruction_retained_bytes existing inc = Ok (header_len (retains existing inc e))"
  using retained_header_of(1) [OF assms, of e] by (auto simp: reconstruction_retained_bytes_def)

section \<open>The plan of a push\<close>

text \<open>The capacity asked for first is at least what the merged range needs.\<close>

lemma preferred_capacity_ok:
  assumes inc: "incoming_ok inc" and rs: "ranges_ok rs" and p: "planned inc rs pre mid post mp"
    and fits: "in_end inc \<le> max_bytes_per_datagram limits"
      "\<And>r. r \<in> set rs \<Longrightarrow> range_stop r \<le> max_bytes_per_datagram limits"
  obtains preferred where "preferred_capacity limits rs mp (mp_union_end mp - mp_union_start mp) = Ok preferred"
    and "mp_union_end mp - mp_union_start mp \<le> preferred"
proof -
  have split: "rs = pre @ mid @ post" and at: "mp_first_affected mp = length pre"
    using p by (auto simp: planned_def placement_def)
  have E: "mp_union_end mp \<in> insert (in_end inc) (set (map range_stop mid))"
    using p foldl_max_bounds(3) [of "in_end inc" "map range_stop mid"] by (simp add: planned_def)
  then have le: "mp_union_end mp \<le> max_bytes_per_datagram limits"
    using fits split by auto
  show thesis
  proof (cases "mp_kind mp \<in> {Append, Prepend}")
    case True
    then obtain r where "mid = [r]"
      using p by (auto simp: planned_def)
    then have "get_index rs (length pre) = Some r"
      by (simp add: split get_index_def)
    then show thesis
      using True le at by (intro that) (auto simp: preferred_capacity_def)
  next
    case False
    then show thesis
      by (intro that) (auto simp: preferred_capacity_def)
  qed
qed

definition ip_planned ::
    "ip_reassembler \<Rightarrow> instant \<Rightarrow> usize \<Rightarrow> datagram_state option \<Rightarrow> ip_push_plan
      \<Rightarrow> retained_range list \<Rightarrow> retained_range list \<Rightarrow> retained_range list \<Rightarrow> storage_plan \<Rightarrow> ecn \<Rightarrow> bool" where
  "ip_planned r now external existing p pre mid post sp e \<longleftrightarrow>
     valid_incoming (ir_limits r) (ip_incoming p)
     \<and> existing = bt_get (ir_datagrams r) (in_key (ip_incoming p))
     \<and> (existing = None \<longrightarrow> length (ir_datagrams r) < max_datagrams (ir_limits r))
     \<and> ip_fragment_count p = (case existing of None \<Rightarrow> 0 | Some st \<Rightarrow> ds_fragment_count st) + 1
     \<and> ip_fragment_count p \<le> max_fragments_per_datagram (ir_limits r)
     \<and> validate_reconstruction_consistency existing (ip_incoming p) = Ok ()
     \<and> accumulated_ecn existing (ip_incoming p) = Ok e
     \<and> plan_final_length existing (ip_incoming p) = Ok (ip_final_length p)
     \<and> validate_family_wire_extent existing (ip_incoming p) (ip_final_length p) = Ok ()
     \<and> planned (ip_incoming p) (ranges_of existing) pre mid post (ip_merge p)
     \<and> (mp_conflicting_bytes (ip_merge p) \<noteq> 0 \<longrightarrow> ir_overlap_policy r \<noteq> Reject)
     \<and> fitting (ip_incoming p) mid (ip_merge p) (ir_overlap_policy r) (ip_update p)
     \<and> capacity_sum (updated (ip_incoming p) pre mid post (ip_update p)) = sp_retained_payload sp
     \<and> ip_reconstruction p = retains existing (ip_incoming p) e
     \<and> admitted r existing (ip_incoming p) (ip_merge p) sp now external (header_len (ip_reconstruction p)) (ip_charges p)"

end
