(* ===== verification/Ip_Plan.thy ===== *)
theory Ip_Plan
  imports Ip_Admit
begin

text \<open>
  Planning a push never panics, and a plan it returns is a plan in the sense of \<open>ip_planned\<close>.
\<close>

lemma try_capacity_cases:
  assumes inc: "incoming_ok inc" and rs: "ranges_ok rs" and p: "planned inc rs pre mid post mp"
    and header: "reconstruction_retained_bytes existing inc = Ok header"
  shows "try_capacity r existing inc mp now external rs c \<noteq> Panic"
    and "try_capacity r existing inc mp now external rs c \<noteq> Ok (st, Panic)"
    and "try_capacity r existing inc mp now external rs c = Ok (sp, Ok ch) \<Longrightarrow>
      storage_ok rs mid mp sp \<and> admitted r existing inc mp sp now external header ch"
proof -
  have "admit_charges r existing inc mp sp now external \<noteq> Panic" for sp
    using header by (intro admit_charges_no_panic) simp
  then show "try_capacity r existing inc mp now external rs c \<noteq> Panic"
      "try_capacity r existing inc mp now external rs c \<noteq> Ok (st, Panic)"
    using plan_storage_cases(1) [OF inc rs p, of r c]
    by (simp_all add: try_capacity_def let_ok_Ok_iff let_ok_Panic_iff)
  assume "try_capacity r existing inc mp now external rs c = Ok (sp, Ok ch)"
  then have "plan_storage r rs mp c = Ok sp" "admit_charges r existing inc mp sp now external = Ok ch"
    by (simp_all add: try_capacity_def let_ok_Ok_iff)
  then show "storage_ok rs mid mp sp \<and> admitted r existing inc mp sp now external header ch"
    using plan_storage_cases(2) [OF inc rs p] admit_charges_Ok [OF _ header] by simp
qed

lemma plan_update_cases:
  assumes valid: "valid_incoming (ir_limits r) inc" and old: "old_ok (ir_limits r) (in_key inc) existing"
    and p: "planned inc (ranges_of existing) pre mid post mp"
  shows "plan_update alloc r existing inc e mp now external (ranges_of existing) \<noteq> Panic"
    and "plan_update alloc r existing inc e mp now external (ranges_of existing) = Ok (rc, update, ch) \<Longrightarrow>
      rc = retains existing inc e \<and> fitting inc mid mp (ir_overlap_policy r) update
      \<and> (\<exists>sp. capacity_sum (updated inc pre mid post update) = sp_retained_payload sp
          \<and> admitted r existing inc mp sp now external (header_len rc) ch)"
proof -
  let ?rs = "ranges_of existing"
  have inc: "incoming_ok inc" and hdr: "incoming_header_ok (in_key inc) (in_reconstruction inc)"
    using valid by (auto simp: valid_incoming_def)
  note rs = old_ok_ranges [OF old]
  note keep = retained_header_of [OF rs(2) hdr, where e = e]
  obtain preferred where pref: "preferred_capacity (ir_limits r) ?rs mp (mp_union_end mp - mp_union_start mp) = Ok preferred"
      "mp_union_end mp - mp_union_start mp \<le> preferred"
    using valid rs(3) by (auto simp: valid_incoming_def intro: preferred_capacity_ok [OF inc rs(1) p])
  have required: "minus_or_panic (mp_union_end mp) (mp_union_start mp) = Ok (mp_union_end mp - mp_union_start mp)"
    using planned_union(3) [OF inc rs(1) p] by simp
  note attempt = try_capacity_cases [OF inc rs(1) p retained_bytes_Ok [OF rs(2) hdr, of e]]
  let ?choice = "choose_capacity (try_capacity r existing inc mp now external ?rs)
      (mp_union_end mp - mp_union_start mp) preferred"
  have choice: "storage_ok ?rs mid mp sp \<and> admitted r existing inc mp sp now external (header_len (retains existing inc e)) ch"
    if "?choice = Ok (sp, ch)" for sp ch
    using choose_capacity_answer [OF that pref(2)] attempt(3) by blast
  have no_panic: "?choice \<noteq> Panic"
    using attempt(1,2) by (rule choose_capacity_no_panic)
  show "plan_update alloc r existing inc e mp now external ?rs \<noteq> Panic"
    using no_panic keep(2) [of alloc] choose_update_cases(1) [OF inc rs(1) p] choice
    by (auto simp: plan_update_def required pref(1) let_ok_Panic_iff split: prod.splits)
  show "plan_update alloc r existing inc e mp now external ?rs = Ok (rc, update, ch) \<Longrightarrow>
      rc = retains existing inc e \<and> fitting inc mid mp (ir_overlap_policy r) update
      \<and> (\<exists>sp. capacity_sum (updated inc pre mid post update) = sp_retained_payload sp
          \<and> admitted r existing inc mp sp now external (header_len rc) ch)"
    using keep(2) [of alloc] choose_update_cases(2) [OF inc rs(1) p] choice
    by (fastforce simp: plan_update_def required pref(1) let_ok_Ok_iff split: prod.splits)
qed

definition table_datagrams_ok :: "ip_reassembler \<Rightarrow> bool" where
  "table_datagrams_ok r \<longleftrightarrow>
     (\<forall>key st. bt_get (ir_datagrams r) key = Some st \<longrightarrow> datagram_ok (ir_limits r) key st)"

lemma table_old_ok: "table_datagrams_ok r \<Longrightarrow> old_ok (ir_limits r) key (bt_get (ir_datagrams r) key)"
  by (cases "bt_get (ir_datagrams r) key") (simp_all add: table_datagrams_ok_def old_ok_def)

lemma plan_merge_total:
  assumes "valid_incoming limits inc" and "old_ok limits (in_key inc) existing"
  obtains pre mid post mp where "plan_merge (ranges_of existing) inc = Ok mp"
    and "planned inc (ranges_of existing) pre mid post mp"
proof -
  note rs = old_ok_ranges [OF assms(2)]
  have "length (ranges_of existing) \<le> 65535"
    using rs(3) by (intro few_ranges [OF rs(1)]) blast
  then have few: "length (ranges_of existing) < usize_max"
    by (simp add: usize_max_def)
  have inc: "incoming_ok inc"
    using assms(1) by (simp add: valid_incoming_def)
  show thesis
    by (rule plan_merge_planned [OF inc rs(1) few]) (rule that)
qed

lemma ip_plan_push_no_panic:
  assumes "table_datagrams_ok r"
  shows "ip_plan_push alloc fragment now external r \<noteq> Panic"
proof (cases "validate_fragment fragment (ir_limits r)")
  case (Ok inc)
  let ?existing = "bt_get (ir_datagrams r) (in_key inc)"
  note valid = validate_fragment_Ok [OF Ok]
  note old = table_old_ok [OF assms, of "in_key inc"]
  obtain pre mid post mp where mp: "plan_merge (ranges_of ?existing) inc = Ok mp"
      "planned inc (ranges_of ?existing) pre mid post mp"
    by (rule plan_merge_total [OF valid old])
  have "plan_update alloc r ?existing inc e mp now external (ranges_of ?existing) \<noteq> Panic" for e
    by (rule plan_update_cases(1) [OF valid old mp(2)])
  then show ?thesis
    unfolding ip_plan_push_def Let_def Ok let_ok.simps
    by (simp add: let_ok_Panic_iff ensure_iff ok_or_iff consistency_no_panic accumulated_ecn_no_panic
        plan_final_length_no_panic wire_extent_no_panic mp(1) split_def)
qed (use validate_fragment_no_panic in \<open>simp_all add: ip_plan_push_def\<close>)

lemma ip_plan_push_Ok:
  assumes table: "table_datagrams_ok r" and run: "ip_plan_push alloc fragment now external r = Ok p"
  shows "validate_fragment fragment (ir_limits r) = Ok (ip_incoming p)"
    and "\<exists>pre mid post sp e. ip_planned r now external
          (bt_get (ir_datagrams r) (in_key (ip_incoming p))) p pre mid post sp e"
proof -
  obtain inc where inc: "validate_fragment fragment (ir_limits r) = Ok inc"
    using run unfolding ip_plan_push_def Let_def by (simp only: let_ok_Ok_iff) blast
  let ?existing = "bt_get (ir_datagrams r) (in_key inc)"
  note valid = validate_fragment_Ok [OF inc]
  note old = table_old_ok [OF table, of "in_key inc"]
  obtain pre mid post mp where mp: "plan_merge (ranges_of ?existing) inc = Ok mp"
      "planned inc (ranges_of ?existing) pre mid post mp"
    by (rule plan_merge_total [OF valid old])
  obtain count e final rc update ch u v where steps:
      "\<not> (?existing = None \<and> length (ir_datagrams r) \<ge> max_datagrams (ir_limits r))"
      "count = (case ?existing of None \<Rightarrow> 0 | Some st \<Rightarrow> ds_fragment_count st) + 1"
      "count \<le> max_fragments_per_datagram (ir_limits r)"
      "validate_reconstruction_consistency ?existing inc = Ok u"
      "accumulated_ecn ?existing inc = Ok e" "plan_final_length ?existing inc = Ok final"
      "validate_family_wire_extent ?existing inc final = Ok v"
      "\<not> (mp_conflicting_bytes mp \<noteq> 0 \<and> ir_overlap_policy r = Reject)"
      "plan_update alloc r ?existing inc e mp now external (ranges_of ?existing) = Ok (rc, update, ch)"
      "p = \<lparr>ip_incoming = inc, ip_fragment_count = count, ip_final_length = final,
          ip_merge = mp, ip_charges = ch, ip_reconstruction = rc, ip_update = update\<rparr>"
    using run unfolding ip_plan_push_def Let_def inc let_ok.simps
    by (simp only: admit_iff ensure_iff mp(1) outcome.inject split_paired_Ex prod.case simp_thms) blast
  from plan_update_cases(2) [OF valid old mp(2) steps(9)]
  obtain sp where up: "rc = retains ?existing inc e" "fitting inc mid mp (ir_overlap_policy r) update"
      "capacity_sum (updated inc pre mid post update) = sp_retained_payload sp"
      "admitted r ?existing inc mp sp now external (header_len rc) ch"
    by blast
  show "validate_fragment fragment (ir_limits r) = Ok (ip_incoming p)"
    using inc steps(10) by simp
  have "ip_planned r now external ?existing p pre mid post sp e"
    using valid mp(2) steps(1-8) up unfolding steps(10) ip_planned_def
    by (simp del: One_nat_def add: not_le) auto
  then show "\<exists>pre mid post sp e. ip_planned r now external
          (bt_get (ir_datagrams r) (in_key (ip_incoming p))) p pre mid post sp e"
    unfolding steps(10) by (simp only: ip_push_plan.simps) blast
qed

end
