(* ===== verification/Ip_Commit.thy ===== *)
theory Ip_Commit
  imports Ip_Plan
begin

text \<open>
  Committing a planned push: a completed datagram is rebuilt and released, an incomplete one is
  stored in a state that satisfies the invariant of retained datagrams.
\<close>

section \<open>The lengths a plan has checked\<close>

lemma wire_length_ok:
  assumes ex: "existing_ok key existing" and hdr: "incoming_header_ok key (in_reconstruction inc)"
    and consistent: "validate_reconstruction_consistency existing inc = Ok ()"
    and extent: "validate_family_wire_extent existing inc (Some len) = Ok ()"
    and has: "has_header (retains existing inc e)"
  shows "wire_length (retains existing inc e) len \<le> 65535"
proof (cases existing)
  case None
  then show ?thesis
    using hdr extent has
    by (cases "in_reconstruction inc")
      (auto simp: validate_family_wire_extent_def retains_def outcome_iff checked_iff MAX_WIRE_LENGTH_def
        IPV6_LENGTH_def Let_def split: option.splits if_splits)
next
  case (Some st)
  show ?thesis
  proof (cases "in_reconstruction inc")
    case (IncIpv4 h)
    then obtain fh e' where rc: "ds_reconstruction st = RecIpv4 fh e'"
      using ex hdr Some by (cases key; cases "ds_reconstruction st") (auto simp: existing_ok_def)
    show ?thesis
      using Some IncIpv4 rc consistent extent has
      by (cases fh; cases "in_offset inc = 0")
        (simp_all add: validate_family_wire_extent_def retains_def had_header_def outcome_iff checked_iff MAX_WIRE_LENGTH_def
          validate_reconstruction_consistency_def ipv4_headers_match_def checked_add_def Let_def split: option.splits if_splits)
  next
    case (IncIpv6 p at n)
    then obtain p' at' n' e' z where rc: "ds_reconstruction st = RecIpv6 p' at' n' e' z"
      using ex hdr Some by (cases key; cases "ds_reconstruction st") (auto simp: existing_ok_def)
    show ?thesis
      using Some IncIpv6 rc extent has
      by (cases z; cases "in_offset inc = 0")
        (simp_all add: validate_family_wire_extent_def retains_def had_header_def outcome_iff checked_iff MAX_WIRE_LENGTH_def
          checked_add_def checked_sub_def IPV6_LENGTH_def Let_def split: option.splits if_splits)
  qed
qed

lemma last_range_bounds:
  assumes "ranges_ok (ranges_of existing)" and "\<And>x. last_range_end existing = Some x \<Longrightarrow> x \<le> len"
    and "r \<in> set (ranges_of existing)"
  shows "range_stop r \<le> len"
proof -
  obtain st where st: "existing = Some st" and rs: "ranges_of existing = ds_ranges st"
    using assms(3) by (cases existing) (auto simp: ranges_of_def)
  have ne: "ds_ranges st \<noteq> []"
    using assms(3) rs by auto
  have ok: "ranges_ok (ds_ranges st)" and mem: "r \<in> set (ds_ranges st)"
    using assms(1,3) by (simp_all add: rs)
  have "last_range_end existing = Some (range_stop (last (ds_ranges st)))"
    using st ne range_end_Some [OF ok, of "last (ds_ranges st)"] by (simp add: last_range_end_def)
  then have "range_stop (last (ds_ranges st)) \<le> len"
    using assms(2) by simp
  moreover have "range_stop r \<le> range_stop (last (ds_ranges st))"
  proof -
    obtain xs m where split: "ds_ranges st = xs @ [m]"
      using ne by (cases "ds_ranges st" rule: rev_cases) auto
    show ?thesis
      using ok mem range_nonempty [OF ok, of m] by (auto simp: split ranges_ok_append)
  qed
  ultimately show ?thesis
    by simp
qed

lemma final_length_bounds:
  assumes inc: "incoming_ok inc" and rs: "ranges_ok (ranges_of existing)"
    and final: "plan_final_length existing inc = Ok (Some len)"
  shows "dom (resolve policy inc (content (ranges_of existing))) \<subseteq> {0..<len}"
proof -
  have stops: "in_end inc \<le> len" "\<And>x. last_range_end existing = Some x \<Longrightarrow> x \<le> len"
    using final by (auto simp: plan_final_length_def outcome_iff Let_def split: option.splits)
  have "dom (content (ranges_of existing)) \<subseteq> {0..<len}"
  proof
    fix x
    assume "x \<in> dom (content (ranges_of existing))"
    then obtain r where "r \<in> set (ranges_of existing)" "x < range_stop r"
      unfolding dom_content by auto
    with last_range_bounds [OF rs stops(2), of r] show "x \<in> {0..<len}"
      by simp
  qed
  then show ?thesis
    using stops(1) dom_in_byte [OF inc] by (auto simp: resolve_def)
qed

lemma final_length_of:
  assumes "plan_final_length existing inc = Ok final"
  shows "final = (if in_more_fragments inc then Option.bind existing ds_final_length else Some (in_end inc))"
  using assms by (auto simp: plan_final_length_def outcome_iff Let_def split: if_splits)

lemma dom_resolve: "dom (resolve policy inc m) = dom (in_byte inc) \<union> dom m"
  by (auto simp: resolve_def)

text \<open>The first byte is there exactly when the header that goes with it is.\<close>

lemma header_with_first_byte:
  assumes inc: "incoming_ok inc" and old: "old_ok limits (in_key inc) existing"
    and hdr: "incoming_header_ok (in_key inc) (in_reconstruction inc)"
  shows "0 \<in> dom (resolve policy inc (content (ranges_of existing))) \<longleftrightarrow> has_header (retains existing inc e)"
proof -
  have "0 \<in> dom (content (ranges_of existing)) \<longleftrightarrow> had_header existing"
    using old by (cases existing) (simp_all add: old_ok_def datagram_ok_def had_header_def ranges_of_def)
  moreover have "0 \<in> dom (in_byte inc) \<longleftrightarrow> in_offset inc = 0"
    unfolding dom_in_byte [OF inc] using inc by (auto simp: incoming_ok_def)
  ultimately show ?thesis
    unfolding dom_resolve retained_header_of(4) [OF old_ok_ranges(2) [OF old] hdr] Un_iff by argo
qed

section \<open>Completion\<close>

definition released :: "ip_reassembler \<Rightarrow> datagram_key \<Rightarrow> ip_reassembler" where
  "released r key =
     (let existing = bt_get (ir_datagrams r) key in
      r\<lparr>ir_expiry := expiry_remove (Option.bind existing ds_deadline) key (ir_expiry r),
        ir_datagrams := bt_remove key (ir_datagrams r),
        ir_retained := (ir_retained r)\<lparr>rt_payload_bytes := rt_payload_bytes (ir_retained r) - old_unique existing,
          rt_memory_charge := rt_memory_charge (ir_retained r) - old_charge existing\<rparr>\<rparr>)"

text \<open>What a completed datagram is, given the payload bytes the reassembly collected.\<close>

definition completion_of :: "ip_push_plan \<Rightarrow> bytes \<Rightarrow> completed_datagram" where
  "completion_of p payload =
     \<lparr>cd_key = in_key (ip_incoming p), cd_bytes = rebuilt (ip_reconstruction p) payload,
      cd_fragment_count = ip_fragment_count p, cd_unique_bytes = ch_unique_bytes (ip_charges p),
      cd_final_payload_length = length payload,
      cd_duplicate_fragments = ch_duplicate_fragments (ip_charges p),
      cd_overlap_bytes = ch_overlap_bytes (ip_charges p)\<rparr>"

lemma retained_release_Ok:
  assumes "ds_unique_bytes st \<le> rt_payload_bytes rt" and "ds_memory_charge st \<le> rt_memory_charge rt"
  shows "retained_release st rt = Ok (rt\<lparr>rt_payload_bytes := rt_payload_bytes rt - ds_unique_bytes st,
    rt_memory_charge := rt_memory_charge rt - ds_memory_charge st\<rparr>)"
  using assms by (simp add: retained_release_def checked_sub_def expect_def)

lemma ip_complete_cases:
  assumes old: "old_ok (ir_limits r) (in_key (ip_incoming p)) existing"
    and plan: "ip_planned r now external existing p pre mid post sp e"
    and full: "completes (ip_merge p) (ip_final_length p)"
  obtains (rebuilt) payload where
      "ip_complete alloc p r =
        (Ok (PushCompleted (outcome_of r p) (completion_of p payload)), released r (in_key (ip_incoming p)))"
      "bytes_at 0 payload = resolve (ir_overlap_policy r) (ip_incoming p) (content (ranges_of existing))"
      "ip_final_length p = Some (length payload)" "has_header (ip_reconstruction p)"
      "header_ok (in_key (ip_incoming p)) (ip_reconstruction p)"
      "wire_length (ip_reconstruction p) (length payload) \<le> 65535"
    | (refused) n where "ip_complete alloc p r = (Err (IpResource (AllocationFailed n)), r)"
proof -
  let ?inc = "ip_incoming p" and ?rs = "ranges_of existing" and ?mp = "ip_merge p" and ?rc = "ip_reconstruction p"
  have inc: "incoming_ok ?inc" and hdr: "incoming_header_ok (in_key ?inc) (in_reconstruction ?inc)"
    and merged: "planned ?inc ?rs pre mid post ?mp" and fit: "fitting ?inc mid ?mp (ir_overlap_policy r) (ip_update p)"
    and rc: "?rc = retains existing ?inc e" and ex: "existing = bt_get (ir_datagrams r) (in_key ?inc)"
    and final: "plan_final_length existing ?inc = Ok (ip_final_length p)"
    and adm: "admitted r existing ?inc ?mp sp now external (header_len ?rc) (ip_charges p)"
    using plan by (auto simp: ip_planned_def valid_incoming_def)
  note rs = old_ok_ranges [OF old]
  have shape: "ip_final_length p = Some (mp_union_end ?mp)" "mp_result_range_count ?mp = 1" "mp_union_start ?mp = 0"
    using full by (auto simp: completes_def split: option.splits)
  obtain parts where parts: "completed_payload ?rs (ip_update p) ?inc = Ok parts"
      "length (concat parts) = mp_union_end ?mp - mp_union_start ?mp"
      "bytes_at (mp_union_start ?mp) (concat parts) = resolve (ir_overlap_policy r) ?inc (content ?rs)"
    by (rule completed_payload_eq [OF inc rs(1) merged fit shape(2)])
  have len: "length (concat parts) = mp_union_end ?mp" and bytes: "bytes_at 0 (concat parts) = resolve (ir_overlap_policy r) ?inc (content ?rs)"
    using parts(2,3) by (simp_all add: shape(3))
  have "0 < mp_union_end ?mp"
    using planned_union(3) [OF inc rs(1) merged] shape(3) by simp
  then have "0 \<in> dom (bytes_at 0 (concat parts))"
    by (simp only: dom_bytes_at len) simp
  then have has: "has_header ?rc"
    unfolding bytes rc by (rule iffD1 [OF header_with_first_byte [OF inc old hdr]])
  have ok: "header_ok (in_key ?inc) ?rc"
    unfolding rc by (rule retained_header_of(3) [OF rs(2) hdr])
  have wire: "wire_length ?rc (mp_union_end ?mp) \<le> 65535"
    using plan has unfolding rc
    by (intro wire_length_ok [OF rs(2) hdr]) (auto simp: ip_planned_def shape(1))
  have room: "ch_replacement_peak_charge (ip_charges p) + (header_len ?rc + mp_union_end ?mp) \<le> usize_max"
      "ch_replacement_peak_charge (ip_charges p) + (header_len ?rc + mp_union_end ?mp) \<le> ip_max_aggregate_bytes (ir_limits r)"
    using adm final full by (auto simp: admitted_def add.assoc)
  have length: "reconstructed_length ?rc (mp_union_end ?mp) = Ok (header_len ?rc + mp_union_end ?mp)"
    using has room by (cases ?rc) (auto simp: reconstructed_length_def checked_add_def)
  have peak: "Option.bind (checked_add (ch_replacement_peak_charge (ip_charges p)) (header_len ?rc + mp_union_end ?mp))
      (\<lambda>charge. if charge \<le> ip_max_aggregate_bytes (ir_limits r) then Some charge else None)
    = Some (ch_replacement_peak_charge (ip_charges p) + (header_len ?rc + mp_union_end ?mp))"
    using room by (simp add: checked_add_def)
  obtain rt where release: "(case existing of None \<Rightarrow> Ok (ir_retained r) | Some st \<Rightarrow> retained_release st (ir_retained r))
      = (Ok rt :: (ip_error, ip_retained) outcome)"
    and rel: "released r (in_key ?inc) = r\<lparr>ir_expiry := expiry_remove (Option.bind existing ds_deadline) (in_key ?inc) (ir_expiry r),
      ir_datagrams := bt_remove (in_key ?inc) (ir_datagrams r), ir_retained := rt\<rparr>"
    using adm unfolding released_def Let_def ex [symmetric]
    by (cases existing) (simp_all add: admitted_def old_unique_def old_charge_def retained_release_Ok)
  have "reconstruct_bytes alloc ?rc parts = Ok (rebuilt ?rc (concat parts))
    \<or> (\<exists>n. reconstruct_bytes alloc ?rc parts = Err (IpResource (AllocationFailed n)))"
    using wire by (intro reconstruct_bytes_eq(1) [OF ok has]) (simp add: len)
  then show thesis
  proof (elim disjE exE)
    assume built: "reconstruct_bytes alloc ?rc parts = Ok (rebuilt ?rc (concat parts))"
    have "ip_complete alloc p r =
        (Ok (PushCompleted (outcome_of r p) (completion_of p (concat parts))), released r (in_key ?inc))"
      unfolding ip_complete_def Let_def effect_simps outcome.case prod.case ex [symmetric] length peak parts(1) built ok_or_simps
      using release by (cases existing) (simp_all add: ex [symmetric] rel completion_of_def len reads_def)
    then show thesis
      by (rule that(1)) (simp_all only: bytes shape(1) has ok wire len [unfolded length_concat] length_concat)
  next
    fix n
    assume "reconstruct_bytes alloc ?rc parts = Err (IpResource (AllocationFailed n))"
    then have "ip_complete alloc p r = (Err (IpResource (AllocationFailed n)), r)"
      unfolding ip_complete_def Let_def effect_simps outcome.case prod.case ex [symmetric] length peak parts(1) ok_or_simps
      by (simp only: outcome.case)
    then show thesis
      by (rule that(2))
  qed
qed

section \<open>Storing\<close>

definition stored_state :: "datagram_state option \<Rightarrow> ip_push_plan \<Rightarrow> retained_range list \<Rightarrow> datagram_state" where
  "stored_state existing p ranges =
     \<lparr>ds_ranges = ranges, ds_unique_bytes = ch_unique_bytes (ip_charges p),
      ds_fragment_count = ip_fragment_count p,
      ds_duplicate_fragments = ch_duplicate_fragments (ip_charges p),
      ds_overlap_bytes = ch_overlap_bytes (ip_charges p), ds_final_length = ip_final_length p,
      ds_max_non_final_end = next_non_final_end existing (ip_incoming p),
      ds_reconstruction = ip_reconstruction p, ds_last_update = ch_last_update (ip_charges p),
      ds_deadline = ch_deadline (ip_charges p), ds_memory_charge = ch_prospective_charge (ip_charges p)\<rparr>"

definition stored :: "ip_reassembler \<Rightarrow> ip_push_plan \<Rightarrow> datagram_state \<Rightarrow> ip_reassembler" where
  "stored r p st =
     (let key = in_key (ip_incoming p); ch = ip_charges p;
          previous_deadline = Option.bind (bt_get (ir_datagrams r) key) ds_deadline in
      r\<lparr>ir_datagrams := bt_insert key st (ir_datagrams r),
        ir_expiry := (if previous_deadline \<noteq> ch_deadline ch
          then expiry_insert (ch_deadline ch) key (expiry_remove previous_deadline key (ir_expiry r)) else ir_expiry r),
        ir_retained := \<lparr>rt_payload_bytes = ch_aggregate_payload_bytes ch,
          rt_memory_charge = ch_aggregate_memory_charge ch,
          rt_datagram_slots = (if ch_new_slot_charge ch \<noteq> 0
            then saturating_add (rt_datagram_slots (ir_retained r)) 1 else rt_datagram_slots (ir_retained r))\<rparr>\<rparr>)"

lemma updated_stops:
  assumes inc: "incoming_ok inc" and rs: "ranges_ok rs" and p: "planned inc rs pre mid post mp"
    and fit: "fitting inc mid mp policy update"
    and "in_end inc \<le> limit" and "\<And>r. r \<in> set rs \<Longrightarrow> range_stop r \<le> limit"
    and "r \<in> set (updated inc pre mid post update)"
  shows "range_stop r \<le> limit"
proof -
  obtain m where m: "updated inc pre mid post update = pre @ [m] @ post" "range_stop m = mp_union_end mp"
    by (rule updated_union [OF inc rs p fit])
  have split: "rs = pre @ mid @ post"
    using p by (simp add: planned_def placement_def)
  have "mp_union_end mp \<in> insert (in_end inc) (set (map range_stop mid))"
    using p foldl_max_bounds(3) [of "in_end inc" "map range_stop mid"] by (simp add: planned_def)
  then have "range_stop m \<le> limit"
    using assms(5,6) m(2) by (auto simp: split)
  then show ?thesis
    using assms(6,7) by (auto simp: m(1) split)
qed

lemma stored_state_ok:
  assumes old: "old_ok (ir_limits r) (in_key (ip_incoming p)) existing"
    and plan: "ip_planned r now external existing p pre mid post sp e"
    and partial: "\<not> completes (ip_merge p) (ip_final_length p)"
  defines "st \<equiv> stored_state existing p (updated (ip_incoming p) pre mid post (ip_update p))"
  shows "datagram_ok (ir_limits r) (in_key (ip_incoming p)) st"
    and "content (ds_ranges st) = resolve (ir_overlap_policy r) (ip_incoming p) (content (ranges_of existing))"
proof -
  let ?inc = "ip_incoming p" and ?rs = "ranges_of existing" and ?mp = "ip_merge p" and ?rc = "ip_reconstruction p"
  let ?new = "updated ?inc pre mid post (ip_update p)" and ?limit = "max_bytes_per_datagram (ir_limits r)"
  have inc: "incoming_ok ?inc" and hdr: "incoming_header_ok (in_key ?inc) (in_reconstruction ?inc)"
    and ends: "in_end ?inc \<le> 65535" "in_end ?inc \<le> ?limit"
    and merged: "planned ?inc ?rs pre mid post ?mp" and fit: "fitting ?inc mid ?mp (ir_overlap_policy r) (ip_update p)"
    and rc: "?rc = retains existing ?inc e"
    and final: "plan_final_length existing ?inc = Ok (ip_final_length p)"
    and capacity: "capacity_sum ?new = sp_retained_payload sp"
    and counts: "1 \<le> ip_fragment_count p" "ip_fragment_count p \<le> max_fragments_per_datagram (ir_limits r)"
    and adm: "admitted r existing ?inc ?mp sp now external (header_len ?rc) (ip_charges p)"
    using plan by (auto simp: ip_planned_def valid_incoming_def)
  note rs = old_ok_ranges [OF old]
  note u = updated_ok [OF inc rs(1) merged fit]
  show content: "content (ds_ranges st) = resolve (ir_overlap_policy r) ?inc (content ?rs)"
    using u(2) by (simp add: st_def stored_state_def)
  have "?new \<noteq> []"
    by (rule updated_union [OF inc rs(1) merged fit]) simp
  moreover have "range_stop x \<le> 65535" "range_stop x \<le> ?limit" if "x \<in> set ?new" for x
    using updated_stops [OF inc rs(1) merged fit _ _ that] ends rs(3) by blast+
  moreover have "old_unique existing = card (dom (content ?rs))"
    using old by (cases existing) (simp_all add: old_ok_def old_unique_def ranges_of_def datagram_ok_def)
  then have "ch_unique_bytes (ip_charges p) = card (dom (content ?new))"
    using adm merged card_resolve [OF inc, of "content ?rs" "ir_overlap_policy r"] dom_content [of ?rs]
    by (simp add: admitted_def planned_def u(2))
  moreover have "header_ok (in_key ?inc) ?rc"
    unfolding rc by (rule retained_header_of(3) [OF rs(2) hdr])
  moreover have "0 \<in> dom (content ?new) \<longleftrightarrow> has_header ?rc"
    unfolding rc u(2) by (rule header_with_first_byte [OF inc old hdr])
  moreover have "dom (content ?new) \<subseteq> {0..<len} \<and> dom (content ?new) \<noteq> {0..<len}" if "ip_final_length p = Some len" for len
    unfolding u(2)
    using final_length_bounds [OF inc rs(1)] final that partial completes_iff [OF inc rs(1) merged fit] by metis
  ultimately show "datagram_ok (ir_limits r) (in_key ?inc) st"
    using u(1,3) adm counts capacity
    by (simp add: datagram_ok_def st_def stored_state_def admitted_def)
qed

text \<open>Writing the vector back that was there changes nothing, and a new state replaces whatever was written.\<close>

lemma write_slot_same:
  assumes "btree_ok (ir_datagrams r)"
  shows "write_slot key (ranges_of (bt_get (ir_datagrams r) key)) r = r"
proof (cases "bt_get (ir_datagrams r) key")
  case (Some st)
  then show ?thesis
    using bt_insert_same [OF assms Some] by (simp add: write_slot_def ranges_of_def)
qed (simp add: write_slot_def)

lemma write_slot_replaced:
  "btree_ok (ir_datagrams r) \<Longrightarrow> bt_insert key st (ir_datagrams (write_slot key ranges r)) = bt_insert key st (ir_datagrams r)"
  "ir_limits (write_slot key ranges r) = ir_limits r" "ir_overlap_policy (write_slot key ranges r) = ir_overlap_policy r"
  "ir_expiry (write_slot key ranges r) = ir_expiry r" "ir_retained (write_slot key ranges r) = ir_retained r"
  by (auto simp: write_slot_def bt_insert_twice split: option.splits)

lemma write_slot_ok: "btree_ok (ir_datagrams r) \<Longrightarrow> btree_ok (ir_datagrams (write_slot key ranges r))"
  by (auto simp: write_slot_def btree_ok_bt_insert split: option.splits)

lemma ip_store_cases:
  assumes old: "old_ok (ir_limits r) (in_key (ip_incoming p)) existing"
    and plan: "ip_planned r now external existing p pre mid post sp e"
    and sorted: "btree_ok (ir_datagrams r)"
  obtains (stored) "ip_store alloc p r = (Ok (PushAccepted (outcome_of r p)),
      stored r p (stored_state existing p (updated (ip_incoming p) pre mid post (ip_update p))))"
    | (refused) n where "ip_store alloc p r = (Err (IpResource (AllocationFailed n)), r)"
proof -
  let ?inc = "ip_incoming p" and ?rs = "ranges_of existing" and ?new = "updated (ip_incoming p) pre mid post (ip_update p)"
  have merged: "planned ?inc ?rs pre mid post (ip_merge p)"
    and fit: "fitting ?inc mid (ip_merge p) (ir_overlap_policy r) (ip_update p)"
    and ex: "existing = bt_get (ir_datagrams r) (in_key ?inc)"
    using plan by (auto simp: ip_planned_def)
  have "length ?rs \<le> 65535"
    using old_ok_ranges(3) [OF old] by (intro few_ranges [OF old_ok_ranges(1) [OF old]]) blast
  then have "length ?rs \<le> usize_max"
    by (simp add: usize_max_def)
  note applied = apply_range_update_eq [OF merged fit this, of alloc]
  let ?slot = "in_slot (in_key ?inc) (apply_range_update alloc (ip_update p) ?inc (ip_merge p)) r"
  consider (grown) "?slot = (Ok ?new, write_slot (in_key ?inc) ?new r)"
    | (full) "?slot = (Err (IpResource (AllocationFailed RANGE_METADATA_CHARGE)), r)"
    using write_slot_same [OF sorted, of "in_key ?inc"] applied
    unfolding in_slot_def ex [symmetric] by (cases "(\<exists>m. ip_update p = UpdateReplace m) \<and> mid = [] \<and> \<not> alloc AllocRangeSlot 1") auto
  then show thesis
  proof cases
    case grown
    show thesis
    proof (cases "existing = None \<and> \<not> alloc AllocDatagramSlot 1")
      case True
      then have "ip_store alloc p r = (Err (IpResource (AllocationFailed (ch_prospective_charge (ip_charges p)))), r)"
        unfolding ip_store_def Let_def effect_simps outcome.case prod.case ex [symmetric] by simp
      then show thesis
        by (rule that(2))
    next
      case False
      then have "ip_store alloc p r = (Ok (PushAccepted (outcome_of r p)), stored r p (stored_state existing p ?new))"
        unfolding ip_store_def Let_def effect_simps outcome.case prod.case ex [symmetric]
        using grown sorted
        by (simp add: and_then_def [of "in_slot _ _"] effect_simps)
           (simp add: reads_def stored_def stored_state_def write_slot_replaced write_slot_ok ex Let_def)
      then show thesis
        by (rule that(1))
    qed
  next
    case full
    then have "\<exists>n. ip_store alloc p r = (Err (IpResource (AllocationFailed n)), r)"
      unfolding ip_store_def Let_def effect_simps outcome.case prod.case ex [symmetric]
      by (simp add: and_then_def [of "in_slot _ _"] ensure_def)
    then show thesis
      using that(2) by blast
  qed
qed

end
