(* ===== verification/Ip_Table.thy ===== *)
theory Ip_Table
  imports Ip_Commit
begin

text \<open>
  The invariant of the IP reassembler: its two aggregates are the sums over the retained datagrams,
  the slot count is the high-water mark of the table, and the expiry index holds exactly the
  deadlines of the table. Every push keeps it.
\<close>

section \<open>The invariant\<close>

definition accounted :: "(datagram_key, datagram_state) btree \<Rightarrow> ip_retained \<Rightarrow> bool" where
  "accounted table rt \<longleftrightarrow>
     rt_payload_bytes rt = map_total ds_unique_bytes (bt_get table)
     \<and> rt_memory_charge rt = map_total ds_memory_charge (bt_get table) + DATAGRAM_METADATA_CHARGE * rt_datagram_slots rt"

definition ip_ok :: "ip_limits \<Rightarrow> overlap_policy \<Rightarrow> ip_reassembler \<Rightarrow> bool" where
  "ip_ok limits policy r \<longleftrightarrow> ir_limits r = limits \<and> ir_overlap_policy r = policy
     \<and> btree_ok (ir_datagrams r) \<and> table_datagrams_ok r \<and> accounted (ir_datagrams r) (ir_retained r)
     \<and> length (ir_datagrams r) \<le> rt_datagram_slots (ir_retained r)
     \<and> rt_datagram_slots (ir_retained r) \<le> max_datagrams limits
     \<and> rt_memory_charge (ir_retained r) \<le> ip_max_aggregate_bytes limits
     \<and> rt_payload_bytes (ir_retained r) \<le> ip_max_aggregate_bytes limits
     \<and> btree_ok (ir_expiry r) \<and> mirrors (expiry_entries (ir_expiry r)) (bt_get (ir_datagrams r)) ds_deadline"

lemma old_totals:
  assumes "btree_ok table"
  shows "map_total ds_unique_bytes (bt_get table)
      = map_total ds_unique_bytes (bt_get (bt_remove key table)) + old_unique (bt_get table key)"
    and "map_total ds_memory_charge (bt_get table)
      = map_total ds_memory_charge (bt_get (bt_remove key table)) + old_charge (bt_get table key)"
  using btree.total_del [OF assms] by (simp_all add: old_unique_def old_charge_def)

lemma released_accounted:
  assumes "btree_ok table" and "accounted table rt"
  shows "accounted (bt_remove key table) (rt\<lparr>rt_payload_bytes := rt_payload_bytes rt - old_unique (bt_get table key),
      rt_memory_charge := rt_memory_charge rt - old_charge (bt_get table key)\<rparr>)"
    and "old_unique (bt_get table key) \<le> rt_payload_bytes rt" and "old_charge (bt_get table key) \<le> rt_memory_charge rt"
  using assms old_totals [OF assms(1), of key] by (simp_all add: accounted_def)

lemma released_ok:
  assumes ok: "ip_ok limits policy r"
  shows "ip_ok limits policy (released r key)"
    and "bt_get (ir_datagrams (released r key)) = (bt_get (ir_datagrams r))(key := None)"
proof -
  have bt: "btree_ok (ir_datagrams r)" "btree_ok (ir_expiry r)" and acc: "accounted (ir_datagrams r) (ir_retained r)"
    and mirror: "mirrors (expiry_entries (ir_expiry r)) (bt_get (ir_datagrams r)) ds_deadline"
    and good: "table_datagrams_ok r"
    using ok by (simp_all add: ip_ok_def)
  show get: "bt_get (ir_datagrams (released r key)) = (bt_get (ir_datagrams r))(key := None)"
    using bt(1) by (simp add: released_def Let_def btree.get_del)
  have "table_datagrams_ok (released r key)"
    using good unfolding table_datagrams_ok_def get by (simp add: released_def Let_def)
  moreover have "length (bt_remove key (ir_datagrams r)) \<le> length (ir_datagrams r)"
    by (simp add: bt_remove_def)
  moreover have "mirrors (expiry_entries (ir_expiry (released r key))) (bt_get (ir_datagrams (released r key))) ds_deadline"
    unfolding get using expiry.mirrors_drop [OF bt(2) mirror refl] by (simp add: released_def Let_def)
  ultimately show "ip_ok limits policy (released r key)"
    using ok released_accounted(1) [OF bt(1) acc, of key] bt expiry.ok_remove [OF bt(2)]
    by (simp add: ip_ok_def released_def Let_def btree.ok_del) (meson diff_le_self le_trans)
qed

lemma stored_ok:
  assumes ok: "ip_ok limits policy r"
    and plan: "ip_planned r now external existing p pre mid post sp e"
    and good: "datagram_ok limits (in_key (ip_incoming p)) st"
    and st: "ds_unique_bytes st = ch_unique_bytes (ip_charges p)" "ds_memory_charge st = ch_prospective_charge (ip_charges p)"
      "ds_deadline st = ch_deadline (ip_charges p)"
  shows "ip_ok limits policy (stored r p st)"
    and "bt_get (ir_datagrams (stored r p st)) = (bt_get (ir_datagrams r))(in_key (ip_incoming p) \<mapsto> st)"
proof -
  let ?key = "in_key (ip_incoming p)" and ?rt = "ir_retained r" and ?ch = "ip_charges p"
  have bt: "btree_ok (ir_datagrams r)" "btree_ok (ir_expiry r)" and acc: "accounted (ir_datagrams r) ?rt"
    and mirror: "mirrors (expiry_entries (ir_expiry r)) (bt_get (ir_datagrams r)) ds_deadline"
    and old: "table_datagrams_ok r" and limits: "ir_limits r = limits"
    and slots: "length (ir_datagrams r) \<le> rt_datagram_slots ?rt" "rt_datagram_slots ?rt \<le> max_datagrams limits"
    using ok by (simp_all add: ip_ok_def)
  have ex: "existing = bt_get (ir_datagrams r) ?key"
    and room: "existing = None \<Longrightarrow> length (ir_datagrams r) < max_datagrams limits"
    and adm: "admitted r existing (ip_incoming p) (ip_merge p) sp now external (header_len (ip_reconstruction p)) ?ch"
    using plan limits by (auto simp: ip_planned_def)
  show get: "bt_get (ir_datagrams (stored r p st)) = (bt_get (ir_datagrams r))(?key \<mapsto> st)"
    using bt(1) by (simp add: stored_def Let_def btree.get_put)
  have table: "table_datagrams_ok (stored r p st)"
    using old good limits unfolding table_datagrams_ok_def get by (auto simp: stored_def Let_def)
  have index: "mirrors (expiry_entries (ir_expiry (stored r p st))) (bt_get (ir_datagrams (stored r p st))) ds_deadline"
    unfolding get using expiry.mirrors_store [OF bt(2) mirror refl, where k = ?key and s = st]
      expiry.mirrors_store_same [OF mirror, where k = ?key and s = st] st(3) by (simp add: stored_def Let_def)
  have index_ok: "btree_ok (ir_expiry (stored r p st))"
    using bt(2) by (simp add: stored_def Let_def expiry.ok_insert expiry.ok_remove)
  have totals: "map_total ds_unique_bytes (bt_get (ir_datagrams (stored r p st)))
      = map_total ds_unique_bytes (bt_get (bt_remove ?key (ir_datagrams r))) + ch_unique_bytes ?ch"
    "map_total ds_memory_charge (bt_get (ir_datagrams (stored r p st)))
      = map_total ds_memory_charge (bt_get (bt_remove ?key (ir_datagrams r))) + ch_prospective_charge ?ch"
    using btree.total_put [OF bt(1), of _ ?key st] st by (simp_all add: stored_def Let_def)
  note parts = old_totals [OF bt(1), of ?key, folded ex]
  have rt: "rt_payload_bytes ?rt = map_total ds_unique_bytes (bt_get (ir_datagrams r))"
    "rt_memory_charge ?rt = map_total ds_memory_charge (bt_get (ir_datagrams r)) + DATAGRAM_METADATA_CHARGE * rt_datagram_slots ?rt"
    using acc by (simp_all add: accounted_def)
  have new: "ch_aggregate_payload_bytes ?ch = rt_payload_bytes ?rt - old_unique existing + ch_unique_bytes ?ch"
    "ch_aggregate_memory_charge ?ch = rt_memory_charge ?rt - old_charge existing + ch_prospective_charge ?ch + slot_charge r existing"
    "ch_new_slot_charge ?ch = slot_charge r existing"
    "ch_aggregate_memory_charge ?ch \<le> usize_max" "ch_aggregate_memory_charge ?ch \<le> ip_max_aggregate_bytes limits"
    "ch_aggregate_payload_bytes ?ch \<le> ip_max_aggregate_bytes limits"
    using adm unfolding admitted_def limits by (elim conjE, linarith)+
  have fields: "ir_retained (stored r p st) = \<lparr>rt_payload_bytes = ch_aggregate_payload_bytes ?ch,
      rt_memory_charge = ch_aggregate_memory_charge ?ch,
      rt_datagram_slots = (if slot_charge r existing \<noteq> 0 then saturating_add (rt_datagram_slots ?rt) 1 else rt_datagram_slots ?rt)\<rparr>"
    by (simp add: stored_def Let_def new(3))
  show "ip_ok limits policy (stored r p st)"
  proof (cases "slot_charge r existing = 0")
    case True
    then have "existing = None \<Longrightarrow> length (ir_datagrams r) < rt_datagram_slots ?rt"
      by (simp add: slot_charge_def DATAGRAM_METADATA_CHARGE_def split: if_splits)
    then have "length (bt_insert ?key st (ir_datagrams r)) \<le> rt_datagram_slots ?rt"
      using slots(1) ex by (auto simp: btree.count_put [OF bt(1)])
    moreover have "accounted (ir_datagrams (stored r p st)) (ir_retained (stored r p st))"
      using True totals parts rt new by (simp add: accounted_def fields)
    ultimately show ?thesis
      using ok table index index_ok new(5,6) True slots btree.ok_put [OF bt(1)] fields
      by (simp add: ip_ok_def) (simp add: stored_def Let_def)
  next
    case False
    then have slot: "slot_charge r existing = DATAGRAM_METADATA_CHARGE" "existing = None"
        "rt_datagram_slots ?rt = length (ir_datagrams r)"
      using slots(1) by (auto simp: slot_charge_def split: if_splits)
    have "rt_datagram_slots ?rt + 1 \<le> usize_max"
      using new(2,4) rt(2) parts(2) slot(1) by (simp add: DATAGRAM_METADATA_CHARGE_def)
    then have next_slot: "saturating_add (rt_datagram_slots ?rt) 1 = rt_datagram_slots ?rt + 1"
      by (simp add: saturating_add_def)
    have "length (bt_insert ?key st (ir_datagrams r)) \<le> rt_datagram_slots ?rt + 1" "rt_datagram_slots ?rt + 1 \<le> max_datagrams limits"
      using slots room slot by (auto simp: btree.count_put [OF bt(1)])
    moreover have "accounted (ir_datagrams (stored r p st)) (ir_retained (stored r p st))"
      using slot False totals parts rt new next_slot by (simp add: accounted_def fields)
    ultimately show ?thesis
      using ok table index index_ok new(5,6) False btree.ok_put [OF bt(1)] fields next_slot
      by (simp add: ip_ok_def) (simp add: stored_def Let_def)
  qed
qed

end
