(* ===== verification/Ip_Retire.thy ===== *)
theory Ip_Retire
  imports Ip_Table "HOL-Library.Multiset"
begin

text \<open>
  Retiring datagrams: expiry removes exactly the datagrams whose deadline has passed, in the order of
  their deadlines, and \<open>flush\<close> removes all of them and reports those with the smallest keys, whatever
  the order in which the table is visited.
\<close>

section \<open>Reporting with a bound\<close>

definition omitted_count :: "family \<Rightarrow> incomplete_datagram list \<Rightarrow> nat" where
  "omitted_count fam ds = min usize_max (length (filter (\<lambda>d. incomplete_family d = fam) ds))"

definition reported :: "nat \<Rightarrow> incomplete_datagram list \<Rightarrow> retired_datagrams" where
  "reported limit ds =
     \<lparr>rd_outcomes = take limit ds, rd_omitted_ipv4 = omitted_count Ipv4 (drop limit ds),
      rd_omitted_ipv6 = omitted_count Ipv6 (drop limit ds)\<rparr>"

lemma reported_snoc: "retired_push limit d (reported limit ds) = reported limit (ds @ [d])"
  by (cases "incomplete_family d")
    (auto simp: retired_push_def reported_def retired_omit_def omitted_count_def saturating_add_def)

lemma fold_retired_push: "fold (retired_push limit) ds (reported limit ds0) = reported limit (ds0 @ ds)"
  by (induction ds arbitrary: ds0) (simp_all add: reported_snoc)

lemma reported_Nil: "reported limit [] = retired_default"
  by (simp add: reported_def retired_default_def omitted_count_def)

section \<open>Expiry\<close>

definition farewell_of :: "incomplete_reason \<Rightarrow> (datagram_key, datagram_state) btree \<Rightarrow> datagram_key \<Rightarrow> incomplete_datagram" where
  "farewell_of reason table key = incomplete_of key (the (bt_get table key)) reason"

lemma release_step:
  assumes "btree_ok table" and "accounted table rt" and "bt_get table key = Some st"
  obtains rt' where "retained_release st rt = (Ok rt' :: ('e, ip_retained) outcome)" and "accounted (bt_remove key table) rt'"
    and "rt_datagram_slots rt' = rt_datagram_slots rt" and "rt_memory_charge rt' \<le> rt_memory_charge rt"
    and "rt_payload_bytes rt' \<le> rt_payload_bytes rt"
  using released_accounted [OF assms(1,2), of key] retained_release_Ok [of st rt] assms(3)
  by (auto simp: old_unique_def old_charge_def intro!: that)

lemma expire_all:
  assumes "btree_ok table" and "accounted table rt" and "distinct ks" and "set ks \<subseteq> dom (bt_get table)"
  shows "\<exists>table' rt'. for_each (expire_one limit) ks (table, rt, rd)
      = (Ok (table', rt', fold (retired_push limit) (map (farewell_of IdleExpired table) ks) rd) :: ('e, _) outcome)
    \<and> btree_ok table' \<and> bt_get table' = (bt_get table) |` (- set ks) \<and> accounted table' rt'
    \<and> rt_datagram_slots rt' = rt_datagram_slots rt \<and> rt_memory_charge rt' \<le> rt_memory_charge rt
    \<and> rt_payload_bytes rt' \<le> rt_payload_bytes rt"
  using assms
proof (induction ks arbitrary: table rt rd)
  case Nil
  then show ?case
    by simp
next
  case (Cons k ks)
  obtain st where st: "bt_get table k = Some st"
    using Cons.prems(4) by auto
  obtain rt1 where rt1: "retained_release st rt = (Ok rt1 :: ('e, ip_retained) outcome)" "accounted (bt_remove k table) rt1"
      "rt_datagram_slots rt1 = rt_datagram_slots rt" "rt_memory_charge rt1 \<le> rt_memory_charge rt"
      "rt_payload_bytes rt1 \<le> rt_payload_bytes rt"
    by (rule release_step [OF Cons.prems(1,2) st])
  have step: "expire_one limit k (table, rt, rd)
      = (Ok (bt_remove k table, rt1, retired_push limit (farewell_of IdleExpired table k) rd) :: ('e, _) outcome)"
    by (simp add: expire_one_def st rt1(1) farewell_of_def)
  have get: "bt_get (bt_remove k table) = (bt_get table)(k := None)"
    by (rule btree.get_del [OF Cons.prems(1)])
  have same: "map (farewell_of IdleExpired (bt_remove k table)) ks = map (farewell_of IdleExpired table) ks"
    using Cons.prems(3) by (auto simp: farewell_of_def get)
  have sub: "set ks \<subseteq> dom (bt_get (bt_remove k table))"
    using Cons.prems(3,4) by (auto simp: get)
  have restrict: "(bt_get (bt_remove k table)) |` (- set ks) = (bt_get table) |` (- set (k # ks))"
    by (auto simp: get restrict_map_def fun_eq_iff)
  from Cons.IH [OF btree.ok_del [OF Cons.prems(1)] rt1(2) _ sub, of "retired_push limit (farewell_of IdleExpired table k) rd"] Cons.prems(3)
  obtain table' rt' where "for_each (expire_one limit) ks
        (bt_remove k table, rt1, retired_push limit (farewell_of IdleExpired table k) rd)
      = (Ok (table', rt', fold (retired_push limit) (map (farewell_of IdleExpired table) ks)
          (retired_push limit (farewell_of IdleExpired table k) rd)) :: ('e, _) outcome)"
    "btree_ok table'" "bt_get table' = (bt_get table) |` (- set (k # ks))" "accounted table' rt'"
    "rt_datagram_slots rt' = rt_datagram_slots rt1" "rt_memory_charge rt' \<le> rt_memory_charge rt1"
    "rt_payload_bytes rt' \<le> rt_payload_bytes rt1"
    unfolding same restrict by auto
  then show ?case
    using rt1 step by (intro exI [of _ table'] exI [of _ rt']) simp
qed

text \<open>The datagrams past their deadline, in the order of the expiry index.\<close>

definition due :: "instant \<Rightarrow> ip_reassembler \<Rightarrow> (instant \<times> datagram_key) set" where
  "due now r = {(d, k). d \<le> now \<and> (\<exists>st. bt_get (ir_datagrams r) k = Some st \<and> ds_deadline st = Some d)}"

definition due_keys :: "instant \<Rightarrow> ip_reassembler \<Rightarrow> datagram_key list" where
  "due_keys now r = map snd (sorted_list_of_set (due now r))"

lemma drained_keys:
  assumes ok: "ip_ok limits policy r" and drain: "drain_expired now (ir_expiry r) = (ks, rest)"
  shows "ks = due_keys now r" and "distinct ks" and "set ks = snd ` due now r"
proof -
  have bt: "btree_ok (ir_expiry r)"
    and mirror: "mirrors (expiry_entries (ir_expiry r)) (bt_get (ir_datagrams r)) ds_deadline"
    using ok by (simp_all add: ip_ok_def)
  obtain gone where g: "ir_expiry r = gone @ rest" "ks = map (snd \<circ> fst) gone" "\<forall>e\<in>set gone. fst (fst e) \<le> now"
    using drain_expired_split [OF drain] by blast
  have sorted: "sorted_wrt (<) (map fst gone)"
    using bt g(1) by (simp add: btree_ok_def sorted_wrt_append)
  have "expiry_entries (ir_expiry r) = fst ` set gone \<union> expiry_entries rest"
    by (auto simp: g(1) expiry_entries_def)
  moreover have "\<forall>e\<in>expiry_entries rest. now < fst e"
    using drain_expired_entries(2) [OF bt drain] by auto
  ultimately have "fst ` set gone = {e \<in> expiry_entries (ir_expiry r). fst e \<le> now}"
    using g(3) by (auto dest: leD)
  also have "\<dots> = due now r"
    using mirror by (auto simp: due_def mirrors_def)
  finally have gone: "fst ` set gone = due now r" .
  have "sorted_list_of_set (due now r) = map fst gone"
    using sorted sorted_list_of_set.idem_if_sorted_distinct [of "map fst gone"] gone
    by (simp add: strict_sorted_iff)
  then show ks: "ks = due_keys now r"
    by (simp add: due_keys_def g(2))
  have "inj_on snd (due now r)"
    by (auto simp: inj_on_def due_def)
  then show "distinct ks"
    unfolding ks due_keys_def using finite_imageI [of "set gone" fst]
    by (simp add: distinct_map gone)
  show "set ks = snd ` due now r"
    using gone [symmetric] by (simp add: g(2) image_comp)
qed

lemma ip_expire_ok:
  assumes ok: "ip_ok limits policy r"
  obtains r' where "ip_expire now r = (Ok (reported (max_retained_outcomes limits)
      (map (farewell_of IdleExpired (ir_datagrams r)) (due_keys now r)), r') :: ('e, _) outcome)"
    and "ip_ok limits policy r'"
    and "bt_get (ir_datagrams r') = (bt_get (ir_datagrams r)) |` (- snd ` due now r)"
    and "rt_datagram_slots (ir_retained r') = rt_datagram_slots (ir_retained r)"
proof -
  obtain ks rest where drain: "drain_expired now (ir_expiry r) = (ks, rest)"
    by fastforce
  note keys = drained_keys [OF ok drain]
  have bt: "btree_ok (ir_datagrams r)" "btree_ok (ir_expiry r)" and acc: "accounted (ir_datagrams r) (ir_retained r)"
    and mirror: "mirrors (expiry_entries (ir_expiry r)) (bt_get (ir_datagrams r)) ds_deadline"
    and limits: "ir_limits r = limits"
    using ok by (simp_all add: ip_ok_def)
  have sub: "set ks \<subseteq> dom (bt_get (ir_datagrams r))"
    unfolding keys(3) by (auto simp: due_def)
  from expire_all [OF bt(1) acc keys(2) sub, of "max_retained_outcomes limits" retired_default]
  obtain table' rt' where run: "for_each (expire_one (max_retained_outcomes limits)) ks
        (ir_datagrams r, ir_retained r, retired_default)
      = (Ok (table', rt', reported (max_retained_outcomes limits) (map (farewell_of IdleExpired (ir_datagrams r)) ks)) :: ('e, _) outcome)"
    and t: "btree_ok table'" "bt_get table' = (bt_get (ir_datagrams r)) |` (- set ks)" "accounted table' rt'"
      "rt_datagram_slots rt' = rt_datagram_slots (ir_retained r)"
      "rt_memory_charge rt' \<le> rt_memory_charge (ir_retained r)" "rt_payload_bytes rt' \<le> rt_payload_bytes (ir_retained r)"
    unfolding reported_Nil [symmetric, of "max_retained_outcomes limits"] fold_retired_push append_Nil by blast
  let ?r' = "r\<lparr>ir_expiry := rest, ir_datagrams := table', ir_retained := rt'\<rparr>"
  have "dom (bt_get table') \<subseteq> dom (bt_get (ir_datagrams r))"
    by (auto simp: t(2))
  then have "length table' \<le> length (ir_datagrams r)"
    unfolding btree.count_dom [OF t(1)] btree.count_dom [OF bt(1)] by (intro card_mono btree.finite_dom)
  moreover have "table_datagrams_ok ?r'"
    using ok by (auto simp: ip_ok_def table_datagrams_ok_def t(2) restrict_map_def split: if_splits)
  moreover have "btree_ok rest"
    by (rule expiry.ok_drain [OF bt(2) drain])
  ultimately have "ip_ok limits policy ?r'"
    using ok t expiry.mirrors_drain(2) [OF bt(2) mirror drain] by (simp add: ip_ok_def)
  then show thesis
    using run t(2,4) by (intro that [of ?r']) (simp_all add: ip_expire_def drain limits keys(1,3) [symmetric])
qed

section \<open>Flush\<close>

lemma take_insort_less:
  assumes "sorted s" and "n < length s" and "k < s ! n"
  shows "take (Suc n) (insort k s) = insort k (take n s)"
  using assms
proof (induction s arbitrary: n)
  case (Cons y s)
  then show ?case
    by (cases n) auto
qed simp

lemma take_insort_not_less:
  assumes "sorted s" and "n < length s" and "\<not> k < s ! n"
  shows "take (Suc n) (insort k s) = take (Suc n) s"
  using assms
proof (induction s arbitrary: n)
  case (Cons y s)
  show ?case
  proof (cases n)
    case 0
    then show ?thesis
      using Cons.prems by auto
  next
    case (Suc m)
    then have IH: "take (Suc m) (insort k s) = take (Suc m) s"
      using Cons by simp
    show ?thesis
    proof (cases "k \<le> y")
      case True
      have "y \<le> s ! m" "s ! m \<le> k"
        using Cons.prems Suc by (simp_all add: not_less)
      then have "k = y"
        using True by simp
      then have "insort k s = k # s"
        using Cons.prems(1) by (intro insort_is_Cons) simp
      then show ?thesis
        using IH Suc \<open>k = y\<close> by simp
    qed (use IH Suc in simp)
  qed
qed simp

lemma keep_smallest_insort:
  assumes "sorted s"
  shows "keep_smallest limit k (take limit s) = take limit (insort k s)"
proof (cases "length s < limit")
  case True
  then show ?thesis
    by (simp add: keep_smallest_def)
next
  case False
  show ?thesis
  proof (cases limit)
    case 0
    then show ?thesis
      by (simp add: keep_smallest_def)
  next
    case (Suc n)
    then have n: "n < length s"
      using False by simp
    then have "take (Suc n) s = take n s @ [s ! n]"
      by (rule take_Suc_conv_app_nth)
    then show ?thesis
      using Suc n take_insort_less [OF assms n, of k] take_insort_not_less [OF assms n, of k]
      by (auto simp: keep_smallest_def)
  qed
qed

lemma keep_smallest_all: "sorted s \<Longrightarrow> fold (keep_smallest limit) ks (take limit s) = take limit (fold insort ks s)"
  by (induction ks arbitrary: s) (simp_all add: keep_smallest_insort sorted_insort)

lemma fold_insort_sort: "fold insort ks [] = sort (ks :: 'a::linorder list)"
proof -
  have "sorted (fold insort ks s) \<and> mset (fold insort ks s) = mset ks + mset s" if "sorted s" for s
    using that by (induction ks arbitrary: s) (simp_all add: sorted_insort)
  from this [of "[]"] show ?thesis
    by (metis add.right_neutral mset.simps(1) properties_for_sort sorted_wrt.simps(1))
qed

definition ending :: "datagram_key \<times> datagram_state \<Rightarrow> incomplete_datagram" where
  "ending entry = incomplete_of (fst entry) (snd entry) EndOfCapture"

lemma flush_all:
  assumes "btree_ok (xs @ ys)" and "accounted (xs @ ys) rt"
  shows "\<exists>rt'. for_each flush_retained (map fst xs) (xs @ ys, rt, rd)
      = (Ok (ys, rt', rd\<lparr>rd_outcomes := rd_outcomes rd @ map ending xs\<rparr>) :: ('e, _) outcome)
    \<and> accounted ys rt' \<and> rt_datagram_slots rt' = rt_datagram_slots rt"
  using assms
proof (induction xs arbitrary: rt rd)
  case Nil
  then show ?case
    by simp
next
  case (Cons x xs)
  obtain k st where x: "x = (k, st)"
    by fastforce
  have tail: "btree_ok (xs @ ys)" and st: "bt_get (x # xs @ ys) k = Some st"
    using Cons.prems(1) by (simp_all add: x btree_ok_Cons bt_get_def)
  have rest: "bt_remove k (x # xs @ ys) = xs @ ys"
    unfolding bt_remove_def x using Cons.prems(1)
    by (simp add: x btree_ok_Cons filter_id_conv del: filter_append) auto
  obtain rt1 where rt1: "retained_release st rt = (Ok rt1 :: ('e, ip_retained) outcome)" "accounted (xs @ ys) rt1"
      "rt_datagram_slots rt1 = rt_datagram_slots rt"
    using release_step [of "x # xs @ ys" rt k st] Cons.prems st unfolding rest by auto
  let ?rd = "rd\<lparr>rd_outcomes := rd_outcomes rd @ [ending x]\<rparr>"
  have "flush_retained k (x # xs @ ys, rt, rd) = (Ok (xs @ ys, rt1, ?rd) :: ('e, _) outcome)"
    unfolding flush_retained_def Let_def prod.case st option.case rt1(1) rest let_ok.simps by (simp add: ending_def x)
  then show ?case
    using Cons.IH [OF tail rt1(2), of ?rd] rt1(3) by (simp add: x)
qed

lemma omit_all:
  assumes "(\<Sum>(k, st)\<leftarrow>es. ds_unique_bytes st) \<le> rt_payload_bytes rt"
    and "(\<Sum>(k, st)\<leftarrow>es. ds_memory_charge st) \<le> rt_memory_charge rt"
  shows "for_each flush_omitted es (rt, rd) =
    (Ok (rt\<lparr>rt_payload_bytes := rt_payload_bytes rt - (\<Sum>(k, st)\<leftarrow>es. ds_unique_bytes st),
            rt_memory_charge := rt_memory_charge rt - (\<Sum>(k, st)\<leftarrow>es. ds_memory_charge st)\<rparr>,
        fold (retired_omit \<circ> incomplete_family) (map ending es) rd) :: ('e, _) outcome)"
  using assms
proof (induction es arbitrary: rt rd)
  case (Cons e es)
  obtain k st where e: "e = (k, st)"
    by fastforce
  let ?rt = "rt\<lparr>rt_payload_bytes := rt_payload_bytes rt - ds_unique_bytes st,
    rt_memory_charge := rt_memory_charge rt - ds_memory_charge st\<rparr>"
  have "incomplete_family (ending e) = datagram_key_family k"
    by (simp add: incomplete_family_def ending_def incomplete_of_def e)
  moreover have "retained_release st rt = (Ok ?rt :: ('e, _) outcome)"
    using Cons.prems by (intro retained_release_Ok) (simp_all add: e)
  ultimately have "flush_omitted e (rt, rd) = (Ok (?rt, retired_omit (incomplete_family (ending e)) rd) :: ('e, _) outcome)"
    by (simp add: flush_omitted_def e)
  then show ?case
    using Cons.IH [of ?rt] Cons.prems by (simp add: e)
qed simp

lemma fold_retired_omit:
  "fold (retired_omit \<circ> incomplete_family) ds rd = rd\<lparr>rd_omitted_ipv4 := min usize_max (rd_omitted_ipv4 rd + length (filter (\<lambda>d. incomplete_family d = Ipv4) ds)),
     rd_omitted_ipv6 := min usize_max (rd_omitted_ipv6 rd + length (filter (\<lambda>d. incomplete_family d = Ipv6) ds))\<rparr>"
  if "rd_omitted_ipv4 rd \<le> usize_max" and "rd_omitted_ipv6 rd \<le> usize_max"
  using that
proof (induction ds arbitrary: rd)
  case (Cons d ds)
  then show ?case
    by (cases "incomplete_family d") (simp_all add: retired_omit_def saturating_add_def min_def)
qed (simp add: min_def)

text \<open>Whatever the order of the visits, the first keys in key order are reported and the rest counted.\<close>

lemma ip_flush_ok:
  assumes ok: "ip_ok limits policy r" and visits: "\<And>table. mset (visit table) = mset table"
  obtains r' where "ip_flush visit r = (Ok (reported (max_retained_outcomes limits) (map ending (ir_datagrams r)), r') :: ('e, _) outcome)"
    and "ip_ok limits policy r'" and "ir_datagrams r' = []" and "rt_payload_bytes (ir_retained r') = 0"
    and "rt_memory_charge (ir_retained r') = DATAGRAM_METADATA_CHARGE * rt_datagram_slots (ir_retained r)"
proof -
  let ?table = "ir_datagrams r" and ?rt = "ir_retained r"
  define n where "n = min (max_retained_outcomes limits) (length ?table)"
  define xs ys where "xs = take n ?table" and "ys = drop n ?table"
  have split: "?table = xs @ ys"
    by (simp add: xs_def ys_def)
  have bt: "btree_ok (xs @ ys)" and acc: "accounted (xs @ ys) ?rt" and limits: "ir_limits r = limits"
    using ok by (simp_all add: ip_ok_def split)
  have "sort (map fst (visit ?table)) = map fst ?table"
  proof (rule properties_for_sort)
    show "mset (map fst ?table) = mset (map fst (visit ?table))"
      by (simp only: mset_map visits)
    show "sorted (map fst ?table)"
      using bt unfolding split btree_ok_def by (rule strict_sorted_imp_sorted)
  qed
  then have keys: "fold (keep_smallest n) (map fst (visit ?table)) [] = map fst xs"
    using keep_smallest_all [of "[]" n "map fst (visit ?table)"] by (simp add: fold_insort_sort xs_def take_map)
  obtain rt1 where first: "for_each flush_retained (map fst xs) (?table, ?rt, retired_default)
      = (Ok (ys, rt1, retired_default\<lparr>rd_outcomes := map ending xs\<rparr>) :: ('e, _) outcome)"
    and rt1: "accounted ys rt1" "rt_datagram_slots rt1 = rt_datagram_slots ?rt"
    using flush_all [OF bt acc, of retired_default] by (auto simp: split retired_default_def)
  have bt': "btree_ok ys"
    using bt by (simp add: btree_ok_append)
  have perm: "sum_list (map f (visit ys)) = sum_list (map f ys)" for f :: "datagram_key \<times> datagram_state \<Rightarrow> nat"
    using visits [of ys] by (metis mset_map sum_mset_sum_list)
  have counts: "length (filter (P \<circ> ending) (visit ys)) = length (filter (P \<circ> ending) ys)" for P
    using visits [of ys] by (metis mset_filter size_mset)
  let ?rt' = "rt1\<lparr>rt_payload_bytes := 0, rt_memory_charge := DATAGRAM_METADATA_CHARGE * rt_datagram_slots ?rt\<rparr>"
  have second: "for_each flush_omitted (visit ys) (rt1, retired_default\<lparr>rd_outcomes := map ending xs\<rparr>)
      = (Ok (?rt', reported (max_retained_outcomes limits) (map ending ?table)) :: ('e, _) outcome)"
  proof -
    have "for_each flush_omitted (visit ys) (rt1, retired_default\<lparr>rd_outcomes := map ending xs\<rparr>)
      = (Ok (?rt', fold (retired_omit \<circ> incomplete_family) (map ending (visit ys)) (retired_default\<lparr>rd_outcomes := map ending xs\<rparr>)) :: ('e, _) outcome)"
      using rt1 by (subst omit_all) (simp_all add: perm accounted_def map_total_bt_get [OF bt'])
    moreover have "min (max_retained_outcomes limits) (length ?table) = n" "take (max_retained_outcomes limits) ?table = xs"
        "drop (max_retained_outcomes limits) ?table = ys"
      by (auto simp: n_def xs_def ys_def min_def)
    ultimately show ?thesis
      by (simp add: reported_def omitted_count_def retired_default_def take_map drop_map fold_retired_omit counts)
  qed
  let ?r' = "r\<lparr>ir_datagrams := [], ir_expiry := [], ir_retained := ?rt'\<rparr>"
  have "ip_flush visit r = (Ok (reported (max_retained_outcomes limits) (map ending ?table), ?r') :: ('e, _) outcome)"
    unfolding ip_flush_def Let_def limits n_def [symmetric] keys first let_ok.simps prod.case second ..
  moreover have "ip_ok limits policy ?r'"
    using ok rt1(2) by (auto simp: ip_ok_def accounted_def table_datagrams_ok_def btree.total_emp btree.get_emp)
  ultimately show thesis
    by (intro that [of ?r']) simp_all
qed

end
