(* ===== verification/Ip_Reach.thy ===== *)
theory Ip_Reach
  imports Ip_Retire
begin

text \<open>
  Every push from a well-formed table, by its outcome, and the states a client can reach.
\<close>

section \<open>The outcomes of a push\<close>

definition retained_of :: "ip_reassembler \<Rightarrow> datagram_key \<Rightarrow> nat \<rightharpoonup> u8" where
  "retained_of r key = content (ranges_of (bt_get (ir_datagrams r) key))"

definition final_of :: "ip_reassembler \<Rightarrow> datagram_key \<Rightarrow> usize option" where
  "final_of r key = Option.bind (bt_get (ir_datagrams r) key) ds_final_length"

text \<open>The final length once a fragment has arrived.\<close>

definition final_with :: "usize option \<Rightarrow> incoming \<Rightarrow> usize option" where
  "final_with old inc = (if in_more_fragments inc then old else Some (in_end inc))"

definition kept_datagram ::
    "ip_limits \<Rightarrow> overlap_policy \<Rightarrow> ip_reassembler \<Rightarrow> incoming \<Rightarrow> ecn \<Rightarrow> datagram_state \<Rightarrow> bool" where
  "kept_datagram limits policy r inc e st \<longleftrightarrow> datagram_ok limits (in_key inc) st
     \<and> content (ds_ranges st) = resolve policy inc (retained_of r (in_key inc))
     \<and> ds_final_length st = final_with (final_of r (in_key inc)) inc
     \<and> ds_reconstruction st = retains (bt_get (ir_datagrams r) (in_key inc)) inc e
     \<and> accumulated_ecn (bt_get (ir_datagrams r) (in_key inc)) inc = Ok e
     \<and> (policy = Reject \<longrightarrow> conflicts inc (retained_of r (in_key inc)) = {})"

definition whole_datagram ::
    "overlap_policy \<Rightarrow> ip_reassembler \<Rightarrow> incoming \<Rightarrow> ecn \<Rightarrow> bytes \<Rightarrow> completed_datagram \<Rightarrow> bool" where
  "whole_datagram policy r inc e payload d \<longleftrightarrow>
     (let rc = retains (bt_get (ir_datagrams r) (in_key inc)) inc e in
      bytes_at 0 payload = resolve policy inc (retained_of r (in_key inc))
      \<and> final_with (final_of r (in_key inc)) inc = Some (length payload)
      \<and> accumulated_ecn (bt_get (ir_datagrams r) (in_key inc)) inc = Ok e
      \<and> has_header rc \<and> header_ok (in_key inc) rc \<and> wire_length rc (length payload) \<le> 65535
      \<and> cd_key d = in_key inc \<and> cd_bytes d = rebuilt rc payload \<and> cd_final_payload_length d = length payload
      \<and> (policy = Reject \<longrightarrow> conflicts inc (retained_of r (in_key inc)) = {}))"

lemma ip_push_outcomes:
  assumes ok: "ip_ok limits policy r" and run: "push_with_external_charge alloc fragment now external r = (result, r')"
  obtains (refused) x where "result = Err x" "r' = r"
      "ip_plan_push alloc fragment now external r = Err x \<or> (\<exists>n. x = IpResource (AllocationFailed n))"
  | (accepted) inc e st outcome where "result = Ok (PushAccepted outcome)" "validate_fragment fragment limits = Ok inc"
      "ip_ok limits policy r'" "bt_get (ir_datagrams r') = (bt_get (ir_datagrams r))(in_key inc \<mapsto> st)"
      "kept_datagram limits policy r inc e st"
  | (completed) inc e payload outcome d where "result = Ok (PushCompleted outcome d)" "validate_fragment fragment limits = Ok inc"
      "ip_ok limits policy r'" "bt_get (ir_datagrams r') = (bt_get (ir_datagrams r))(in_key inc := None)"
      "whole_datagram policy r inc e payload d"
proof (cases "ip_plan_push alloc fragment now external r")
  case (Err x)
  then have "result = Err x" "r' = r"
    using run by (simp_all add: push_with_external_charge_def effect_simps)
  then show thesis
    using Err by (intro that(1) [of x]) simp_all
next
  case Panic
  then show thesis
    using ip_plan_push_no_panic [of r] ok by (simp add: ip_ok_def)
next
  case (Ok p)
  have table: "table_datagrams_ok r" and limits: "ir_limits r = limits" "ir_overlap_policy r = policy"
    and bt: "btree_ok (ir_datagrams r)"
    using ok by (simp_all add: ip_ok_def)
  let ?inc = "ip_incoming p"
  let ?key = "in_key ?inc"
  let ?old = "bt_get (ir_datagrams r) ?key"
  have valid: "validate_fragment fragment limits = Ok ?inc"
    using ip_plan_push_Ok(1) [OF table Ok] by (simp add: limits)
  obtain pre mid post sp e where plan: "ip_planned r now external ?old p pre mid post sp e"
    using ip_plan_push_Ok(2) [OF table Ok] by blast
  note old = table_old_ok [OF table, of ?key]
  have ecn: "accumulated_ecn ?old ?inc = Ok e" and rc: "ip_reconstruction p = retains ?old ?inc e"
    and final: "plan_final_length ?old ?inc = Ok (ip_final_length p)"
    using plan by (simp_all add: ip_planned_def)
  have fl: "ip_final_length p = final_with (final_of r ?key) ?inc"
    using final_length_of [OF final] by (simp add: final_with_def final_of_def)
  have clear: "policy = Reject \<longrightarrow> conflicts ?inc (retained_of r ?key) = {}"
  proof
    assume "policy = Reject"
    then have "card (conflicts ?inc (content (ranges_of ?old))) = 0"
      using plan limits by (simp add: ip_planned_def planned_def)
    moreover have "incoming_ok ?inc"
      using plan by (simp add: ip_planned_def valid_incoming_def)
    ultimately show "conflicts ?inc (retained_of r ?key) = {}"
      using finite_conflicts by (simp add: retained_of_def)
  qed
  show thesis
  proof (cases "completes (ip_merge p) (ip_final_length p)")
    case True
    show thesis
    proof (cases rule: ip_complete_cases [OF old plan True, where alloc = alloc, case_names rebuilt refused])
      case (rebuilt payload)
      then have "result = Ok (PushCompleted (outcome_of r p) (completion_of p payload))" "r' = released r ?key"
        using run Ok True by (simp_all add: push_with_external_charge_def effect_simps)
      moreover have "whole_datagram policy r ?inc e payload (completion_of p payload)"
        using rebuilt(2-6) ecn fl rc clear
        by (simp add: whole_datagram_def Let_def retained_of_def limits completion_of_def)
      ultimately show thesis
        using completed [OF _ valid] released_ok [OF ok, of ?key] by simp
    next
      case (refused n)
      then have "result = Err (IpResource (AllocationFailed n))" "r' = r"
        using run Ok True by (simp_all add: push_with_external_charge_def effect_simps)
      then show thesis
        by (rule that(1)) simp
    qed
  next
    case False
    show thesis
    proof (cases rule: ip_store_cases [OF old plan bt, where alloc = alloc, case_names stored refused])
      case stored
      let ?st = "stored_state ?old p (updated ?inc pre mid post (ip_update p))"
      have res: "result = Ok (PushAccepted (outcome_of r p))" "r' = stored r p ?st"
        using run Ok False stored by (simp_all add: push_with_external_charge_def effect_simps)
      have good: "datagram_ok limits ?key ?st" "content (ds_ranges ?st) = resolve policy ?inc (retained_of r ?key)"
        using stored_state_ok [OF old plan False] by (simp_all add: limits retained_of_def)
      have keep: "kept_datagram limits policy r ?inc e ?st"
        using good ecn fl rc clear by (simp add: kept_datagram_def stored_state_def)
      have "ip_ok limits policy (stored r p ?st)"
          "bt_get (ir_datagrams (stored r p ?st)) = (bt_get (ir_datagrams r))(?key \<mapsto> ?st)"
        using stored_ok [OF ok plan good(1)] by (simp_all add: stored_state_def)
      then show thesis
        using accepted [OF res(1) valid _ _ keep] by (simp add: res(2))
    next
      case (refused n)
      then have "result = Err (IpResource (AllocationFailed n))" "r' = r"
        using run Ok False by (simp_all add: push_with_external_charge_def effect_simps)
      then show thesis
        by (rule that(1)) simp
    qed
  qed
qed

section \<open>Reachable states\<close>

inductive ip_reachable :: "ip_limits \<Rightarrow> overlap_policy \<Rightarrow> ip_reassembler \<Rightarrow> bool" for limits policy where
  start: "ip_new clock limits policy = Ok r \<Longrightarrow> ip_reachable limits policy r"
| push: "ip_reachable limits policy r \<Longrightarrow> push_with_external_charge alloc fragment now external r = (result, r') \<Longrightarrow>
    ip_reachable limits policy r'"
| expire: "ip_reachable limits policy r \<Longrightarrow> ip_expire now r = (Ok (retired, r') :: (ip_error, _) outcome) \<Longrightarrow>
    ip_reachable limits policy r'"
| flush: "ip_reachable limits policy r \<Longrightarrow> (\<And>table. mset (visit table) = mset table) \<Longrightarrow>
    ip_flush visit r = (Ok (retired, r') :: (ip_error, _) outcome) \<Longrightarrow> ip_reachable limits policy r'"

lemma ip_push_ok:
  assumes "ip_ok limits policy r" and "push_with_external_charge alloc fragment now external r = (result, r')"
  shows "ip_ok limits policy r'" and "result \<noteq> Panic"
proof -
  have "ip_ok limits policy r' \<and> result \<noteq> Panic"
    by (rule ip_push_outcomes [OF assms]) (simp_all only: assms(1) outcome.distinct simp_thms not_False_eq_True)
  then show "ip_ok limits policy r'" "result \<noteq> Panic"
    by blast+
qed

lemma ip_new_ok:
  assumes "ip_new clock limits policy = Ok r"
  shows "ip_ok limits policy r"
proof -
  have "r = \<lparr>ir_limits = limits, ir_overlap_policy = policy, ir_datagrams = [], ir_expiry = [],
      ir_retained = \<lparr>rt_payload_bytes = 0, rt_memory_charge = 0, rt_datagram_slots = 0\<rparr>\<rparr>"
    using assms unfolding ip_new_def let_ok_Ok_iff by blast
  then show ?thesis
    by (simp add: ip_ok_def accounted_def table_datagrams_ok_def btree.total_emp btree.get_emp)
qed

lemma ip_reachable_ok: "ip_reachable limits policy r \<Longrightarrow> ip_ok limits policy r"
proof (induction rule: ip_reachable.induct)
  case (start clock r)
  then show ?case
    by (rule ip_new_ok)
next
  case (push r alloc fragment now external result r')
  show ?case
    by (rule ip_push_ok(1) [OF push.IH push.hyps(2)])
next
  case (expire r now retired r')
  obtain r'' where "ip_expire now r = (Ok (reported (max_retained_outcomes limits)
      (map (farewell_of IdleExpired (ir_datagrams r)) (due_keys now r)), r'') :: (ip_error, _) outcome)" "ip_ok limits policy r''"
    by (rule ip_expire_ok [OF expire.IH])
  then show ?case
    using expire.hyps by simp
next
  case (flush r visit retired r')
  obtain r'' where "ip_flush visit r = (Ok (reported (max_retained_outcomes limits) (map ending (ir_datagrams r)), r'')
      :: (ip_error, _) outcome)" "ip_ok limits policy r''"
    by (rule ip_flush_ok [OF flush.IH flush.hyps(2)])
  then show ?case
    using flush.hyps by simp
qed

end
