(* ===== verification/Ip_Order.thy ===== *)
theory Ip_Order
  imports Ip_Reach
begin

text \<open>
  Reassembly of one datagram out of fragments that arrive in any order, duplicated or overlapping,
  interleaved with fragments of other datagrams.
\<close>

section \<open>A run of pushes\<close>

fun ip_push_all ::
    "ip_allocator \<Rightarrow> (fragment \<times> instant) list \<Rightarrow> ip_reassembler
      \<Rightarrow> ((fragment \<times> instant) \<times> (ip_error, push_outcome) outcome) list \<times> ip_reassembler" where
  "ip_push_all alloc [] r = ([], r)"
| "ip_push_all alloc (f # fs) r =
     (let (result, r1) = ip_push alloc (fst f) (snd f) r; (trace, r2) = ip_push_all alloc fs r1 in
      ((f, result) # trace, r2))"

lemma ip_push_all_append:
  "ip_push_all alloc (fs @ gs) r =
     (let (t1, r1) = ip_push_all alloc fs r; (t2, r2) = ip_push_all alloc gs r1 in (t1 @ t2, r2))"
  by (induction fs arbitrary: r) (simp_all add: Let_def split_def)

text \<open>The fragments of one datagram in the run, and what makes one of them a piece of a payload.\<close>

definition incoming_of :: "ip_limits \<Rightarrow> datagram_key \<Rightarrow> fragment \<times> instant \<Rightarrow> incoming option" where
  "incoming_of limits key f =
     (case validate_fragment (fst f) limits of
        Ok inc \<Rightarrow> if in_key inc = key then Some inc else None
      | _ \<Rightarrow> None)"

definition pieces :: "ip_limits \<Rightarrow> datagram_key \<Rightarrow> (fragment \<times> instant) list \<Rightarrow> incoming set" where
  "pieces limits key fs = {inc. \<exists>f\<in>set fs. incoming_of limits key f = Some inc}"

definition piece_of :: "bytes \<Rightarrow> incoming \<Rightarrow> bool" where
  "piece_of pl inc \<longleftrightarrow> in_byte inc \<subseteq>\<^sub>m bytes_at 0 pl \<and> (in_more_fragments inc \<longleftrightarrow> in_end inc < length pl)"

definition covered :: "incoming set \<Rightarrow> nat set" where
  "covered I = (\<Union>inc\<in>I. dom (in_byte inc))"

lemma pieces_simps [simp]:
  "pieces limits key [] = {}"
  "pieces limits key (fs @ gs) = pieces limits key fs \<union> pieces limits key gs"
  "pieces limits key (f # fs) = set_option (incoming_of limits key f) \<union> pieces limits key fs"
  by (auto simp: pieces_def)

lemma covered_simps [simp]: "covered {} = {}" "covered (insert inc I) = dom (in_byte inc) \<union> covered I"
  "covered (I \<union> J) = covered I \<union> covered J"
  by (auto simp: covered_def)

text \<open>Pieces of the same payload never disagree, so the policy does not matter.\<close>

lemma resolve_pieces:
  assumes "piece_of pl inc" and "m = bytes_at 0 pl |` U"
  shows "resolve policy inc m = bytes_at 0 pl |` (dom (in_byte inc) \<union> U)"
proof
  fix q
  have "in_byte inc q = Some x \<Longrightarrow> bytes_at 0 pl q = Some x" for x
    using assms(1) by (force simp: piece_of_def map_le_def dom_def)
  then show "resolve policy inc m q = (bytes_at 0 pl |` (dom (in_byte inc) \<union> U)) q"
    by (auto simp: resolve_def assms(2) restrict_map_def map_add_def domIff split: option.splits)
qed

lemma piece_end: "incoming_ok inc \<Longrightarrow> piece_of pl inc \<Longrightarrow> in_end inc \<le> length pl \<and> in_offset inc < length pl"
proof -
  assume inc: "incoming_ok inc" and piece: "piece_of pl inc"
  have "{in_offset inc..<in_end inc} \<subseteq> {0..<length pl}"
    using map_le_implies_dom_le [of "in_byte inc" "bytes_at 0 pl"] piece dom_in_byte [OF inc]
    by (simp add: piece_of_def)
  moreover have "in_offset inc < in_end inc"
    using inc by (simp add: incoming_ok_def)
  ultimately show ?thesis
    by (simp add: ivl_subset)
qed

section \<open>Where header and marking come from\<close>

fun header_from :: "incoming set \<Rightarrow> reconstruction \<Rightarrow> bool" where
  "header_from I (RecIpv4 None _) \<longleftrightarrow> True"
| "header_from I (RecIpv4 (Some h) _) \<longleftrightarrow> (\<exists>inc\<in>I. in_offset inc = 0 \<and> in_reconstruction inc = IncIpv4 h)"
| "header_from I (RecIpv6 p at n _ z) \<longleftrightarrow>
     (\<exists>inc\<in>I. (z \<longrightarrow> in_offset inc = 0) \<and> in_reconstruction inc = IncIpv6 p at n)"

lemma header_from_with_ecn [simp]: "header_from I (with_ecn e rc) = header_from I rc"
proof (cases rc)
  case (RecIpv4 h x)
  then show ?thesis
    by (cases h) simp_all
qed simp

lemma header_from_mono: "header_from I rc \<Longrightarrow> I \<subseteq> J \<Longrightarrow> header_from J rc"
  by (induction I rc rule: header_from.induct) auto

lemma header_from_retains:
  assumes "\<And>st. existing = Some st \<Longrightarrow> header_from I (ds_reconstruction st)"
  shows "header_from (insert inc I) (retains existing inc e)"
proof (cases existing)
  case None
  then show ?thesis
    by (cases "in_reconstruction inc") (simp_all add: retains_def)
next
  case (Some st)
  then have "header_from (insert inc I) (ds_reconstruction st)"
    using assms header_from_mono by blast
  then show ?thesis
    using Some by (cases "in_reconstruction inc") (simp_all add: retains_def)
qed

lemma accumulated_ecn_set:
  assumes "accumulated_ecn existing inc = Ok e"
    and "\<And>st. existing = Some st \<Longrightarrow> ecn_of_all E = Ok (reconstruction_ecn (ds_reconstruction st))"
    and "existing = None \<Longrightarrow> E = {}"
  shows "ecn_of_all (insert (in_ecn inc) E) = Ok e"
proof (cases existing)
  case None
  then show ?thesis
    using assms(1,3) by (cases e) (simp_all add: accumulated_ecn_def ecn_of_all_def)
next
  case (Some st)
  then have "ecn_merge (reconstruction_ecn (ds_reconstruction st)) (in_ecn inc) = Ok e"
    using assms(1) by (simp add: accumulated_ecn_def split: outcome.splits)
  then show ?thesis
    using ecn_merge_all_set [OF assms(2) [OF Some], of "[in_ecn inc]"] by simp
qed

section \<open>Any order\<close>

text \<open>What the table holds for a datagram after the pieces \<open>I\<close> of a payload have arrived.\<close>

definition gathered :: "bytes \<Rightarrow> incoming set \<Rightarrow> datagram_state option \<Rightarrow> bool" where
  "gathered pl I existing \<longleftrightarrow>
     (case existing of
        None \<Rightarrow> I = {}
      | Some st \<Rightarrow> content (ds_ranges st) = bytes_at 0 pl |` covered I
          \<and> ds_final_length st = (if \<exists>inc\<in>I. \<not> in_more_fragments inc then Some (length pl) else None)
          \<and> ecn_of_all (in_ecn ` I) = Ok (reconstruction_ecn (ds_reconstruction st))
          \<and> header_from I (ds_reconstruction st))"

text \<open>The completed datagram: the payload behind the rewritten header of one of its pieces.\<close>

definition delivered :: "datagram_key \<Rightarrow> bytes \<Rightarrow> incoming set \<Rightarrow> push_outcome \<Rightarrow> bool" where
  "delivered key pl I outcome \<longleftrightarrow>
     (\<exists>o' d rc. outcome = PushCompleted o' d \<and> cd_key d = key \<and> cd_bytes d = rebuilt rc pl
        \<and> has_header rc \<and> header_ok key rc \<and> wire_length rc (length pl) \<le> 65535
        \<and> header_from I rc \<and> ecn_of_all (in_ecn ` I) = Ok (reconstruction_ecn rc))"

lemma gathered_content:
  assumes "gathered pl I (bt_get (ir_datagrams r) key)"
  shows "retained_of r key = bytes_at 0 pl |` covered I"
    and "final_of r key = (if \<exists>inc\<in>I. \<not> in_more_fragments inc then Some (length pl) else None)"
  using assms by (cases "bt_get (ir_datagrams r) key"; simp add: gathered_def retained_of_def final_of_def ranges_of_def)+

text \<open>One more piece, in terms of the map of bytes, the final length, the marking and the header.\<close>

lemma gathered_step:
  assumes g: "gathered pl I (bt_get (ir_datagrams r) (in_key inc))" and inc: "incoming_ok inc" and piece: "piece_of pl inc"
    and ecn: "accumulated_ecn (bt_get (ir_datagrams r) (in_key inc)) inc = Ok e"
  shows "resolve policy inc (retained_of r (in_key inc)) = bytes_at 0 pl |` covered (insert inc I)"
    and "final_with (final_of r (in_key inc)) inc
      = (if \<exists>i\<in>insert inc I. \<not> in_more_fragments i then Some (length pl) else None)"
    and "ecn_of_all (in_ecn ` insert inc I) = Ok e"
    and "header_from (insert inc I) (retains (bt_get (ir_datagrams r) (in_key inc)) inc e)"
proof -
  note old = gathered_content [OF g]
  show "resolve policy inc (retained_of r (in_key inc)) = bytes_at 0 pl |` covered (insert inc I)"
    using resolve_pieces [OF piece old(1)] by simp
  have "in_end inc = length pl" if "\<not> in_more_fragments inc"
    using that piece piece_end [OF inc piece] by (simp add: piece_of_def)
  then show "final_with (final_of r (in_key inc)) inc
      = (if \<exists>i\<in>insert inc I. \<not> in_more_fragments i then Some (length pl) else None)"
    using old(2) by (auto simp: final_with_def)
  show "ecn_of_all (in_ecn ` insert inc I) = Ok e"
    unfolding image_insert using ecn g
    by (intro accumulated_ecn_set) (auto simp: gathered_def split: option.splits)
  show "header_from (insert inc I) (retains (bt_get (ir_datagrams r) (in_key inc)) inc e)"
    using g by (intro header_from_retains) (simp add: gathered_def)
qed

lemma restrict_dom_full: "dom (bytes_at 0 pl |` U) = U \<inter> {0..<length pl}"
  by auto

lemma covered_inside:
  assumes "\<And>inc. inc \<in> I \<Longrightarrow> piece_of pl inc"
  shows "covered I \<subseteq> {0..<length pl}"
proof -
  have "dom (in_byte inc) \<subseteq> dom (bytes_at 0 pl)" if "inc \<in> I" for inc
    using assms [OF that] by (intro map_le_implies_dom_le) (simp add: piece_of_def)
  then show ?thesis
    by (auto simp: covered_def)
qed

text \<open>Whoever brings the last byte announces the final length.\<close>

lemma covered_announces:
  assumes "\<And>inc. inc \<in> I \<Longrightarrow> piece_of pl inc \<and> incoming_ok inc" and "covered I = {0..<length pl}" and "I \<noteq> {}"
  shows "\<exists>inc\<in>I. \<not> in_more_fragments inc"
proof -
  obtain i where "i \<in> I"
    using assms(3) by blast
  then have "in_offset i < length pl"
    using piece_end assms(1) by blast
  then have "length pl - 1 \<in> covered I"
    unfolding assms(2) by simp
  then obtain inc where inc: "inc \<in> I" "length pl - 1 \<in> dom (in_byte inc)"
    by (auto simp: covered_def)
  then have "length pl - 1 < in_end inc"
    using assms(1) dom_in_byte [of inc] by auto
  then have "\<not> in_end inc < length pl"
    by linarith
  then show ?thesis
    using inc(1) assms(1) by (auto simp: piece_of_def)
qed

text \<open>A push of a piece completes the datagram exactly when it closes the last gap.\<close>

lemma gathered_push:
  assumes ok: "ip_ok limits policy r" and run: "ip_push alloc (fst f) (snd f) r = (result, r')"
    and g: "gathered pl I (bt_get (ir_datagrams r) key)"
    and old: "\<And>inc. inc \<in> I \<Longrightarrow> piece_of pl inc \<and> incoming_ok inc"
    and inc: "incoming_of limits key f = Some inc" and piece: "piece_of pl inc" and good: "result = Ok outcome"
  shows "covered (insert inc I) \<noteq> {0..<length pl} \<longrightarrow>
      (\<exists>o'. outcome = PushAccepted o') \<and> gathered pl (insert inc I) (bt_get (ir_datagrams r') key)"
    and "covered (insert inc I) = {0..<length pl} \<longrightarrow>
      delivered key pl (insert inc I) outcome \<and> bt_get (ir_datagrams r') key = None"
proof -
  have valid: "validate_fragment (fst f) limits = Ok inc" and key: "in_key inc = key"
    using inc by (auto simp: incoming_of_def split: outcome.splits if_splits)
  have inc_ok: "incoming_ok inc"
    using validate_fragment_Ok [OF valid] by (simp add: valid_incoming_def)
  have all: "piece_of pl i \<and> incoming_ok i" if "i \<in> insert inc I" for i
    using that old piece inc_ok by auto
  have inside: "covered (insert inc I) \<subseteq> {0..<length pl}"
    using all by (intro covered_inside) blast
  note g' = g [folded key]
  have "(covered (insert inc I) \<noteq> {0..<length pl} \<longrightarrow>
      (\<exists>o'. outcome = PushAccepted o') \<and> gathered pl (insert inc I) (bt_get (ir_datagrams r') key))
    \<and> (covered (insert inc I) = {0..<length pl} \<longrightarrow>
      delivered key pl (insert inc I) outcome \<and> bt_get (ir_datagrams r') key = None)"
  proof (rule ip_push_outcomes [OF ok run [unfolded ip_push_def]])
    fix x
    assume "result = Err x"
    then show ?thesis
      using good by simp
  next
    fix j e st o'
    assume res: "result = Ok (PushAccepted o')" and j: "validate_fragment (fst f) limits = Ok j"
      and get: "bt_get (ir_datagrams r') = (bt_get (ir_datagrams r))(in_key j \<mapsto> st)"
      and kept: "kept_datagram limits policy r j e st"
    have j': "j = inc"
      using j valid by simp
    note kept = kept [unfolded j' kept_datagram_def]
    have ecn: "accumulated_ecn (bt_get (ir_datagrams r) (in_key inc)) inc = Ok e"
      using kept by blast
    note step = gathered_step [OF g' inc_ok piece ecn]
    have "reconstruction_ecn (ds_reconstruction st) = e"
      using kept by (cases "bt_get (ir_datagrams r) (in_key inc)"; cases "in_reconstruction inc") (auto simp: retains_def)
    then have new: "gathered pl (insert inc I) (bt_get (ir_datagrams r') key)"
      using kept step by (simp add: get j' key gathered_def)
    moreover have "covered (insert inc I) \<noteq> {0..<length pl}"
    proof
      assume full: "covered (insert inc I) = {0..<length pl}"
      have "ds_final_length st = Some (length pl)"
        using kept step(2) covered_announces [OF all full] by simp
      moreover have "dom (content (ds_ranges st)) = {0..<length pl}"
        using kept step(1) by (simp only: full restrict_dom_full) auto
      moreover have "datagram_ok limits (in_key inc) st"
        using kept by blast
      ultimately show False
        unfolding datagram_ok_def by blast
    qed
    ultimately show ?thesis
      using res good by blast
  next
    fix j e payload o' d
    assume res: "result = Ok (PushCompleted o' d)" and j: "validate_fragment (fst f) limits = Ok j"
      and get: "bt_get (ir_datagrams r') = (bt_get (ir_datagrams r))(in_key j := None)"
      and whole: "whole_datagram policy r j e payload d"
    have j': "j = inc"
      using j valid by simp
    note whole = whole [unfolded j' whole_datagram_def Let_def]
    have ecn: "accumulated_ecn (bt_get (ir_datagrams r) (in_key inc)) inc = Ok e"
      using whole by blast
    note step = gathered_step [OF g' inc_ok piece ecn]
    have same: "bytes_at 0 payload = bytes_at 0 pl |` covered (insert inc I)"
      using whole step(1) by simp
    have len: "length payload = length pl"
      using whole step(2) by (simp split: if_splits)
    have "{0..<length payload} = covered (insert inc I) \<inter> {0..<length pl}"
      using arg_cong [OF same, of dom] by (simp only: restrict_dom_full dom_bytes_at add_0)
    then have full: "covered (insert inc I) = {0..<length pl}"
      using inside len by auto
    have "bytes_at 0 pl |` {0..<length pl} = bytes_at 0 pl"
      by (auto simp: restrict_map_def bytes_at_def fun_eq_iff)
    then have pl: "payload = pl"
      using bytes_at_inject [OF _ len, of 0] same full by simp
    have "reconstruction_ecn (retains (bt_get (ir_datagrams r) (in_key inc)) inc e) = e"
      by (cases "bt_get (ir_datagrams r) (in_key inc)"; cases "in_reconstruction inc") (auto simp: retains_def)
    then show ?thesis
      using whole step(3,4) res good full by (auto simp: get j' key pl delivered_def)
  qed
  then show "covered (insert inc I) \<noteq> {0..<length pl} \<longrightarrow>
      (\<exists>o'. outcome = PushAccepted o') \<and> gathered pl (insert inc I) (bt_get (ir_datagrams r') key)"
    and "covered (insert inc I) = {0..<length pl} \<longrightarrow>
      delivered key pl (insert inc I) outcome \<and> bt_get (ir_datagrams r') key = None"
    by blast+
qed

text \<open>Fragments of other datagrams, accepted or not, leave this one alone.\<close>

lemma other_push:
  assumes ok: "ip_ok limits policy r" and run: "ip_push alloc (fst f) (snd f) r = (result, r')"
    and other: "incoming_of limits key f = None"
  shows "bt_get (ir_datagrams r') key = bt_get (ir_datagrams r) key"
proof (rule ip_push_outcomes [OF ok run [unfolded ip_push_def]])
  fix x
  assume "r' = r"
  then show ?thesis
    by simp
next
  fix j st
  assume "validate_fragment (fst f) limits = Ok j" and get: "bt_get (ir_datagrams r') = (bt_get (ir_datagrams r))(in_key j \<mapsto> st)"
  then have "in_key j \<noteq> key"
    using other by (auto simp: incoming_of_def)
  then show ?thesis
    by (simp add: get)
next
  fix j
  assume "validate_fragment (fst f) limits = Ok j" and get: "bt_get (ir_datagrams r') = (bt_get (ir_datagrams r))(in_key j := None)"
  then have "in_key j \<noteq> key"
    using other by (auto simp: incoming_of_def)
  then show ?thesis
    by (simp add: get)
qed

definition all_pushed :: "ip_limits \<Rightarrow> datagram_key \<Rightarrow> ((fragment \<times> instant) \<times> (ip_error, push_outcome) outcome) list \<Rightarrow> bool" where
  "all_pushed limits key trace \<longleftrightarrow>
     list_all (\<lambda>(f, result). incoming_of limits key f \<noteq> None \<longrightarrow> (\<exists>outcome. result = Ok outcome)) trace"

lemma piece_incoming_ok: "incoming_of limits key f = Some inc \<Longrightarrow> incoming_ok inc"
  using validate_fragment_Ok by (fastforce simp: incoming_of_def valid_incoming_def split: outcome.splits if_splits)

lemma gathered_run:
  assumes "ip_push_all alloc fs r = (trace, r')" and "ip_ok limits policy r"
    and "gathered pl I (bt_get (ir_datagrams r) key)" and "\<And>inc. inc \<in> I \<Longrightarrow> piece_of pl inc \<and> incoming_ok inc"
    and "all_pushed limits key trace" and "\<And>inc. inc \<in> pieces limits key fs \<Longrightarrow> piece_of pl inc"
    and "covered (I \<union> pieces limits key fs) \<noteq> {0..<length pl}"
  shows "ip_ok limits policy r' \<and> gathered pl (I \<union> pieces limits key fs) (bt_get (ir_datagrams r') key)
    \<and> list_all (\<lambda>(f, result). incoming_of limits key f \<noteq> None \<longrightarrow> (\<exists>o'. result = Ok (PushAccepted o'))) trace"
  using assms
proof (induction fs arbitrary: r I trace)
  case (Cons f fs)
  obtain result r1 trace1 where one: "ip_push alloc (fst f) (snd f) r = (result, r1)"
      and rest: "ip_push_all alloc fs r1 = (trace1, r')" and trace: "trace = (f, result) # trace1"
    using Cons.prems(1) by (auto split: prod.splits)
  have ok1: "ip_ok limits policy r1"
    using ip_push_ok(1) [OF Cons.prems(2) one [unfolded ip_push_def]] .
  have pushed: "all_pushed limits key trace1"
    using Cons.prems(5) by (simp add: all_pushed_def trace)
  show ?case
  proof (cases "incoming_of limits key f")
    case None
    have "gathered pl I (bt_get (ir_datagrams r1) key)"
      using Cons.prems(3) other_push [OF Cons.prems(2) one None] by simp
    from Cons.IH [OF rest ok1 this Cons.prems(4) pushed] Cons.prems(6,7) show ?thesis
      by (simp add: None trace)
  next
    case (Some inc)
    have piece: "piece_of pl inc" "incoming_ok inc"
      using Cons.prems(6) [of inc] piece_incoming_ok [OF Some] by (simp_all add: Some)
    have whole: "insert inc I \<union> pieces limits key fs = I \<union> pieces limits key (f # fs)"
      by (auto simp: Some)
    obtain outcome where good: "result = Ok outcome"
      using Cons.prems(5) Some by (auto simp: all_pushed_def trace)
    have new: "piece_of pl i \<and> incoming_ok i" if "i \<in> insert inc I" for i
      using that piece Cons.prems(4) by auto
    have later: "piece_of pl i" if "i \<in> pieces limits key fs" for i
      using that Cons.prems(6) by simp
    have "covered (I \<union> pieces limits key (f # fs)) \<subseteq> {0..<length pl}"
      using Cons.prems(4,6) by (intro covered_inside) blast
    then have "covered (insert inc I) \<noteq> {0..<length pl}"
      using Cons.prems(7) unfolding whole [symmetric] covered_simps(3) by blast
    with gathered_push(1) [OF Cons.prems(2) one Cons.prems(3,4) Some piece(1) good]
    have step: "\<exists>o'. outcome = PushAccepted o'" "gathered pl (insert inc I) (bt_get (ir_datagrams r1) key)"
      by blast+
    from Cons.IH [OF rest ok1 step(2) new pushed later] Cons.prems(7) step(1) show ?thesis
      unfolding whole by (simp add: trace good)
  qed
qed simp

theorem ip_any_order:
  assumes ok: "ip_ok limits policy r" and fresh: "bt_get (ir_datagrams r) key = None"
    and run: "ip_push_all alloc (fs @ [f]) r = (trace, r')" and pushed: "all_pushed limits key trace"
    and pieces: "\<And>inc. inc \<in> pieces limits key (fs @ [f]) \<Longrightarrow> piece_of pl inc"
    and gap: "covered (pieces limits key fs) \<noteq> {0..<length pl}"
    and full: "covered (pieces limits key (fs @ [f])) = {0..<length pl}"
  shows "\<exists>outcome. snd (last trace) = Ok outcome \<and> delivered key pl (pieces limits key (fs @ [f])) outcome"
    and "list_all (\<lambda>(g, result). incoming_of limits key g \<noteq> None \<longrightarrow> (\<exists>o'. result = Ok (PushAccepted o'))) (butlast trace)"
    and "bt_get (ir_datagrams r') key = None"
proof -
  obtain trace1 r1 result where one: "ip_push_all alloc fs r = (trace1, r1)"
      and two: "ip_push alloc (fst f) (snd f) r1 = (result, r')" and trace: "trace = trace1 @ [(f, result)]"
    using run by (auto simp: ip_push_all_append Let_def split: prod.splits)
  have pushed': "all_pushed limits key trace1" "incoming_of limits key f \<noteq> None \<Longrightarrow> \<exists>outcome. result = Ok outcome"
    using pushed by (auto simp: all_pushed_def trace)
  have g0: "gathered pl {} (bt_get (ir_datagrams r) key)"
    by (simp add: gathered_def fresh)
  have first: "ip_ok limits policy r1 \<and> gathered pl ({} \<union> pieces limits key fs) (bt_get (ir_datagrams r1) key)
    \<and> list_all (\<lambda>(f, result). incoming_of limits key f \<noteq> None \<longrightarrow> (\<exists>o'. result = Ok (PushAccepted o'))) trace1"
    using pieces gap by (intro gathered_run [OF one ok g0 _ pushed'(1)]) simp_all
  then have r1: "ip_ok limits policy r1" "gathered pl (pieces limits key fs) (bt_get (ir_datagrams r1) key)"
    by simp_all
  obtain inc where inc: "incoming_of limits key f = Some inc"
    using gap full by (cases "incoming_of limits key f") auto
  have union: "pieces limits key (fs @ [f]) = insert inc (pieces limits key fs)"
    by (auto simp: inc)
  obtain outcome where good: "result = Ok outcome"
    using pushed'(2) inc by auto
  have old: "piece_of pl i \<and> incoming_ok i" if "i \<in> pieces limits key fs" for i
    using that pieces [of i] piece_incoming_ok by (auto simp: pieces_def)
  have "piece_of pl inc"
    using pieces [of inc] by (simp add: inc)
  from gathered_push(2) [OF r1(1) two r1(2) old inc this good] full
  have "delivered key pl (pieces limits key (fs @ [f])) outcome" "bt_get (ir_datagrams r') key = None"
    unfolding union by blast+
  then show "\<exists>outcome. snd (last trace) = Ok outcome \<and> delivered key pl (pieces limits key (fs @ [f])) outcome"
    and "bt_get (ir_datagrams r') key = None"
    by (simp_all add: trace good)
  show "list_all (\<lambda>(g, result). incoming_of limits key g \<noteq> None \<longrightarrow> (\<exists>o'. result = Ok (PushAccepted o'))) (butlast trace)"
    using first by (simp add: trace)
qed

end
