(* ===== verification/Ip_Cut.thy ===== *)
theory Ip_Cut
  imports Ip_Order "HOL-Library.Multiset"
begin

text \<open>
  Reassembly of a payload that was cut into consecutive pieces, each pushed once, in any order.
\<close>

section \<open>Consecutive pieces\<close>

fun cut_of :: "datagram_key \<Rightarrow> bytes \<Rightarrow> nat \<Rightarrow> incoming list \<Rightarrow> bool" where
  "cut_of key pl position [] \<longleftrightarrow> position = length pl"
| "cut_of key pl position (inc # incs) \<longleftrightarrow> in_key inc = key \<and> in_offset inc = position \<and> in_payload inc \<noteq> []
     \<and> in_end inc = position + length (in_payload inc) \<and> in_end inc \<le> length pl
     \<and> slice_of pl position (in_end inc) = in_payload inc \<and> in_more_fragments inc = (in_end inc < length pl)
     \<and> cut_of key pl (in_end inc) incs"

lemma dom_in_byte_payload: "dom (in_byte inc) = {in_offset inc..<in_offset inc + length (in_payload inc)}"
  by (simp add: in_byte_def)

lemma cut_of_piece: "cut_of key pl position incs \<Longrightarrow> inc \<in> set incs \<Longrightarrow> piece_of pl inc \<and> in_key inc = key"
proof (induction incs arbitrary: position)
  case (Cons x incs)
  then show ?case
  proof (cases "inc = x")
    case True
    have x: "slice_of pl position (position + length (in_payload x)) = in_payload x" "in_offset x = position"
        "in_end x = position + length (in_payload x)" "in_end x \<le> length pl" "in_more_fragments x = (in_end x < length pl)"
        "in_key x = key"
      using Cons.prems(1) by auto
    have "in_byte x i = bytes_at 0 pl i" if "i \<in> dom (in_byte x)" for i
    proof -
      have i: "position \<le> i" "i < position + length (in_payload x)"
        using that x(2) by (auto simp: dom_in_byte_payload)
      then have "in_payload x ! (i - position) = pl ! i"
        using x(3,4) by (subst x(1) [symmetric]) (simp add: nth_slice_of)
      then show ?thesis
        using i x(2-4) by (simp add: in_byte_def bytes_at_def)
    qed
    then show ?thesis
      using x(5,6) True by (auto simp: piece_of_def map_le_def)
  qed auto
qed simp

lemma cut_of_covered: "cut_of key pl position incs \<Longrightarrow> covered (set incs) = {position..<length pl} \<and> position \<le> length pl"
proof (induction incs arbitrary: position)
  case (Cons x incs)
  then have "covered (set incs) = {in_end x..<length pl}" "in_end x \<le> length pl"
    by auto
  moreover have "dom (in_byte x) = {position..<in_end x}" "position \<le> in_end x"
    using Cons.prems by (auto simp: dom_in_byte_payload)
  ultimately show ?case
    by auto
qed simp

text \<open>No position belongs to two of the pieces.\<close>

lemma cut_of_disjoint:
  "cut_of key pl position incs \<Longrightarrow> inc \<in> set incs \<Longrightarrow> inc' \<in> set incs \<Longrightarrow> inc \<noteq> inc'
    \<Longrightarrow> dom (in_byte inc) \<inter> dom (in_byte inc') = {}"
proof (induction incs arbitrary: position)
  case (Cons x incs)
  have rest: "cut_of key pl (in_end x) incs" and x: "dom (in_byte x) \<subseteq> {..<in_end x}"
    using Cons.prems(1) by (auto simp: dom_in_byte_payload)
  have "dom (in_byte y) \<subseteq> {in_end x..<length pl}" if "y \<in> set incs" for y
    using cut_of_covered [OF rest] that by (auto simp: covered_def)
  then have "dom (in_byte x) \<inter> dom (in_byte y) = {}" if "y \<in> set incs" for y
    using x that by fastforce
  then show ?case
    using Cons.prems(2-4) Cons.IH [OF rest] by auto
qed simp

lemma cut_of_distinct: "cut_of key pl position incs \<Longrightarrow> distinct incs"
proof (induction incs arbitrary: position)
  case (Cons x incs)
  then have rest: "cut_of key pl (in_end x) incs" and x: "position \<in> dom (in_byte x)" "position < in_end x"
    by (auto simp: dom_in_byte_payload)
  have "x \<notin> set incs"
  proof
    assume "x \<in> set incs"
    then have "dom (in_byte x) \<subseteq> {in_end x..<length pl}"
      using cut_of_covered [OF rest] by (auto simp: covered_def)
    then show False
      using x by auto
  qed
  then show ?case
    using Cons.IH [OF rest] by simp
qed simp

lemma piece_of_nonempty: "cut_of key pl position incs \<Longrightarrow> inc \<in> set incs \<Longrightarrow> dom (in_byte inc) \<noteq> {}"
  by (induction incs arbitrary: position) (auto simp: dom_in_byte_payload)

section \<open>Any order\<close>

lemma ip_push_all_trace: "ip_push_all alloc run r = (trace, r') \<Longrightarrow> (f, result) \<in> set trace \<Longrightarrow> f \<in> set run"
proof (induction run arbitrary: r trace)
  case (Cons g run)
  then show ?case
    by (fastforce simp: Let_def split: prod.splits)
qed simp

lemma valid_choice:
  assumes "list_all2 (\<lambda>f inc. validate_fragment f limits = Ok inc) fs incs"
  obtains v where "incs = map v fs" and "\<forall>f\<in>set fs. validate_fragment f limits = Ok (v f)"
proof -
  define v where "v f = (case validate_fragment f limits of Ok inc \<Rightarrow> inc)" for f
  have "incs = map v fs \<and> (\<forall>f\<in>set fs. validate_fragment f limits = Ok (v f))"
    using assms by (induction fs incs rule: list_all2_induct) (auto simp: v_def)
  then show thesis
    using that by blast
qed

lemma pieces_of_run:
  assumes "\<forall>f\<in>set fs. validate_fragment f limits = Ok (v f) \<and> in_key (v f) = key" and "fst ` set run \<subseteq> set fs"
  shows "pieces limits key run = v ` fst ` set run"
proof -
  have "incoming_of limits key g = Some (v (fst g))" if "g \<in> set run" for g
    using assms that by (auto simp: incoming_of_def)
  then show ?thesis
    by (force simp: pieces_def)
qed

text \<open>Without its last push, a run that pushes every fragment once leaves a gap.\<close>

lemma gap_before_last:
  assumes cut: "cut_of key pl 0 (map v fs)" and run: "fst ` set before \<subseteq> set fs" "f \<in> set fs" "f \<notin> fst ` set before"
    and valid: "\<forall>f\<in>set fs. validate_fragment f limits = Ok (v f) \<and> in_key (v f) = key"
  shows "covered (pieces limits key before) \<noteq> {0..<length pl}"
proof -
  have inj: "inj_on v (set fs)"
    using cut_of_distinct [OF cut] by (simp add: distinct_map)
  have mem: "v f \<in> set (map v fs)"
    using run(2) by simp
  have "dom (in_byte (v f)) \<inter> dom (in_byte inc) = {}" if piece: "inc \<in> pieces limits key before" for inc
  proof -
    obtain g where g: "inc = v g" "g \<in> fst ` set before"
      using piece [unfolded pieces_of_run [OF valid run(1)]] by (rule imageE)
    have fs: "g \<in> set fs" "g \<noteq> f"
      using subsetD [OF run(1) g(2)] g(2) run(3) by metis+
    have "inc \<in> set (map v fs)"
      using fs(1) g(1) by simp
    moreover have "v f \<noteq> inc"
      using inj_on_eq_iff [OF inj run(2) fs(1)] fs(2) g(1) by simp
    ultimately show ?thesis
      using cut_of_disjoint [OF cut mem] by blast
  qed
  moreover have "dom (in_byte (v f)) \<noteq> {}"
    using piece_of_nonempty [OF cut mem] .
  moreover have "dom (in_byte (v f)) \<subseteq> {0..<length pl}"
    using cut_of_covered [OF cut] mem unfolding covered_def by blast
  ultimately show ?thesis
    unfolding covered_def by blast
qed

theorem cut_any_order:
  assumes ok: "ip_ok limits policy r" and fresh: "bt_get (ir_datagrams r) key = None"
    and run: "ip_push_all alloc run r = (trace, r')" and good: "list_all (\<lambda>(f, result). \<exists>out. result = Ok out) trace"
    and valid: "list_all2 (\<lambda>f inc. validate_fragment f limits = Ok inc) fs incs" and cut: "cut_of key pl 0 incs"
    and ne: "pl \<noteq> []" and perm: "mset (map fst run) = mset fs"
  shows "\<exists>out. snd (last trace) = Ok out \<and> delivered key pl (set incs) out"
    and "list_all (\<lambda>(f, result). \<exists>o'. result = Ok (PushAccepted o')) (butlast trace)"
    and "bt_get (ir_datagrams r') key = None"
proof -
  obtain v where incs: "incs = map v fs" and valid': "\<forall>f\<in>set fs. validate_fragment f limits = Ok (v f)"
    by (rule valid_choice [OF valid])
  note cut = cut [unfolded incs]
  have v: "\<forall>f\<in>set fs. validate_fragment f limits = Ok (v f) \<and> in_key (v f) = key"
    using valid' cut_of_piece [OF cut] by simp
  have same: "fst ` set run = set fs"
    using arg_cong [OF perm, of set_mset] by simp
  have "fs \<noteq> []"
    using cut ne by auto
  then have "run \<noteq> []"
    using same by auto
  then obtain before g where split: "run = before @ [g]"
    by (cases run rule: rev_cases) auto
  have "distinct fs"
    using cut_of_distinct [OF cut] by (simp add: distinct_map)
  then have "distinct (map fst run)"
    using mset_eq_imp_distinct_iff [OF perm] by simp
  then have last: "fst ` set before \<subseteq> set fs" "fst g \<in> set fs" "fst g \<notin> fst ` set before"
    using same unfolding split by auto
  have all: "pieces limits key (before @ [g]) = set incs"
    using pieces_of_run [OF v, of run] unfolding split [symmetric] same incs by simp
  have gap: "covered (pieces limits key before) \<noteq> {0..<length pl}"
    by (rule gap_before_last [OF cut last v])
  have pushed: "all_pushed limits key trace"
    using good by (auto simp: all_pushed_def list_all_iff)
  have full: "covered (pieces limits key (before @ [g])) = {0..<length pl}"
    using cut_of_covered [OF cut] unfolding all incs by blast
  have piece: "piece_of pl inc" if "inc \<in> pieces limits key (before @ [g])" for inc
    using that cut_of_piece [OF cut] unfolding all incs by blast
  note any = ip_any_order [OF ok fresh run [unfolded split] pushed _ gap full]
  show "\<exists>out. snd (last trace) = Ok out \<and> delivered key pl (set incs) out"
    by (rule any(1) [unfolded all]) (rule piece [unfolded all])
  show "bt_get (ir_datagrams r') key = None"
    by (rule any(3)) (rule piece)
  have "list_all (\<lambda>(g, result). incoming_of limits key g \<noteq> None \<longrightarrow> (\<exists>o'. result = Ok (PushAccepted o'))) (butlast trace)"
    by (rule any(2)) (rule piece)
  moreover have "incoming_of limits key f \<noteq> None" if "(f, result) \<in> set (butlast trace)" for f result
  proof -
    have "fst f \<in> set fs"
      using ip_push_all_trace [OF run in_set_butlastD [OF that]] same by blast
    with v show ?thesis
      by (simp add: incoming_of_def)
  qed
  ultimately show "list_all (\<lambda>(f, result). \<exists>o'. result = Ok (PushAccepted o')) (butlast trace)"
    unfolding list_all_iff by fast
qed

text \<open>When all the pieces carry one congestion marking, so does what is rebuilt from them.\<close>

lemma same_ecn:
  assumes "\<forall>inc\<in>I. in_ecn inc = e" and "I \<noteq> {}" and "ecn_of_all (in_ecn ` I) = Ok e'"
  shows "e' = e"
proof -
  have "in_ecn ` I = (\<lambda>_. e) ` I"
    using assms(1) by (intro image_cong refl) blast
  then have "in_ecn ` I = {e}"
    using assms(2) by (simp add: image_constant_conv)
  then show ?thesis
    using assms(3) by (cases e) (auto simp: ecn_of_all_def)
qed

end
