(* ===== verification/Fragment_Ipv6.thy ===== *)
theory Fragment_Ipv6
  imports Fragment_Whole Ip_Cut
begin

text \<open>
  IPv6 fragmentation: what a run of \<open>ipv6\<close> establishes before its loop, the prefix every fragment repeats, and
  that the reassembler finds the Next Header field that announces the fragment header where it was written.
\<close>

section \<open>Before the loop\<close>

lemma transport_header_length_Ok: "transport_header_length ip next_header cursor = Ok n \<Longrightarrow> 8 \<le> n"
  by (auto simp: transport_header_length_def outcome_iff Let_def split: if_splits)

lemma fragment_ipv6_Ok:
  assumes "fragment_ipv6 frame offset ip h options = Ok fs" and "ipv6_walk ip = Ok h"
    and long: "\<not> ipv6_datagram_length h \<le> fo_mtu options"
  obtains pl pn identification where "unfragmentable 0 (ipv6_extensions h) (IPV6_LENGTH, 6) = Ok (pl, pn)"
    and "fo_identification options = Some identification" and "pl + 8 \<le> fo_mtu options"
    and "pl < ipv6_datagram_length h"
    and "fragment_loop6 frame offset ip pl pn identification (fo_mtu options - (pl + 8))
      (slice_of ip pl (ipv6_datagram_length h)) options 0 (0, []) = Ok fs"
proof -
  obtain nh cursor where up: "ipv6_upper_layer h = (nh, cursor)"
    by fastforce
  obtain pl pn where found: "unfragmentable 0 (ipv6_extensions h) (IPV6_LENGTH, 6) = Ok (pl, pn)"
    using assms(1) unfolding fragment_ipv6_def Let_def let_ok_Ok_iff by force
  note b = ipv6_prefix_bounds [OF assms(2) found]
  obtain tl identification where t: "transport_header_length ip nh cursor = Ok tl" "cursor + tl \<le> ipv6_datagram_length h"
    and id: "fo_identification options = Some identification" and room: "pl + 8 \<le> fo_mtu options"
    and loop: "fragment_loop6 frame offset ip pl pn identification (fo_mtu options - (pl + 8))
      (slice_of ip pl (ipv6_datagram_length h)) options 0 (0, []) = Ok fs"
    using assms(1) unfolding fragment_ipv6_def Let_def found let_ok.simps prod.case up if_not_P [OF long] let_ok_Ok_iff
      ok_or_iff expect_iff ensure_iff get_range_iff checked_sub_iff by auto
  have "pl < ipv6_datagram_length h"
    using b(3) t(2) transport_header_length_Ok [OF t(1)] by (simp add: up)
  then show thesis
    by (rule that [OF found id room _ loop])
qed

section \<open>The chain of the prefix\<close>

text \<open>An extension whose length is what its second byte encodes and which announces what its first byte says.\<close>

definition extension_reads :: "bytes \<Rightarrow> ipv6_extension \<Rightarrow> bool" where
  "extension_reads bs e \<longleftrightarrow> is_walkable_ipv6_extension (ext_protocol e) \<and> ext_protocol e \<noteq> FRAGMENT
     \<and> 8 \<le> ext_length e \<and> ext_end e \<le> length bs \<and> ext_next_header e = bs ! ext_offset e
     \<and> ipv6_extension_header_length (ext_protocol e) (bs ! (ext_offset e + 1)) = Some (ext_length e)
     \<and> ext_fragment e = None"

lemma chain_step_reads:
  assumes "extension_reads (chain_bytes c) e" and "ext_protocol e = chain_protocol c" and "ext_offset e = chain_offset c"
  shows "chain_step c = Ok e"
proof -
  let ?bs = "chain_bytes c" and ?off = "chain_offset c"
  have e: "8 \<le> ext_length e" "?off + ext_length e \<le> length ?bs" "ext_next_header e = ?bs ! ?off"
      "ipv6_extension_header_length (chain_protocol c) (?bs ! (?off + 1)) = Some (ext_length e)" "ext_fragment e = None"
      "chain_protocol c \<noteq> FRAGMENT"
    using assms by (auto simp: extension_reads_def ext_end_def)
  have "Option.bind (get_from ?bs ?off) (first_chunk 2) = Some (take 2 (drop ?off ?bs))"
      "take 2 (drop ?off ?bs) ! 1 = ?bs ! (?off + 1)"
    using e(1,2) by (simp_all add: get_from_def first_chunk_def)
  moreover have "get_range ?bs ?off (?off + ext_length e) = Some (slice_of ?bs ?off (?off + ext_length e))"
      "slice_of ?bs ?off (?off + ext_length e) ! 0 = ?bs ! ?off"
    using e(1,2) by (simp_all add: get_range_def slice_of_def)
  ultimately show ?thesis
    using e assms by (simp add: chain_step_def)
qed

lemma predecessor_found:
  assumes "linked p (chain_offset c) es FRAGMENT (length prefix)" and "\<forall>e\<in>set es. extension_reads prefix e"
    and "chain_bytes c = prefix" and "chain_protocol c = p" and "\<not> chain_done c"
    and "chain_taken c + length es \<le> chain_limit c"
  shows "predecessor_loop prefix c pred = Some (if es = [] then pred else ext_offset (last es))"
  using assms
proof (induction es arbitrary: p c pred)
  case Nil
  then show ?case
    by (subst predecessor_loop.simps) (simp add: chain_position_def)
next
  case (Cons e es)
  have e: "extension_reads (chain_bytes c) e" "ext_protocol e = chain_protocol c" "ext_offset e = chain_offset c"
    using Cons.prems by auto
  let ?c = "c\<lparr>chain_taken := chain_taken c + 1, chain_offset := chain_offset c + ext_length e,
      chain_protocol := ext_next_header e, chain_done := False\<rparr>"
  have walk: "is_walkable_ipv6_extension (chain_protocol c)" "chain_protocol c \<noteq> FRAGMENT" "ext_fragment_offset e = None"
    using e by (auto simp: extension_reads_def ext_fragment_offset_def)
  have nxt: "chain_next c = (Some (Ok e), ?c)"
    using Cons.prems(5,6) walk chain_step_reads [OF e] by (simp add: chain_next_def)
  have "predecessor_loop prefix ?c (ext_offset e) = Some (if es = [] then ext_offset e else ext_offset (last es))"
    using Cons.prems e(3) by (intro Cons.IH [where p = "ext_next_header e"]) (auto simp: ext_end_def)
  then show ?case
    using walk(2) nxt by (subst predecessor_loop.simps) (simp add: chain_position_def)
qed

text \<open>The walk over the whole datagram reads the extensions this way, except for fragment headers.\<close>

lemma walk_reads:
  assumes "ipv6_walk_chain bs n p = Ok h" and "e \<in> set (ipv6_extensions h)" and "ext_protocol e \<noteq> FRAGMENT"
  shows "extension_reads bs e"
proof -
  obtain c where w: "walk_extensions (chain_new bs IPV6_LENGTH p) [] = Ok (ipv6_extensions h, c)"
    using assms(1) by (auto simp: ipv6_walk_chain_def outcome_iff chain_position_def)
  let ?I = "\<lambda>es c. chain_bytes c = bs \<and> (\<forall>e\<in>set es. ext_protocol e \<noteq> FRAGMENT \<longrightarrow> extension_reads bs e)"
  have "?I (ipv6_extensions h) c \<and> chain_next c = (None, c)"
    using w
  proof (rule walk_extensions_invariant)
    show "?I [] (chain_new bs IPV6_LENGTH p)"
      by (simp add: chain_new_def)
    fix es c x c'
    assume I: "?I es c" and nxt: "chain_next c = (Some (Ok x), c')"
    note item = chain_next_item [OF nxt]
    note x = chain_step_Ok [OF item(4,10)]
    have "extension_reads bs x" if "ext_protocol x \<noteq> FRAGMENT"
    proof -
      have "ipv6_extension_header_length (chain_protocol c) (take 2 (drop (chain_offset c) bs) ! 1) = Some (ext_length x)"
        using item(4) that x(1) I by (auto simp: chain_step_def outcome_iff checked_iff bind_eq_Some_conv split: if_splits)
      moreover have "take 2 (drop (chain_offset c) bs) ! 1 = bs ! (ext_offset x + 1)"
        using x(2,3) I by (auto simp: extension_in_def ext_end_def)
      ultimately show ?thesis
        using x I that item(10) by (auto simp: extension_reads_def extension_in_def)
    qed
    then show "?I (es @ [x]) c'"
      using I item(7) by auto
  qed
  then show ?thesis
    using assms(2,3) by blast
qed

section \<open>The prefix of a fragment\<close>

lemma linked_append:
  "linked p off (xs @ ys) q stop \<longleftrightarrow> (\<exists>p' off'. linked p off xs p' off' \<and> linked p' off' ys q stop)"
  by (induction xs arbitrary: p off) auto

lemma linked_length: "linked p off es q stop \<Longrightarrow> \<forall>e\<in>set es. 8 \<le> ext_length e \<Longrightarrow> off + 8 * length es \<le> stop"
proof (induction es arbitrary: p off)
  case (Cons e es)
  then have "ext_end e + 8 * length es \<le> stop"
    by auto
  then show ?case
    using Cons.prems by (auto simp: ext_end_def)
qed simp

lemma unfragmentable_split:
  assumes "unfragmentable index es found = Ok (pl, pn)"
  shows "(\<forall>e\<in>set es. ext_protocol e \<notin> {FRAGMENT, AH})
    \<and> ((pl, pn) = found \<or> (\<exists>xs e ys. es = xs @ e # ys \<and> pl = ext_end e \<and> pn = ext_offset e))"
  using assms
proof (induction es arbitrary: index found)
  case (Cons e es)
  then obtain found' where rest: "unfragmentable (index + 1) es found' = Ok (pl, pn)"
      and found': "found' = found \<or> found' = (ext_end e, ext_offset e)" and e: "ext_protocol e \<notin> {FRAGMENT, AH}"
    by (auto split: if_splits)
  have none: "\<forall>x\<in>set (e # es). ext_protocol x \<notin> {FRAGMENT, AH}"
    using Cons.IH [OF rest] e by auto
  have "(pl, pn) = found' \<or> (\<exists>xs x ys. es = xs @ x # ys \<and> pl = ext_end x \<and> pn = ext_offset x)"
    using Cons.IH [OF rest] by blast
  then have "(pl, pn) = found \<or> (\<exists>xs x ys. e # es = xs @ x # ys \<and> pl = ext_end x \<and> pn = ext_offset x)"
  proof
    assume "(pl, pn) = found'"
    then show ?thesis
      using found' by (metis append_Nil prod.inject)
  next
    assume "\<exists>xs x ys. es = xs @ x # ys \<and> pl = ext_end x \<and> pn = ext_offset x"
    then show ?thesis
      by (metis append_Cons)
  qed
  with none show ?case
    by blast
qed simp

definition fragment_prefix :: "bytes \<Rightarrow> usize \<Rightarrow> usize \<Rightarrow> nat \<Rightarrow> bytes" where
  "fragment_prefix ip pl pn len = copy_at ((take pl ip)[pn := FRAGMENT]) 4 (be_bytes 2 len)"

definition prefix_bounds :: "bytes \<Rightarrow> usize \<Rightarrow> usize \<Rightarrow> bool" where
  "prefix_bounds ip pl pn \<longleftrightarrow> 40 \<le> pl \<and> pl \<le> length ip \<and> pn < pl \<and> (pn = 6 \<or> 40 \<le> pn)"

lemma fragment_prefix_fields:
  assumes "prefix_bounds ip pl pn" and "len < 65536"
  shows "length (fragment_prefix ip pl pn len) = pl" and "fragment_prefix ip pl pn len ! pn = FRAGMENT"
    and "i < pl \<Longrightarrow> i \<notin> {4, 5, pn} \<Longrightarrow> fragment_prefix ip pl pn len ! i = ip ! i"
    and "unat (be16 (fragment_prefix ip pl pn len ! 4) (fragment_prefix ip pl pn len ! 5)) = len"
proof -
  let ?q = "fragment_prefix ip pl pn len"
  have b: "40 \<le> pl" "pl \<le> length ip" "pn < pl" "pn = 6 \<or> 40 \<le> pn"
    using assms(1) by (auto simp: prefix_bounds_def)
  have len: "length ((take pl ip)[pn := FRAGMENT]) = pl"
    using b(2) by simp
  show "length ?q = pl"
    unfolding fragment_prefix_def using b(1,2) by (subst length_copy_at) simp_all
  have nth: "?q ! i = (if i = 4 then be_bytes 2 len ! 0 else if i = 5 then be_bytes 2 len ! 1
      else if i = pn then FRAGMENT else ip ! i)" if "i < pl" for i
    using that b(1-3) unfolding fragment_prefix_def by (subst nth_copy_at) (auto simp: nth_list_update)
  show "?q ! pn = FRAGMENT" and "i < pl \<Longrightarrow> i \<notin> {4, 5, pn} \<Longrightarrow> ?q ! i = ip ! i"
    using b(3,4) by (auto simp: nth)
  show "unat (be16 (?q ! 4) (?q ! 5)) = len"
    using be16_be_bytes [of "of_nat len :: u16"] b(1) assms(2) by (simp add: unat_of_nat nth)
qed

lemma prefix_predecessor:
  assumes walk: "ipv6_walk ip = Ok h" and found: "unfragmentable 0 (ipv6_extensions h) (IPV6_LENGTH, 6) = Ok (pl, pn)"
    and small: "len < 65536"
  shows "prefix_bounds ip pl pn" and "ipv6_fragment_predecessor (fragment_prefix ip pl pn len) = Some pn"
proof -
  note b = ipv6_prefix_bounds [OF walk found]
  obtain n where n: "40 + n \<le> length ip" and chain: "ipv6_walk_chain (take (40 + n) ip) n (ip ! 6) = Ok h"
    using walk by (auto simp: ipv6_walk_Ok ipv6_walk_fixed_Ok IPV6_LENGTH_def)
  note w = ipv6_walk_chain_walked [OF chain]
  note split = unfragmentable_split [OF found]
  have fits: "ipv6_datagram_length h = 40 + n"
    using w(1) by (simp add: ipv6_datagram_length_def IPV6_LENGTH_def)
  have reads: "extension_reads (take (40 + n) ip) e" if "e \<in> set (ipv6_extensions h)" for e
    using walk_reads [OF chain that] split that by blast
  have "prefix_bounds ip pl pn \<and> ipv6_fragment_predecessor (fragment_prefix ip pl pn len) = Some pn"
  proof (cases "(pl, pn) = (IPV6_LENGTH, 6)")
    case True
    then have bounds: "prefix_bounds ip pl pn"
      using b by (simp add: prefix_bounds_def IPV6_LENGTH_def)
    note q = fragment_prefix_fields [OF bounds small]
    show ?thesis
      using bounds q(1,2) True
      by (simp add: ipv6_fragment_predecessor_def first_chunk_def predecessor_loop.simps chain_position_def chain_new_def
          chain_with_ceiling_def IPV6_LENGTH_def)
  next
    case False
    then obtain xs e ys where es: "ipv6_extensions h = xs @ e # ys" "pl = ext_end e" "pn = ext_offset e"
      using split by blast
    obtain p' off' where link: "linked (ip ! 6) 40 xs p' off'" "ext_protocol e = p'" "ext_offset e = off'"
      using w(2,3) unfolding es(1) linked_append by (auto simp: IPV6_LENGTH_def)
    have e: "8 \<le> ext_length e" "40 \<le> pn"
      using reads [of e] linked_inside [OF w(3), of e] by (auto simp: es extension_reads_def IPV6_LENGTH_def)
    have bounds: "prefix_bounds ip pl pn"
      using b e(2) by (simp add: prefix_bounds_def)
    let ?q = "fragment_prefix ip pl pn len" and ?e = "e\<lparr>ext_next_header := FRAGMENT\<rparr>"
    note q = fragment_prefix_fields [OF bounds small]
    have inside: "pl \<le> 40 + n"
      using b(3,4) fits by simp
    have move: "extension_reads ?q x'" if "extension_reads (take (40 + n) ip) x" "40 \<le> ext_offset x" "ext_end x \<le> pl"
        "x' = x\<lparr>ext_next_header := ?q ! ext_offset x\<rparr>" "ext_offset x + 1 \<noteq> pn" for x x'
    proof -
      have x: "8 \<le> ext_length x" "ext_offset x + ext_length x \<le> pl"
        using that(1,3) by (auto simp: extension_reads_def ext_end_def)
      have "?q ! (ext_offset x + 1) = take (40 + n) ip ! (ext_offset x + 1)"
        using q(3) [of "ext_offset x + 1"] x inside that(2,5) by simp
      then show ?thesis
        using that(1,3) q(1) unfolding that(4) extension_reads_def by (simp add: ext_end_def del: nth_take)
    qed
    have before: "extension_reads ?q x" if x: "x \<in> set xs" for x
    proof -
      have r: "extension_reads (take (40 + n) ip) x"
        using reads x by (simp add: es)
      have at: "40 \<le> ext_offset x" "ext_end x \<le> pn" "8 \<le> ext_length x"
        using linked_inside [OF link(1) x] link(3) r by (simp_all add: es extension_reads_def)
      then have lt: "ext_offset x + 1 < pn" "ext_offset x < pl" "ext_end x \<le> pl"
        using bounds by (simp_all add: ext_end_def prefix_bounds_def)
      have "?q ! ext_offset x = ext_next_header x"
        using q(3) [of "ext_offset x"] lt at r inside by (simp add: extension_reads_def)
      then show ?thesis
        using move [OF r at(1) lt(3)] lt(1) by simp
    qed
    have last: "extension_reads ?q ?e"
      using reads [of e] e(2) q(2) by (intro move [where x = e]) (simp_all add: es)
    have chain': "linked (ip ! 6) 40 (xs @ [?e]) FRAGMENT (length ?q)"
      using link q(1) by (simp add: linked_snoc es ext_end_def)
    have "40 + 8 * length (xs @ [?e]) \<le> length ?q"
      using before last by (intro linked_length [OF chain']) (auto simp: extension_reads_def)
    then have count: "length (xs @ [?e]) \<le> length ?q div 8"
      by simp
    have "?q ! 6 = ip ! 6" "40 \<le> length ?q"
      using q(1) q(3) [of 6] bounds e(2) by (auto simp: prefix_bounds_def)
    then have "ipv6_fragment_predecessor ?q
        = predecessor_loop ?q (chain_with_ceiling (length ?q div 8) (chain_new ?q IPV6_LENGTH (ip ! 6))) 6"
      by (simp add: ipv6_fragment_predecessor_def first_chunk_def IPV6_LENGTH_def)
    also have "\<dots> = Some (if xs @ [?e] = [] then 6 else ext_offset (last (xs @ [?e])))"
      using before last count chain'
      by (intro predecessor_found [where p = "ip ! 6"]) (auto simp: chain_with_ceiling_def chain_new_def IPV6_LENGTH_def)
    finally show ?thesis
      using bounds by (simp add: es)
  qed
  then show "prefix_bounds ip pl pn" and "ipv6_fragment_predecessor (fragment_prefix ip pl pn len) = Some pn"
    by blast+
qed

end
