(* ===== verification/Fragment_Reassembly.thy ===== *)
theory Fragment_Reassembly
  imports Fragment_Whole Ip_Cut
begin

text \<open>
  Fragmentation and reassembly together, for IPv4: the fragments that \<open>fragment\<close> cuts are pieces the
  reassembler accepts, and the datagram it completes is the one that was cut.
\<close>

section \<open>A part as the reassembler sees it\<close>

definition key_of_header :: "scope_id \<Rightarrow> bytes \<Rightarrow> u16 \<Rightarrow> ipv4_datagram_key" where
  "key_of_header sc b identification =
     Ipv4DatagramKey sc (ipv4_of [b ! 12, b ! 13, b ! 14, b ! 15]) (ipv4_of [b ! 16, b ! 17, b ! 18, b ! 19])
       identification (b ! 9)"

definition observed4 :: "scope_id \<Rightarrow> ipv4_part \<Rightarrow> fragment" where
  "observed4 sc p =
     FragmentV4 \<lparr>f4_key = key_of_header sc (part_bytes p) (ipv4_identification (part_header p)),
       f4_fragment_offset = ipv4_flags_and_offset (part_header p) AND 0x1fff, f4_more_fragments = part_more p,
       f4_header = part_bytes p, f4_payload = part_payload p\<rparr>"

definition piece4 :: "scope_id \<Rightarrow> bytes \<Rightarrow> u16 \<Rightarrow> nat \<Rightarrow> nat \<Rightarrow> ipv4_part \<Rightarrow> incoming" where
  "piece4 sc header identification n position p =
     \<lparr>in_key = KeyV4 (key_of_header sc header identification), in_offset = position,
      in_end = position + length (part_payload p), in_more_fragments = (position + length (part_payload p) < n),
      in_payload = part_payload p, in_reconstruction = IncIpv4 (part_bytes p), in_ecn = ecn_from_ipv4_tos (header ! 1)\<rparr>"

lemma tile4_bytes:
  assumes "tile4 mtu header identification n position p" and "position < 65536"
  shows "20 \<le> length (part_bytes p)" and "drop_bit 4 (part_bytes p ! 0) = 4"
    and "unat (part_bytes p ! 0 AND 0x0f) * 4 = length (part_bytes p)"
    and "unat (be16 (part_bytes p ! 2) (part_bytes p ! 3)) = length (part_bytes p) + length (part_payload p)"
    and "be16 (part_bytes p ! 4) (part_bytes p ! 5) = identification"
    and "be16 (part_bytes p ! 6) (part_bytes p ! 7) = fragment_word (position + length (part_payload p) < n) position"
    and "i \<in> {1, 8, 9} \<union> {12..<20} \<Longrightarrow> part_bytes p ! i = header ! i"
    and "length (part_bytes p) \<le> length header" and "checksum_parts [part_bytes p] = 0"
    and "length (part_bytes p) + length (part_payload p) \<le> mtu"
proof -
  obtain base where base: "base_ipv4_ok base" "length base \<le> length header" "\<forall>i\<in>{1..<20}. base ! i = header ! i"
      "length base + length (part_payload p) < 65536" "length base + length (part_payload p) \<le> mtu"
    and bytes: "part_bytes p = written_ipv4 base (length base + length (part_payload p)) identification
        (fragment_word (position + length (part_payload p) < n) position)"
    using assms(1) unfolding tile4_def by blast
  have b: "20 \<le> length base" "drop_bit 4 (base ! 0) = 4" "unat (base ! 0 AND 0x0f) * 4 = length base"
    using base(1) by (simp_all add: base_ipv4_ok_def)
  note w = written_ipv4_fields [OF b(1) base(4), where identification = identification
      and flags = "fragment_word (position + length (part_payload p) < n) position", folded bytes]
  have w0: "part_bytes p ! 0 = base ! 0"
    by (rule w(2)) (use b(1) in auto)
  show "20 \<le> length (part_bytes p)" "length (part_bytes p) \<le> length header"
    "length (part_bytes p) + length (part_payload p) \<le> mtu"
    using w(1) b(1) base(2,5) by simp_all
  show "drop_bit 4 (part_bytes p ! 0) = 4" "unat (part_bytes p ! 0 AND 0x0f) * 4 = length (part_bytes p)"
    unfolding w0 w(1) by (fact b)+
  show "unat (be16 (part_bytes p ! 2) (part_bytes p ! 3)) = length (part_bytes p) + length (part_payload p)"
    unfolding w(1) by (rule w(3))
  show "be16 (part_bytes p ! 4) (part_bytes p ! 5) = identification" "checksum_parts [part_bytes p] = 0"
    "be16 (part_bytes p ! 6) (part_bytes p ! 7) = fragment_word (position + length (part_payload p) < n) position"
    by (fact w)+
  assume i: "i \<in> {1, 8, 9} \<union> {12..<20}"
  then have "part_bytes p ! i = base ! i"
    using b(1) by (intro w(2)) auto
  with i base(3) show "part_bytes p ! i = header ! i"
    by auto
qed

lemma tile4_header:
  assumes "tile4 mtu header identification n position p"
  shows "ipv4_identification (part_header p) = identification"
    and "ipv4_flags_and_offset (part_header p) = fragment_word (position + length (part_payload p) < n) position"
    and "part_payload p \<noteq> []" and "position + length (part_payload p) \<le> n"
    and "position + length (part_payload p) < n \<Longrightarrow> length (part_payload p) mod 8 = 0"
    and "ipv4_header_length (part_header p) = length (part_bytes p)"
    and "ipv4_total_length (part_header p) = length (part_bytes p) + length (part_payload p)"
  using assms written_ipv4_fields(1) by (auto simp: tile4_def base_ipv4_ok_def)

lemma tile4_first:
  assumes "tile4 mtu header identification n 0 p"
  shows "part_bytes p = written_ipv4 header (length header + length (part_payload p)) identification
      (fragment_word (length (part_payload p) < n) 0)"
    and "length (part_bytes p) = length header"
proof -
  show eq: "part_bytes p = written_ipv4 header (length header + length (part_payload p)) identification
      (fragment_word (length (part_payload p) < n) 0)"
    using assms by (auto simp: tile4_def)
  have "20 \<le> length header" "length header + length (part_payload p) < 65536"
    using assms by (auto simp: tile4_def base_ipv4_ok_def)
  then show "length (part_bytes p) = length header"
    unfolding eq by (rule written_ipv4_fields(1))
qed

lemma validate_observed4:
  assumes tile: "tile4 mtu header identification n position p" and aligned: "position mod 8 = 0"
    and fits: "length header + n < 65536" and limit: "n \<le> max_bytes_per_datagram limits" and long: "mtu < length header + n"
  shows "validate_fragment (observed4 sc p) limits = Ok (piece4 sc header identification n position p)"
proof -
  let ?b = "part_bytes p" and ?len = "length (part_payload p)"
  let ?word = "fragment_word (position + ?len < n) position"
  note h = tile4_header [OF tile]
  have pos: "position < 65536" "0 < ?len"
    using h(3,4) fits by (auto simp: Suc_le_eq)
  note b = tile4_bytes [OF tile pos(1)] and w = fragment_word_fields [OF pos(1), of "position + ?len < n"]
  have units: "unat (of_nat (position div 8) :: u16) = position div 8" "position div 8 < 8192"
    using pos(1) by (simp_all add: unat_of_nat)
  then have small: "\<not> (of_nat (position div 8) :: u16) > 0x1fff"
    by (simp add: word_less_nat_alt)
  have same: "?b ! 1 = header ! 1" "?b ! 9 = header ! 9"
    using b(7) [of 1] b(7) [of 9] by simp_all
  have key: "key_of_header sc ?b identification = key_of_header sc header identification"
    using b(7) by (simp add: key_of_header_def)
  have take: "take 20 ?b ! i = ?b ! i" if "i < 20" for i
    using that by simp
  let ?f = "\<lparr>f4_key = key_of_header sc header identification, f4_fragment_offset = of_nat (position div 8),
      f4_more_fragments = (position + ?len < n), f4_header = ?b, f4_payload = part_payload p\<rparr>"
  have obs: "observed4 sc p = FragmentV4 ?f"
    by (simp add: observed4_def part_more_def h(1,2) w key)
  have "checked_mul (unat (?b ! 0 AND 0x0f)) 4 = Some (length ?b)" "checked_add (length ?b) ?len = Some (length ?b + ?len)"
    using b(3,8) h(4) fits by (simp_all add: checked_mul_def checked_add_def usize_max_def)
  moreover have "?word AND 0x2000 = 0 \<longleftrightarrow> \<not> position + ?len < n"
    using w(2) by blast
  ultimately have header: "validate_ipv4_header ?f = Ok (ecn_from_ipv4_tos (header ! 1))"
    using b(1,2,4,5,6) w(1) same b(7) unfolding validate_ipv4_header_def
    by (simp add: first_chunk_def IPV4_MIN_LENGTH_def Let_def take key_of_header_def del: nth_take)
  have eight: "position div 8 * 8 = position"
    using aligned by presburger
  have off: "checked_mul (unat (of_nat (position div 8) :: u16)) 8 = Some position"
      "checked_add position ?len = Some (position + ?len)"
    unfolding units(1) checked_mul_def checked_add_def eight using pos h(4) fits by (simp_all add: usize_max_def)
  have atomic: "\<not> (of_nat (position div 8) = (0 :: u16) \<and> \<not> position + ?len < n)"
  proof
    assume "of_nat (position div 8) = (0 :: u16) \<and> \<not> position + ?len < n"
    then have "position = 0" "?len = n"
      using units(1) eight h(4) by auto
    then show False
      using b(10) tile4_first(2) [of mtu header identification n p] tile long by simp
  qed
  have extent: "validate_family_wire_extent None (piece4 sc header identification n position p)
      (if position + ?len < n then None else Some (position + ?len)) = Ok ()"
  proof -
    have "(if position = 0 then length ?b else 20) + (position + ?len) \<le> 65535"
      using b(1,8) h(4) fits by auto
    then show ?thesis
      by (auto simp: validate_family_wire_extent_def piece4_def last_range_end_def checked_add_def usize_max_def
          IPV4_MIN_LENGTH_def MAX_WIRE_LENGTH_def Let_def split: if_splits)
  qed
  have fit: "\<not> position + ?len > max_bytes_per_datagram limits"
    using h(4) limit by simp
  show ?thesis
    unfolding obs validate_fragment_def
    using small header atomic h(3,5) off extent fit unfolding piece4_def
    by (cases "position + ?len < n") (simp_all add: Let_def)
qed

fun pieces4 :: "scope_id \<Rightarrow> bytes \<Rightarrow> u16 \<Rightarrow> nat \<Rightarrow> nat \<Rightarrow> ipv4_part list \<Rightarrow> incoming list" where
  "pieces4 sc header identification n position [] = []"
| "pieces4 sc header identification n position (p # ps) = piece4 sc header identification n position p
     # pieces4 sc header identification n (position + length (part_payload p)) ps"

lemma tiles4_pieces:
  assumes "tiles4 mtu header identification (length pl) position ps" and "concat (map part_payload ps) = drop position pl"
    and "position mod 8 = 0 \<or> position = length pl" and "length header + length pl < 65536"
    and "length pl \<le> max_bytes_per_datagram limits" and "mtu < length header + length pl"
  shows "list_all2 (\<lambda>f inc. validate_fragment f limits = Ok inc) (map (observed4 sc) ps)
      (pieces4 sc header identification (length pl) position ps)
    \<and> cut_of (KeyV4 (key_of_header sc header identification)) pl position
      (pieces4 sc header identification (length pl) position ps)"
  using assms
proof (induction ps arbitrary: position)
  case (Cons p ps)
  let ?len = "length (part_payload p)"
  have tile: "tile4 mtu header identification (length pl) position p"
    and rest: "tiles4 mtu header identification (length pl) (position + ?len) ps"
    using Cons.prems(1) by simp_all
  note h = tile4_header [OF tile]
  have aligned: "position mod 8 = 0"
    using Cons.prems(3) h(3,4) by auto
  have next_aligned: "(position + ?len) mod 8 = 0 \<or> position + ?len = length pl"
    using aligned h(4,5) by (cases "position + ?len < length pl") (simp_all add: mod_add_eq [symmetric])
  have split: "part_payload p @ concat (map part_payload ps) = drop position pl"
    using Cons.prems(2) by simp
  have chunk: "slice_of pl position (position + ?len) = part_payload p"
    using arg_cong [OF split, of "take ?len"] by (simp add: slice_of_def)
  have tail: "concat (map part_payload ps) = drop (position + ?len) pl"
    using arg_cong [OF split, of "drop ?len"] by (simp add: add.commute)
  have valid: "validate_fragment (observed4 sc p) limits = Ok (piece4 sc header identification (length pl) position p)"
    using validate_observed4 [OF tile aligned Cons.prems(4-6)] .
  show ?case
    using Cons.IH [OF rest tail next_aligned Cons.prems(4-6)] valid h(3,4) chunk by (simp add: piece4_def)
qed simp

section \<open>The original datagram again\<close>

lemma ecn_bits_back: "ecn_ipv4_tos_bits (ecn_from_bits b) = b AND 3"
proof -
  have "b AND 3 = take_bit 2 b"
    by (simp add: take_bit_eq_mask mask_eq_exp_minus_1)
  then have "unat (b AND 3) < 4"
    by (simp add: take_bit_eq_mod unat_mod)
  then have "unat (b AND 3) = 0 \<or> unat (b AND 3) = 1 \<or> unat (b AND 3) = 2 \<or> unat (b AND 3) = 3"
    by presburger
  moreover have "b AND 3 = of_nat k" if "unat (b AND 3) = k" for k
    using that by (metis of_nat_unat ucast_id)
  ultimately have "b AND 3 = 0 \<or> b AND 3 = 1 \<or> b AND 3 = 2 \<or> b AND 3 = 3"
    by fastforce
  then show ?thesis
    by (auto simp: ecn_from_bits_def Let_def)
qed

lemma ecn_restores: "(tos AND 0xfc) OR ecn_ipv4_tos_bits (ecn_from_ipv4_tos tos) = tos"
proof -
  have "(tos AND 0xfc) OR (tos AND 3) = tos AND (0xfc OR 3)"
    by (simp only: bit.conj_disj_distrib)
  also have "(0xfc OR 3 :: u8) = -1"
    by simp
  finally show ?thesis
    by (simp add: ecn_from_ipv4_tos_def ecn_bits_back and.assoc)
qed

text \<open>Two headers that verify and differ in the checksum field only: the field is the same, or zero in one and all ones in the other.\<close>

lemma checksum_zero_sum:
  assumes "checksum_parts [bs] = 0"
  shows "word_sum bs mod 65535 = 0"
proof -
  have "NOT (of_nat (norm16 (word_sum bs)) :: u16) = 0"
    using assms by (simp add: checksum_parts_norm)
  then have "(of_nat (norm16 (word_sum bs)) :: u16) = NOT 0"
    by (metis bit.double_compl)
  then have "norm16 (word_sum bs) = 65535"
    using unat_of_nat_u16 [OF norm16_le, of "word_sum bs"] unat_not_u16 [of 0] by simp
  then show ?thesis
    using norm16_mod [of "word_sum bs"] by simp
qed

lemma checksum_field_unique:
  assumes "even (length p)" and "length c = 2" and "length d = 2"
    and "checksum_parts [p @ c @ r] = 0" and "checksum_parts [p @ d @ r] = 0"
    and "c \<noteq> [0xff, 0xff]" and "d \<noteq> [0xff, 0xff]"
  shows "c = d"
proof -
  let ?w = "word_sum (p @ [0, 0] @ r)"
  have full: "be_bytes 2 65535 = [0xff, 0xff]"
    by (simp add: be_bytes_2)
  have field: "be_nat x < 65535" if "length x = 2" "x \<noteq> [0xff, 0xff]" for x :: bytes
  proof -
    have "be_nat x < 65536"
      using be_nat_less [of x] that(1) by simp
    moreover have "be_nat x \<noteq> 65535"
      using be_bytes_be_nat [of x] full that by auto
    ultimately show ?thesis
      by simp
  qed
  have "(?w + be_nat c) mod 65535 = (?w + be_nat d) mod 65535"
    using checksum_zero_sum [OF assms(4)] checksum_zero_sum [OF assms(5)] word_sum_field [OF assms(1,2)]
      word_sum_field [OF assms(1,3)] by simp
  moreover have "x = y" if "x \<le> y" "y < 65535" "(?w + x) mod 65535 = (?w + y) mod 65535" for x y
  proof -
    have "65535 dvd (?w + y) - (?w + x)"
      using that(1,3) by (subst mod_eq_dvd_iff_nat [symmetric]) simp_all
    then show ?thesis
      using that(1,2) nat_dvd_not_less [of "y - x" 65535] by (cases "x < y") simp_all
  qed
  ultimately have "be_nat c = be_nat d"
    using field [OF assms(2,6)] field [OF assms(3,7)] nat_le_linear [of "be_nat c" "be_nat d"] by metis
  then show ?thesis
    using be_bytes_be_nat [of c] be_bytes_be_nat [of d] assms(2,3) by metis
qed

text \<open>The checksum of a header is never all ones: the version is not zero.\<close>

lemma written_checksum_not_ones:
  assumes "12 \<le> length c" and "c ! 0 \<noteq> 0"
  shows "be_bytes 2 (unat (checksum_parts [copy_at c 10 [0, 0]])) \<noteq> [0xff, 0xff]"
proof
  let ?z = "copy_at c 10 [0, 0]"
  assume ones: "be_bytes 2 (unat (checksum_parts [?z])) = [0xff, 0xff]"
  have "be_nat (be_bytes 2 (unat (checksum_parts [?z]))) = unat (checksum_parts [?z])"
    by (rule be_nat_be_bytes) (use u16_less in simp)
  then have "65535 - norm16 (word_sum ?z) = 65535"
    using unat_of_nat_u16 [OF norm16_le, of "word_sum ?z"] unfolding ones
    by (simp add: checksum_parts_norm unat_not_u16 be_nat_Cons)
  then have "word_sum ?z = 0"
    by (auto simp: norm16_def split: if_splits)
  moreover obtain d where "?z = c ! 0 # c ! 1 # d"
  proof -
    have "c = c ! 0 # c ! 1 # drop 2 c"
      using two_bytes [of 0 c, symmetric] assms(1) by (simp add: numeral_2_eq_2)
    from arg_cong [OF this, of "take 10"] have "take 10 c = c ! 0 # c ! 1 # take 8 (drop 2 c)"
      by simp
    then show thesis
      using that by (simp add: copy_at_def)
  qed
  ultimately show False
    using assms(2) by (simp add: be_nat_Cons unat_eq_0)
qed

lemma rewritten_ipv4_checksum:
  assumes "20 \<le> length h"
  obtains c where "rewritten_ipv4 h e n = copy_at c 10 (be_bytes 2 (unat (checksum_parts [copy_at c 10 [0, 0]])))"
    and "length c = length h" and "c ! 0 = h ! 0"
proof -
  define a where "a = copy_at h 2 (be_bytes 2 n)"
  define b where "b = a[1 := (a ! 1 AND 0xfc) OR ecn_ipv4_tos_bits e]"
  define c where "c = copy_at b 6 (be_bytes 2 (unat (be16 (b ! 6) (b ! 7) AND 0xc000)))"
  have len: "length a = length h" "length b = length h"
    using assms by (simp_all add: a_def b_def)
  have pos: "0 < length h"
    using assms by linarith
  have "a ! 0 = h ! 0" "b ! 0 = a ! 0" "c ! 0 = b ! 0"
    using assms pos len unfolding a_def b_def c_def by (simp_all add: nth_copy_at)
  then show thesis
    using assms len by (intro that [of c]) (simp_all add: rewritten_ipv4_def Let_def a_def b_def c_def)
qed

definition whole_ipv4_ok :: "bytes \<Rightarrow> nat \<Rightarrow> bool" where
  "whole_ipv4_ok header n \<longleftrightarrow> base_ipv4_ok header \<and> length header + n < 65536
     \<and> unat (be16 (header ! 2) (header ! 3)) = length header + n \<and> be16 (header ! 6) (header ! 7) = 0
     \<and> checksum_parts [header] = 0"

text \<open>
  Writing the first fragment's header and rewriting it for the whole datagram gives the original header
  again; only a checksum stored as all ones comes back as zero.
\<close>

lemma restored_ipv4:
  assumes whole: "whole_ipv4_ok header n" and flags: "w AND 0xc000 = 0" and m: "m < 65536"
  defines "h \<equiv> rewritten_ipv4 (written_ipv4 header m (be16 (header ! 4) (header ! 5)) w) (ecn_from_ipv4_tos (header ! 1))
      (length header + n)"
  shows "length h = length header" and "i < length header \<Longrightarrow> i \<notin> {10, 11} \<Longrightarrow> h ! i = header ! i"
    and "checksum_parts [h] = 0" and "slice_of header 10 12 \<noteq> [0xff, 0xff] \<Longrightarrow> h = header"
proof -
  let ?w = "written_ipv4 header m (be16 (header ! 4) (header ! 5)) w"
  have ok: "20 \<le> length header" "drop_bit 4 (header ! 0) = 4" "length header + n < 65536"
      "unat (be16 (header ! 2) (header ! 3)) = length header + n" "be16 (header ! 6) (header ! 7) = 0"
      "checksum_parts [header] = 0"
    using whole by (auto simp: whole_ipv4_ok_def base_ipv4_ok_def)
  note f = written_ipv4_fields [OF ok(1) m, where identification = "be16 (header ! 4) (header ! 5)" and flags = w]
  have len: "20 \<le> length ?w"
    using f(1) ok(1) by simp
  note g = rewritten_ipv4_fields [OF len ok(3), where e = "ecn_from_ipv4_tos (header ! 1)", folded h_def, unfolded f(1)]
  show lh: "length h = length header"
    using f(1) ok(1) by (simp add: h_def)
  show verify: "checksum_parts [h] = 0"
    unfolding h_def using len by (intro rewritten_ipv4_verifies) simp
  have w1: "?w ! 1 = header ! 1" "?w ! 0 = header ! 0"
    by (rule f(2); use ok(1) in auto)+
  have pair: "a = c \<and> b = d" if "be16 a b = be16 c d" for a b c d
    using arg_cong [OF that, of "\<lambda>x. be_bytes 2 (unat x)"] by simp
  have "unat (be16 (h ! 2) (h ! 3)) = unat (be16 (header ! 2) (header ! 3))"
    using g(2) ok(4) by simp
  then have total: "h ! 2 = header ! 2 \<and> h ! 3 = header ! 3"
    by (intro pair unsigned_word_eqI)
  have ident: "?w ! 4 = header ! 4 \<and> ?w ! 5 = header ! 5"
    using f(4) by (rule pair)
  have flag: "h ! 6 = header ! 6 \<and> h ! 7 = header ! 7"
    using g(4) f(5) flags ok(5) by (intro pair) simp
  show same: "h ! i = header ! i" if i: "i < length header" "i \<notin> {10, 11}" for i
  proof -
    consider "i = 1" | "i \<in> {2, 3}" | "i \<in> {6, 7}" | "i \<in> {4, 5}" | "i \<notin> {1, 2, 3, 4, 5, 6, 7, 10, 11}"
      using i by auto
    then show ?thesis
    proof cases
      case 1
      then show ?thesis
        using g(3) w1(1) ecn_restores by simp
    next
      case 4
      then show ?thesis
        using g(1) [of i] i ident by auto
    next
      case 5
      then show ?thesis
        using g(1) [of i] f(2) [of i] i by auto
    qed (use total flag in auto)
  qed
  assume stored: "slice_of header 10 12 \<noteq> [0xff, 0xff]"
  obtain c where c: "h = copy_at c 10 (be_bytes 2 (unat (checksum_parts [copy_at c 10 [0, 0]])))" "length c = length ?w"
      "c ! 0 = ?w ! 0"
    unfolding h_def by (rule rewritten_ipv4_checksum [OF len])
  have "header ! 0 \<noteq> 0"
    using ok(2) by auto
  then have new: "slice_of h 10 12 \<noteq> [0xff, 0xff]"
    using written_checksum_not_ones [of c] c w1(2) len f(1) unfolding c(1) by (simp add: slice_of_def copy_at_def)
  have parts: "header = take 10 header @ slice_of header 10 12 @ drop 12 header"
    "h = take 10 header @ slice_of h 10 12 @ drop 12 header"
  proof -
    have cut: "x = take 10 x @ slice_of x 10 12 @ drop 12 x" for x :: bytes
      using append_take_drop_id [of 10 x] append_take_drop_id [of 2 "drop 10 x"] by (simp add: slice_of_def)
    show "header = take 10 header @ slice_of header 10 12 @ drop 12 header"
      by (rule cut)
    have "take 10 h = take 10 header" "drop 12 h = drop 12 header"
      using lh ok(1) by (auto intro!: nth_equalityI same)
    then show "h = take 10 header @ slice_of h 10 12 @ drop 12 header"
      using cut [of h] by simp
  qed
  have "slice_of header 10 12 = slice_of h 10 12"
  proof (rule checksum_field_unique [where p = "take 10 header" and r = "drop 12 header"])
    show "checksum_parts [take 10 header @ slice_of header 10 12 @ drop 12 header] = 0"
      using ok(6) parts(1) by simp
    show "checksum_parts [take 10 header @ slice_of h 10 12 @ drop 12 header] = 0"
      using verify parts(2) by simp
  qed (use stored new lh ok(1) in simp_all)
  then show "h = header"
    using parts by metis
qed

section \<open>Fragment, then reassemble\<close>

text \<open>The fragment metadata that the bytes of a frame stand for.\<close>

definition read_ipv4_fragment :: "scope_id \<Rightarrow> link_header \<Rightarrow> frame \<Rightarrow> fragment option" where
  "read_ipv4_fragment sc link f =
     (case link_walk_ip link (fr_bytes f) of
        Ok (Some (IpV4 h)) \<Rightarrow>
          let ip = drop (network_offset link) (fr_bytes f) in
          Some (observed4 sc (h, take (ipv4_header_length h) ip, slice_of ip (ipv4_header_length h) (ipv4_total_length h)))
      | _ \<Rightarrow> None)"

lemma read_parts: "list_all2 (part_of link) fs ps \<Longrightarrow> map (read_ipv4_fragment sc link) fs = map Some (map (observed4 sc) ps)"
  by (induction fs ps rule: list_all2_induct) (auto simp: read_ipv4_fragment_def carries_ipv4_def Let_def)

lemma whole_header:
  assumes "carries_ipv4 link frame h header payload" and "checksum_parts [header] = 0" and "ipv4_flags_and_offset h = 0"
  shows "whole_ipv4_ok header (length payload)" and "be16 (header ! 4) (header ! 5) = ipv4_identification h"
proof -
  note o' = carries_ipv4_bytes [OF assms(1)]
  note b = ipv4_walk_lengths_bounds [OF o'(1) [unfolded ipv4_walk_def]]
    and f = ipv4_walk_lengths_fields [OF o'(1) [unfolded ipv4_walk_def]]
  have nth: "header ! i = drop (network_offset link) (fr_bytes frame) ! i" if "i < 20" for i
    using that b(1) o'(2) by (intro o'(5)) simp
  have f': "ipv4_total_length h = unat (be16 (header ! 2) (header ! 3))" "ipv4_identification h = be16 (header ! 4) (header ! 5)"
      "ipv4_flags_and_offset h = be16 (header ! 6) (header ! 7)"
    using f(3-5) by (simp_all add: nth)
  show "be16 (header ! 4) (header ! 5) = ipv4_identification h"
    by (simp add: f'(2))
  show "whole_ipv4_ok header (length payload)"
    using o'(2-4) b(4,5) assms(2,3) f'(1,3) by (simp add: whole_ipv4_ok_def)
qed

lemma first_piece:
  assumes "tiles4 mtu header identification n 0 ps" and "inc \<in> set (pieces4 sc header identification n 0 ps)"
    and "in_offset inc = 0" and "0 < n"
  shows "in_reconstruction inc = IncIpv4 (part_bytes (hd ps)) \<and> tile4 mtu header identification n 0 (hd ps)"
proof -
  have later: "position \<le> in_offset i" if "i \<in> set (pieces4 sc header identification n position qs)" for i position qs
    using that by (induction qs arbitrary: position) (fastforce simp: piece4_def)+
  obtain p qs where ps: "ps = p # qs"
    using assms(1,4) by (cases ps) auto
  then have tile: "tile4 mtu header identification n 0 p"
    using assms(1) by simp
  have "inc = piece4 sc header identification n 0 p \<or> length (part_payload p) \<le> in_offset inc"
    using assms(2) later [of inc "length (part_payload p)" qs] by (auto simp: ps)
  then show ?thesis
    using assms(3) tile4_header(3) [OF tile] tile by (auto simp: ps piece4_def)
qed

lemma pieces4_ecn: "inc \<in> set (pieces4 sc header identification n position ps) \<Longrightarrow>
    in_ecn inc = ecn_from_ipv4_tos (header ! 1) \<and> (\<exists>b. in_reconstruction inc = IncIpv4 b)"
  by (induction ps arbitrary: position) (auto simp: piece4_def)

theorem fragments_reassemble:
  assumes car: "carries_ipv4 link frame h header payload" and long: "fo_mtu options < ipv4_total_length h"
    and cut: "fragment_ipv4 frame (network_offset link) (drop (network_offset link) (fr_bytes frame)) h options = Ok fs"
    and same_id: "chosen_identification options (ipv4_identification h) = ipv4_identification h"
    and ok: "ip_ok limits policy r" and limit: "length payload \<le> max_bytes_per_datagram limits"
    and key: "key = KeyV4 (key_of_header sc header (ipv4_identification h))" and fresh: "bt_get (ir_datagrams r) key = None"
    and run: "ip_push_all alloc run r = (trace, r')" and good: "list_all (\<lambda>(f, result). \<exists>out. result = Ok out) trace"
    and perm: "mset (map (Some \<circ> fst) run) = mset (map (read_ipv4_fragment sc link) fs)"
  shows "\<exists>o' d hd'. snd (last trace) = Ok (PushCompleted o' d) \<and> cd_key d = key \<and> cd_bytes d = hd' @ payload
      \<and> length hd' = length header \<and> (\<forall>i<length header. i \<notin> {10, 11} \<longrightarrow> hd' ! i = header ! i)
      \<and> checksum_parts [hd'] = 0 \<and> (slice_of header 10 12 \<noteq> [0xff, 0xff] \<longrightarrow> hd' = header)"
    and "list_all (\<lambda>(f, result). \<exists>o'. result = Ok (PushAccepted o')) (butlast trace)"
    and "bt_get (ir_datagrams r') key = None"
proof -
  let ?id = "ipv4_identification h" and ?n = "length payload"
  obtain ps where ps: "list_all2 (part_of link) fs ps" "tiles4 (fo_mtu options) header ?id ?n 0 ps"
      "concat (map part_payload ps) = payload" and sum: "checksum_parts [header] = 0" "ipv4_flags_and_offset h = 0"
      and ne: "payload \<noteq> []"
    by (rule fragment_ipv4_parts [OF car long cut]) (unfold same_id, blast)
  note whole = whole_header [OF car sum]
  note o' = carries_ipv4_bytes [OF car]
  have fits: "length header + ?n < 65536" "fo_mtu options < length header + ?n"
    using whole(1) long o'(2,3) by (simp_all add: whole_ipv4_ok_def)
  let ?incs = "pieces4 sc header ?id ?n 0 ps"
  have drop: "concat (map part_payload ps) = drop 0 payload"
    using ps(3) by simp
  have zero: "(0 :: nat) mod 8 = 0 \<or> 0 = ?n"
    by simp
  have valid: "list_all2 (\<lambda>f inc. validate_fragment f limits = Ok inc) (map (observed4 sc) ps) ?incs"
    and pieces: "cut_of key payload 0 ?incs"
    using tiles4_pieces [OF ps(2) drop zero fits(1) limit fits(2)] unfolding key by blast+
  have "image_mset Some (mset (map fst run)) = image_mset Some (mset (map (observed4 sc) ps))"
    using perm unfolding read_parts [OF ps(1)] by (simp add: multiset.map_comp)
  moreover have "inj (image_mset (Some :: fragment \<Rightarrow> _))"
    by (rule multiset.inj_map) simp
  ultimately have perm': "mset (map fst run) = mset (map (observed4 sc) ps)"
    by (rule injD [rotated])
  note any = cut_any_order [OF ok fresh run good valid pieces ne perm']
  show "list_all (\<lambda>(f, result). \<exists>o'. result = Ok (PushAccepted o')) (butlast trace)" "bt_get (ir_datagrams r') key = None"
    by (fact any)+
  obtain o' d rc where last: "snd (last trace) = Ok (PushCompleted o' d)" "cd_key d = key" "cd_bytes d = rebuilt rc payload"
      "has_header rc" "header_from (set ?incs) rc" "ecn_of_all (in_ecn ` set ?incs) = Ok (reconstruction_ecn rc)"
    using any(1) unfolding delivered_def by blast
  have "set ?incs \<noteq> {}"
    using pieces ne by (cases ps) auto
  then have ecn: "reconstruction_ecn rc = ecn_from_ipv4_tos (header ! 1)"
    using same_ecn [OF _ _ last(6)] pieces4_ecn by blast
  obtain b e inc where rc: "rc = RecIpv4 (Some b) e" "inc \<in> set ?incs" "in_offset inc = 0" "in_reconstruction inc = IncIpv4 b"
    using last(4,5) pieces4_ecn [of _ sc header ?id ?n 0 ps]
    by (cases rc rule: reconstruction.exhaust) (fastforce elim: option.exhaust)+
  have first: "b = part_bytes (hd ps)" "tile4 (fo_mtu options) header ?id ?n 0 (hd ps)"
    using first_piece [OF ps(2) rc(2,3)] rc(4) ne by auto
  let ?m = "length header + length (part_payload (hd ps))" and ?w = "fragment_word (length (part_payload (hd ps)) < ?n) 0"
  have b: "b = written_ipv4 header ?m ?id ?w" "length b = length header" "?m < 65536"
    using tile4_first [OF first(2)] tile4_header(4) [OF first(2)] fits(1) unfolding first(1) by simp_all
  have w: "?w AND 0xc000 = 0"
    by (rule fragment_word_fields(3)) simp
  note again = restored_ipv4 [OF whole(1) w b(3), unfolded whole(2), folded b(1)]
  have bytes: "cd_bytes d = rewritten_ipv4 b (ecn_from_ipv4_tos (header ! 1)) (length header + ?n) @ payload"
    using last(3) ecn b(2) by (simp add: rc(1))
  show "\<exists>o' d hd'. snd (last trace) = Ok (PushCompleted o' d) \<and> cd_key d = key \<and> cd_bytes d = hd' @ payload
      \<and> length hd' = length header \<and> (\<forall>i<length header. i \<notin> {10, 11} \<longrightarrow> hd' ! i = header ! i)
      \<and> checksum_parts [hd'] = 0 \<and> (slice_of header 10 12 \<noteq> [0xff, 0xff] \<longrightarrow> hd' = header)"
    using last(1,2) bytes again by blast
qed

end
