(* ===== verification/Fragment_Reassembly6.thy ===== *)
theory Fragment_Reassembly6
  imports Fragment_Ipv6 Fragment_Reassembly
begin

text \<open>
  Fragmentation and reassembly together, for IPv6: the reassembled datagram is the original, bit for bit.
\<close>

section \<open>A fragment as the reassembler sees it\<close>

definition read_ipv6_fragment :: "scope_id \<Rightarrow> usize \<Rightarrow> usize \<Rightarrow> usize \<Rightarrow> frame \<Rightarrow> fragment" where
  "read_ipv6_fragment sc off pl pn f =
     (let ip = drop off (fr_bytes f); word = be16 (ip ! (pl + 2)) (ip ! (pl + 3)) in
      FragmentV6 \<lparr>f6_key = Ipv6DatagramKey sc (ipv6_of (slice_of ip 8 24)) (ipv6_of (slice_of ip 24 40))
          (of_nat (be_nat (slice_of ip (pl + 4) (pl + 8)))),
        f6_fragment_offset = drop_bit 3 word, f6_more_fragments = (word AND 1 \<noteq> 0), f6_next_header = ip ! pl,
        f6_unfragmentable_prefix = take pl ip, f6_predecessor_next_header_offset = pn,
        f6_payload = slice_of ip (pl + 8) (40 + unat (be16 (ip ! 4) (ip ! 5)))\<rparr>)"

definition key6 :: "scope_id \<Rightarrow> bytes \<Rightarrow> u32 \<Rightarrow> datagram_key" where
  "key6 sc ip identification =
     KeyV6 (Ipv6DatagramKey sc (ipv6_of (slice_of ip 8 24)) (ipv6_of (slice_of ip 24 40)) identification)"

definition fragment6 :: "scope_id \<Rightarrow> bytes \<Rightarrow> usize \<Rightarrow> usize \<Rightarrow> u32 \<Rightarrow> nat \<Rightarrow> nat \<Rightarrow> bytes \<Rightarrow> ipv6_fragment" where
  "fragment6 sc ip pl pn identification n position chunk =
     \<lparr>f6_key = Ipv6DatagramKey sc (ipv6_of (slice_of ip 8 24)) (ipv6_of (slice_of ip 24 40)) identification,
      f6_fragment_offset = of_nat (position div 8), f6_more_fragments = (position + length chunk < n),
      f6_next_header = ip ! pn, f6_unfragmentable_prefix = fragment_prefix ip pl pn (pl - 40 + 8 + length chunk),
      f6_predecessor_next_header_offset = pn, f6_payload = chunk\<rparr>"

definition piece6 :: "scope_id \<Rightarrow> bytes \<Rightarrow> usize \<Rightarrow> usize \<Rightarrow> u32 \<Rightarrow> nat \<Rightarrow> nat \<Rightarrow> bytes \<Rightarrow> incoming" where
  "piece6 sc ip pl pn identification n position chunk =
     \<lparr>in_key = key6 sc ip identification, in_offset = position, in_end = position + length chunk,
      in_more_fragments = (position + length chunk < n), in_payload = chunk,
      in_reconstruction = IncIpv6 (fragment_prefix ip pl pn (pl - 40 + 8 + length chunk)) pn (ip ! pn),
      in_ecn = ecn_from_ipv6_traffic_class (ip ! 1)\<rparr>"

lemma fragment_word6:
  fixes w :: u16
  assumes "position < 65536" and "position mod 8 = 0"
    and w: "w = (of_nat position AND 0xfff8) OR (if m then 1 else 0)"
  shows "drop_bit 3 w = of_nat (position div 8)" and "w AND 1 \<noteq> 0 \<longleftrightarrow> m"
proof -
  obtain k where k: "position = 8 * k"
    using assms(2) by (metis dvdE mod_0_imp_dvd)
  then have small: "k < 8192"
    using assms(1) by simp
  have "(of_nat position :: u16) = push_bit 3 (of_nat k)"
    by (simp add: k push_bit_eq_mult)
  moreover have "(0xfff8 :: u16) = push_bit 3 (mask 13)"
    by (simp add: mask_eq_exp_minus_1 push_bit_eq_mult)
  moreover have "(of_nat k :: u16) AND mask 13 = of_nat k"
    using small by (simp add: take_bit_eq_mask [symmetric] take_bit_of_nat take_bit_nat_eq_self)
  ultimately have masked: "(of_nat position :: u16) AND 0xfff8 = push_bit 3 (of_nat k)"
    by (metis push_bit_and)
  have bits: "bit w n \<longleftrightarrow> n < 16 \<and> (if n = 0 then m else 3 \<le> n \<and> bit (of_nat k :: u16) (n - 3))" for n
    unfolding w masked by (auto simp: bit_simps)
  have high: "bit (of_nat k :: u16) n \<Longrightarrow> n < 13" for n
    using \<open>(of_nat k :: u16) AND mask 13 = of_nat k\<close> by (metis bit_and_iff bit_mask_iff)
  have "bit (drop_bit 3 w) n = bit (of_nat k :: u16) n" for n
    using high [of n] by (auto simp: bit_drop_bit_eq bits)
  then show "drop_bit 3 w = of_nat (position div 8)"
    by (simp add: k bit_eq_iff)
  have "w AND 1 = (if m then 1 else 0)"
    by (simp add: and_one_eq odd_iff_mod_2_eq_one [symmetric] mod_2_eq_odd bit_0 [symmetric] bits)
  then show "w AND 1 \<noteq> 0 \<longleftrightarrow> m"
    by simp
qed

lemma read_step6:
  assumes step: "fragment_step6 ip pl pn identification room n position = Ok (header, used)"
    and bounds: "prefix_bounds ip pl pn" and pos: "position < 65536" "position mod 8 = 0" and off: "off \<le> length (fr_bytes frame)"
    and used: "length chunk = used"
  shows "read_ipv6_fragment sc off pl pn (fragment_of frame off header chunk)
    = FragmentV6 (fragment6 sc ip pl pn identification n position chunk)"
proof -
  define w :: u16 where "w = (of_nat position AND 0xfff8) OR (if position + used < n then 1 else 0)"
  define q where "q = fragment_prefix ip pl pn (pl - 40 + 8 + used)"
  define ids where "ids = be_bytes 4 (unat identification)"
  note s = fragment_step6_Ok [OF step]
  note q = fragment_prefix_fields [OF bounds s(5), folded q_def]
  have b: "40 \<le> pl" "pl \<le> length ip" "pn < pl" "pn = 6 \<or> 40 \<le> pn"
    using bounds by (auto simp: prefix_bounds_def)
  obtain pad where bytes: "drop off (fr_bytes (fragment_of frame off header chunk))
      = q @ [ip ! pn, 0, be_bytes 2 (unat w) ! 0, be_bytes 2 (unat w) ! 1] @ ids @ chunk @ pad" (is "_ = ?bs")
    using off b(3) by (auto simp: fragment_of_def Let_def s(6) q_def fragment_prefix_def w_def ids_def be_bytes_2)
  have ids: "length ids = 4" "be_nat ids = unat identification"
    using be_nat_be_bytes [of "unat identification" 4] unsigned_less [of identification] by (simp_all add: ids_def)
  have fields: "?bs ! pl = ip ! pn" "be16 (?bs ! (pl + 2)) (?bs ! (pl + 3)) = w" "slice_of ?bs (pl + 4) (pl + 8) = ids"
      "take pl ?bs = q" "slice_of ?bs (pl + 8) (pl + 8 + used) = chunk"
    using q(1) ids(1) used be16_be_bytes [of w] by (simp_all add: nth_append slice_of_def)
  have front: "?bs ! i = q ! i" if "i < pl" for i
    using that q(1) by (simp add: nth_append)
  have len: "40 + unat (be16 (?bs ! 4) (?bs ! 5)) = pl + 8 + used"
    using q(4) b(1) front by simp
  have address: "slice_of ?bs i j = slice_of ip i j" if "8 \<le> i" "j \<le> 40" for i j
  proof (rule nth_equalityI)
    show "length (slice_of ?bs i j) = length (slice_of ip i j)"
      using q(1) b(1,2) that by (simp add: slice_of_def)
    fix k
    assume "k < length (slice_of ?bs i j)"
    then have "i + k < j"
      by (simp add: slice_of_def)
    then show "slice_of ?bs i j ! k = slice_of ip i j ! k"
      using q(1,3) b that front [of "i + k"] by (auto simp: slice_of_def)
  qed
  have addresses: "slice_of ?bs 8 24 = slice_of ip 8 24" "slice_of ?bs 24 40 = slice_of ip 24 40"
    by (rule address; simp)+
  show ?thesis
    unfolding read_ipv6_fragment_def Let_def bytes fields len fragment_word6 [OF pos w_def] ids(2) addresses
    by (simp add: fragment6_def used q_def)
qed

text \<open>Such a fragment passes the reassembler's checks.\<close>

lemma validate_fragment6:
  assumes bounds: "prefix_bounds ip pl pn" and version: "drop_bit 4 (ip ! 0) = 6"
    and pred: "ipv6_fragment_predecessor (fragment_prefix ip pl pn (pl - 40 + 8 + length chunk)) = Some pn"
    and chunk: "chunk \<noteq> []" "position + length chunk \<le> n" "position + length chunk < n \<Longrightarrow> length chunk mod 8 = 0"
    and pos: "position mod 8 = 0" and fits: "pl - 40 + n < 65536" "pl - 40 + 8 + length chunk < 65536"
    and limit: "n \<le> max_bytes_per_datagram limits" and several: "length chunk < n"
  shows "validate_fragment (FragmentV6 (fragment6 sc ip pl pn identification n position chunk)) limits
    = Ok (piece6 sc ip pl pn identification n position chunk)"
proof -
  let ?len = "length chunk"
  define q where "q = fragment_prefix ip pl pn (pl - 40 + 8 + ?len)"
  define f where "f = fragment6 sc ip pl pn identification n position chunk"
  note q = fragment_prefix_fields [OF bounds fits(2), folded q_def]
  have b: "40 \<le> pl" "pl \<le> length ip" "pn < pl" "pn = 6 \<or> 40 \<le> pn"
    using bounds by (auto simp: prefix_bounds_def)
  have units: "unat (of_nat (position div 8) :: u16) = position div 8" "position div 8 < 8192"
    using chunk(2) fits(1) by (simp_all add: unat_of_nat)
  then have small: "\<not> (of_nat (position div 8) :: u16) > 0x1fff"
    by (simp add: word_less_nat_alt)
  have front: "take 40 q ! 0 = ip ! 0" "take 40 q ! 1 = ip ! 1" "take 40 q ! 4 = q ! 4" "take 40 q ! 5 = q ! 5"
    using q(3) [of 0] q(3) [of 1] b by auto
  have address: "take 16 (drop i q) = slice_of ip i (i + 16)" if "i = 8 \<or> i = 24" for i
  proof (rule nth_equalityI)
    show "length (take 16 (drop i q)) = length (slice_of ip i (i + 16))"
      using q(1) b(1,2) that by (auto simp: slice_of_def)
    fix k
    assume "k < length (take 16 (drop i q))"
    then show "take 16 (drop i q) ! k = slice_of ip i (i + 16) ! k"
      using q(1) q(3) [of "i + k"] b that by (auto simp: slice_of_def)
  qed
  have room: "16 \<le> pl - 8" "16 \<le> pl - 24" "pl - 40 \<le> 18446744073709551607"
    using b(1) fits(1) by simp_all
  have prefix: "validate_ipv6_prefix f = Ok (ecn_from_ipv6_traffic_class (ip ! 1))"
    unfolding validate_ipv6_prefix_def Let_def f_def fragment6_def ipv6_fragment.simps q_def [symmetric]
    using q(1,4) b(1) version pred [folded q_def] front address [of 8] address [of 24] fits room
    by (simp add: first_chunk_def get_from_def checked_sub_def checked_add_def usize_max_def IPV6_LENGTH_def
        IPV6_FRAGMENT_HEADER_LENGTH_def del: nth_take)
  have eight: "position div 8 * 8 = position"
    using pos by presburger
  have off: "checked_mul (unat (of_nat (position div 8) :: u16)) 8 = Some position"
      "checked_add position ?len = Some (position + ?len)"
    unfolding units(1) checked_mul_def checked_add_def eight using chunk(2) fits(1) by (simp_all add: usize_max_def)
  have atomic: "\<not> (of_nat (position div 8) = (0 :: u16) \<and> \<not> position + ?len < n)"
    using units(1) eight several by auto
  have extent: "validate_family_wire_extent None (piece6 sc ip pl pn identification n position chunk)
      (if position + ?len < n then None else Some (position + ?len)) = Ok ()"
    unfolding validate_family_wire_extent_def piece6_def incoming.simps q_def [symmetric]
    using q(1) b(1) chunk(2) fits(1)
    by (auto simp: last_range_end_def checked_add_def checked_sub_def usize_max_def IPV6_LENGTH_def MAX_WIRE_LENGTH_def
        Let_def ensure_iff)
  have fit: "\<not> position + ?len > max_bytes_per_datagram limits"
    using chunk(2) limit by simp
  show ?thesis
    unfolding f_def [symmetric] validate_fragment_def
    using small prefix atomic chunk(1,3) off extent fit unfolding piece6_def
    by (cases "position + ?len < n") (simp_all add: Let_def f_def fragment6_def key6_def)
qed

section \<open>All of them\<close>

text \<open>The frames of one run, read back, are the consecutive pieces of the payload.\<close>

lemma tiled6_pieces:
  assumes "tiled (fragment_step6 ip pl pn identification room (length payload)) frame off payload position fs"
    and bounds: "prefix_bounds ip pl pn" and version: "drop_bit 4 (ip ! 0) = 6"
    and pred: "\<And>len. len < 65536 \<Longrightarrow> ipv6_fragment_predecessor (fragment_prefix ip pl pn len) = Some pn"
    and off: "off \<le> length (fr_bytes frame)" and fits: "pl - 40 + length payload < 65536"
    and limit: "length payload \<le> max_bytes_per_datagram limits" and several: "room < length payload"
    and "position mod 8 = 0 \<or> position = length payload" and "position \<le> length payload"
  shows "\<exists>incs. list_all2 (\<lambda>f inc. validate_fragment f limits = Ok inc) (map (read_ipv6_fragment sc off pl pn) fs) incs
    \<and> cut_of (key6 sc ip identification) payload position incs
    \<and> (\<forall>inc\<in>set incs. in_ecn inc = ecn_from_ipv6_traffic_class (ip ! 1)
        \<and> (\<exists>len<65536. in_reconstruction inc = IncIpv6 (fragment_prefix ip pl pn len) pn (ip ! pn)))"
  using assms(1,9,10)
proof (induction fs arbitrary: position)
  case Nil
  then show ?case
    by (intro exI [of _ "[]"]) simp
next
  case (Cons f fs)
  let ?n = "length payload"
  obtain header used where less: "position < ?n" "position + used \<le> ?n"
    and step: "fragment_step6 ip pl pn identification room ?n position = Ok (header, used)"
    and f: "f = fragment_of frame off header (slice_of payload position (position + used))"
    and rest: "tiled (fragment_step6 ip pl pn identification room ?n) frame off payload (position + used) fs"
    using Cons.prems(1) by auto
  define chunk where "chunk = slice_of payload position (position + used)"
  have len: "length chunk = used"
    using less(2) by (simp add: chunk_def)
  have aligned: "position mod 8 = 0"
    using Cons.prems(2) less(1) by auto
  note s = fragment_step6_Ok [OF step] and c = payload_count_Ok [OF fragment_step6_Ok(1) [OF step]]
  have eight: "used mod 8 = 0" if "position + used < ?n"
    using c(4) that by simp
  have next_aligned: "(position + used) mod 8 = 0 \<or> position + used = ?n"
    using aligned eight less(2) by (cases "position + used < ?n") (simp_all add: mod_add_eq [symmetric])
  obtain incs where incs: "list_all2 (\<lambda>f inc. validate_fragment f limits = Ok inc) (map (read_ipv6_fragment sc off pl pn) fs) incs"
      "cut_of (key6 sc ip identification) payload (position + used) incs"
      "\<forall>inc\<in>set incs. in_ecn inc = ecn_from_ipv6_traffic_class (ip ! 1)
        \<and> (\<exists>len<65536. in_reconstruction inc = IncIpv6 (fragment_prefix ip pl pn len) pn (ip ! pn))"
    using Cons.IH [OF rest next_aligned less(2)] by blast
  have small: "position < 65536"
    using less(1) fits by simp
  have read: "read_ipv6_fragment sc off pl pn f = FragmentV6 (fragment6 sc ip pl pn identification ?n position chunk)"
    unfolding f chunk_def [symmetric] by (rule read_step6 [OF step bounds small aligned off len])
  have ne: "chunk \<noteq> []"
    using len c(1) by auto
  have valid: "validate_fragment (FragmentV6 (fragment6 sc ip pl pn identification ?n position chunk)) limits
      = Ok (piece6 sc ip pl pn identification ?n position chunk)"
    by (rule validate_fragment6 [OF bounds version pred ne])
       (use len less eight aligned fits s(5) limit several c(2) in auto)
  have "\<exists>len<65536. IncIpv6 (fragment_prefix ip pl pn (pl - 40 + 8 + used)) pn (ip ! pn)
      = IncIpv6 (fragment_prefix ip pl pn len) pn (ip ! pn)"
    using s(5) by blast
  then show ?case
    using incs valid ne len less(2)
    by (intro exI [of _ "piece6 sc ip pl pn identification ?n position chunk # incs"])
       (simp add: read piece6_def chunk_def [symmetric])
qed

section \<open>The original datagram, bit for bit\<close>

lemma ecn_restores6: "(b AND NOT 0x30) OR ecn_ipv6_traffic_class_bits (ecn_from_ipv6_traffic_class b) = b"
proof -
  have "(0x30 :: u8) = push_bit 4 3" "drop_bit 4 (0x30 :: u8) = 3"
    by simp_all
  moreover have "push_bit 4 (drop_bit 4 b AND c) = b AND push_bit 4 c" for c
    by (rule bit_word_eqI) (auto simp: bit_push_bit_iff bit_and_iff bit_drop_bit_eq)
  ultimately have "push_bit 4 (drop_bit 4 (b AND 0x30) AND 3) = b AND 0x30"
    by (simp only: drop_bit_and and.assoc and.idem)
  moreover have "(b AND NOT 0x30) OR (b AND 0x30) = b AND (NOT 0x30 OR 0x30)"
    by (simp only: bit.conj_disj_distrib)
  ultimately show ?thesis
    by (simp add: ecn_ipv6_traffic_class_bits_def ecn_from_ipv6_traffic_class_def ecn_bits_back)
qed

lemma restored_ipv6:
  assumes bounds: "prefix_bounds ip pl pn" and len: "len < 65536"
  shows "rewritten_ipv6 (fragment_prefix ip pl pn len) pn (ip ! pn) (ecn_from_ipv6_traffic_class (ip ! 1))
    (unat (be16 (ip ! 4) (ip ! 5))) = take pl ip"
proof -
  note q = fragment_prefix_fields [OF bounds len]
  have b: "40 \<le> pl" "pl \<le> length ip" "pn < pl" "pn = 6 \<or> 40 \<le> pn"
    using bounds by (auto simp: prefix_bounds_def)
  show ?thesis
  proof (rule nth_equalityI)
    fix i
    let ?q = "fragment_prefix ip pl pn len"
    assume "i < length (rewritten_ipv6 ?q pn (ip ! pn) (ecn_from_ipv6_traffic_class (ip ! 1)) (unat (be16 (ip ! 4) (ip ! 5))))"
    then have i: "i < pl"
      using q(1) b(1) by (simp add: rewritten_ipv6_def Let_def)
    have field: "copy_at ?q 4 [ip ! 4, ip ! 5] ! j = (if j = 4 \<or> j = 5 then ip ! j else ?q ! j)" if "j < pl" for j
      using that q(1) b(1) by (subst nth_copy_at) (auto simp: nth_Cons')
    have one: "?q ! 1 = ip ! 1"
      using q(3) [of 1] b by auto
    show "rewritten_ipv6 ?q pn (ip ! pn) (ecn_from_ipv6_traffic_class (ip ! 1)) (unat (be16 (ip ! 4) (ip ! 5))) ! i
        = take pl ip ! i"
      using i b q(1) q(3) [OF i] field [of 1] field [OF i] one ecn_restores6 [of "ip ! 1"]
      by (auto simp: rewritten_ipv6_def Let_def nth_list_update)
  qed (use q(1) b in \<open>simp add: rewritten_ipv6_def Let_def\<close>)
qed

text \<open>What a run of \<open>ipv6\<close> leaves for the reassembler.\<close>

lemma fragment_ipv6_pieces:
  assumes walk: "ipv6_walk ip = Ok h" and off: "off \<le> length (fr_bytes frame)"
    and cut: "fragment_ipv6 frame off ip h options = Ok fs" and long: "fo_mtu options < ipv6_datagram_length h"
    and found: "unfragmentable 0 (ipv6_extensions h) (IPV6_LENGTH, 6) = Ok (pl, pn)"
    and id: "fo_identification options = Some identification"
    and limit: "ipv6_datagram_length h - pl \<le> max_bytes_per_datagram limits"
  obtains payload incs where "take pl ip @ payload = take (ipv6_datagram_length h) ip" and "payload \<noteq> []"
    and "pl - 40 + length payload = unat (be16 (ip ! 4) (ip ! 5))" and "prefix_bounds ip pl pn"
    and "list_all2 (\<lambda>f inc. validate_fragment f limits = Ok inc) (map (read_ipv6_fragment sc off pl pn) fs) incs"
    and "cut_of (key6 sc ip identification) payload 0 incs"
    and "\<forall>inc\<in>set incs. in_ecn inc = ecn_from_ipv6_traffic_class (ip ! 1)
        \<and> (\<exists>len<65536. in_reconstruction inc = IncIpv6 (fragment_prefix ip pl pn len) pn (ip ! pn))"
proof -
  define n where "n = unat (be16 (ip ! 4) (ip ! 5))"
  have total: "ipv6_datagram_length h = 40 + n" "40 + n \<le> length ip" "drop_bit 4 (ip ! 0) = 6" "n < 65536"
    using walk ipv6_walk_chain_walked(1) u16_less [of "be16 (ip ! 4) (ip ! 5)"]
    by (auto simp: ipv6_walk_Ok ipv6_walk_fixed_Ok ipv6_datagram_length_def IPV6_LENGTH_def n_def)
  define payload where "payload = slice_of ip pl (40 + n)"
  have notle: "\<not> ipv6_datagram_length h \<le> fo_mtu options"
    using long by simp
  obtain room: "pl + 8 \<le> fo_mtu options" and pl: "pl < 40 + n"
    and loop: "fragment_loop6 frame off ip pl pn identification (fo_mtu options - (pl + 8)) payload options 0 (0, []) = Ok fs"
    using fragment_ipv6_Ok [OF cut walk notle] found id unfolding total(1) payload_def by force
  note tiled = cut_run_start(2) [OF fragment_loop6_run [OF loop]]
  have pay: "length payload = 40 + n - pl" "payload \<noteq> []"
    using total(2) pl by (simp_all add: payload_def slice_of_def)
  note bounds = prefix_predecessor(1) [OF walk found, of 0, simplified]
  have b: "40 \<le> pl"
    using bounds by (simp add: prefix_bounds_def)
  have several: "fo_mtu options - (pl + 8) < length payload" "pl - 40 + length payload < 65536"
      "length payload \<le> max_bytes_per_datagram limits"
    using room long limit pl b total(1,4) pay(1) by simp_all
  have "take pl ip @ payload = take (ipv6_datagram_length h) ip" "pl - 40 + length payload = n"
    using pl b pay(1) take_add [of pl "40 + n - pl" ip] by (simp_all add: payload_def slice_of_def total(1))
  then show thesis
    using tiled6_pieces [OF tiled bounds total(3) prefix_predecessor(2) [OF walk found] off several(2,3,1), of sc] pay(2) bounds
    by (auto simp: n_def intro: that)
qed

theorem fragments_reassemble6:
  assumes walk: "ipv6_walk ip = Ok h" and off: "off \<le> length (fr_bytes frame)"
    and cut: "fragment_ipv6 frame off ip h options = Ok fs" and long: "fo_mtu options < ipv6_datagram_length h"
    and found: "unfragmentable 0 (ipv6_extensions h) (IPV6_LENGTH, 6) = Ok (pl, pn)"
    and id: "fo_identification options = Some identification"
    and ok: "ip_ok limits policy r" and limit: "ipv6_datagram_length h - pl \<le> max_bytes_per_datagram limits"
    and fresh: "bt_get (ir_datagrams r) (key6 sc ip identification) = None"
    and run: "ip_push_all alloc run r = (trace, r')" and good: "list_all (\<lambda>(f, result). \<exists>out. result = Ok out) trace"
    and perm: "mset (map fst run) = mset (map (read_ipv6_fragment sc off pl pn) fs)"
  shows "\<exists>o' d. snd (last trace) = Ok (PushCompleted o' d) \<and> cd_key d = key6 sc ip identification
      \<and> cd_bytes d = take (ipv6_datagram_length h) ip"
    and "list_all (\<lambda>(f, result). \<exists>o'. result = Ok (PushAccepted o')) (butlast trace)"
    and "bt_get (ir_datagrams r') (key6 sc ip identification) = None"
proof -
  let ?key = "key6 sc ip identification" and ?ecn = "ecn_from_ipv6_traffic_class (ip ! 1)"
  obtain payload incs where whole: "take pl ip @ payload = take (ipv6_datagram_length h) ip" and ne: "payload \<noteq> []"
    and total: "pl - 40 + length payload = unat (be16 (ip ! 4) (ip ! 5))" and bounds: "prefix_bounds ip pl pn"
    and valid: "list_all2 (\<lambda>f inc. validate_fragment f limits = Ok inc) (map (read_ipv6_fragment sc off pl pn) fs) incs"
    and pieces: "cut_of ?key payload 0 incs"
    and each: "\<forall>inc\<in>set incs. in_ecn inc = ?ecn
        \<and> (\<exists>len<65536. in_reconstruction inc = IncIpv6 (fragment_prefix ip pl pn len) pn (ip ! pn))"
    by (rule fragment_ipv6_pieces [OF walk off cut long found id limit])
  note any = cut_any_order [OF ok fresh run good valid pieces ne perm]
  show "list_all (\<lambda>(f, result). \<exists>o'. result = Ok (PushAccepted o')) (butlast trace)" "bt_get (ir_datagrams r') ?key = None"
    by (fact any)+
  obtain o' d rc where last: "snd (last trace) = Ok (PushCompleted o' d)" "cd_key d = ?key" "cd_bytes d = rebuilt rc payload"
      "has_header rc" "header_from (set incs) rc" "ecn_of_all (in_ecn ` set incs) = Ok (reconstruction_ecn rc)"
    using any(1) unfolding delivered_def by blast
  have "set incs \<noteq> {}"
    using pieces ne by auto
  then have ecn: "reconstruction_ecn rc = ?ecn"
    using same_ecn [OF _ _ last(6)] each by blast
  obtain len e z where rc: "rc = RecIpv6 (fragment_prefix ip pl pn len) pn (ip ! pn) e z" "len < 65536"
    using last(4,5) each by (cases rc rule: reconstruction.exhaust) fastforce+
  have "cd_bytes d = take (ipv6_datagram_length h) ip"
    using last(3) ecn restored_ipv6 [OF bounds rc(2)] fragment_prefix_fields(1) [OF bounds rc(2)] whole
    by (simp add: rc(1) total)
  then show "\<exists>o' d. snd (last trace) = Ok (PushCompleted o' d) \<and> cd_key d = ?key
      \<and> cd_bytes d = take (ipv6_datagram_length h) ip"
    using last(1,2) by blast
qed

end
