(* ===== verification/Ip_Theorems.thy ===== *)
theory Ip_Theorems
  imports Ip_Order
begin

text \<open>
  The promises of the IP reassembler, each stated over the operations of the code and shown on a
  concrete run: the two fragments of a ten-byte payload, the second one first.
\<close>

section \<open>A concrete run\<close>

definition demo_ip_limits :: ip_limits where
  "demo_ip_limits = \<lparr>max_datagrams = 2, max_fragments_per_datagram = 4, max_bytes_per_datagram = 100,
     ip_max_aggregate_bytes = 10000, max_retained_outcomes = 1, ip_idle_expiry = 10\<rparr>"

definition demo_datagram :: ipv4_datagram_key where
  "demo_datagram = Ipv4DatagramKey 0 1 2 7 17"

definition demo_header :: "u8 \<Rightarrow> u8 \<Rightarrow> u8 \<Rightarrow> bytes" where
  "demo_header len high low = [0x45, 0, 0, len, 0, 7, high, low, 64, 17, 0, 0, 0, 0, 0, 1, 0, 0, 0, 2]"

definition demo_first :: fragment where
  "demo_first = FragmentV4 \<lparr>f4_key = demo_datagram, f4_fragment_offset = 0, f4_more_fragments = True,
     f4_header = demo_header 28 0x20 0, f4_payload = [1, 2, 3, 4, 5, 6, 7, 8]\<rparr>"

definition demo_second :: fragment where
  "demo_second = FragmentV4 \<lparr>f4_key = demo_datagram, f4_fragment_offset = 1, f4_more_fragments = False,
     f4_header = demo_header 22 0 1, f4_payload = [9, 10]\<rparr>"

definition demo_ip_start :: ip_reassembler where
  "demo_ip_start = \<lparr>ir_limits = demo_ip_limits, ir_overlap_policy = Reject, ir_datagrams = [], ir_expiry = [],
     ir_retained = \<lparr>rt_payload_bytes = 0, rt_memory_charge = 0, rt_datagram_slots = 0\<rparr>\<rparr>"

definition demo_state :: datagram_state where
  "demo_state = \<lparr>ds_ranges = [\<lparr>rr_start = 8, rr_bytes = \<lparr>dq_items = [9, 10], dq_head = 0, dq_capacity = 2\<rparr>\<rparr>],
     ds_unique_bytes = 2, ds_fragment_count = 1, ds_duplicate_fragments = 0, ds_overlap_bytes = 0,
     ds_final_length = Some 10, ds_max_non_final_end = None, ds_reconstruction = RecIpv4 None NotEct,
     ds_last_update = 5, ds_deadline = Some 15, ds_memory_charge = 66\<rparr>"

definition demo_ip_table :: ip_reassembler where
  "demo_ip_table = demo_ip_start\<lparr>ir_datagrams := [(KeyV4 demo_datagram, demo_state)],
     ir_expiry := [((15, KeyV4 demo_datagram), ())],
     ir_retained := \<lparr>rt_payload_bytes = 2, rt_memory_charge = 4162, rt_datagram_slots = 1\<rparr>\<rparr>"

lemmas demo_ip_defs = demo_ip_limits_def demo_datagram_def demo_header_def demo_first_def demo_second_def
  demo_ip_start_def demo_state_def demo_ip_table_def

lemmas ip_eval = ip_push_def push_with_external_charge_def ip_plan_push_def validate_fragment_def
  validate_ipv4_header_def validate_family_wire_extent_def validate_reconstruction_consistency_def
  accumulated_ecn_def plan_final_length_def plan_merge_def plan_update_def preferred_capacity_def choose_capacity_def
  try_capacity_def plan_storage_def admit_charges_def replacement_allocation_charge_def total_capacity_def
  completes_def reconstruction_retained_bytes_def reconstruction_copied_bytes_def select_retained_header_def
  materialize_reconstruction_def copy_bytes_def try_reserve_def choose_update_def merge_affected_def copy_into_def
  copy_retained_def ip_store_def ip_complete_def in_slot_def write_slot_def run_effect apply_range_update_def next_non_final_end_def outcome_of_def
  disposition_of_def completed_payload_def reconstructed_length_def ranges_of_def last_range_end_def range_end_def
  deque_truncate_def deque_from_vec_def deque_as_slices_def ecn_from_ipv4_tos_def ecn_from_bits_def ecn_merge_def
  ipv4_of_def be_nat_def be16_def first_chunk_def IPV4_MIN_LENGTH_def MAX_WIRE_LENGTH_def
  DATAGRAM_METADATA_CHARGE_def RANGE_METADATA_CHARGE_def checked_add_def checked_sub_def checked_mul_def
  saturating_add_def saturating_mul_def usize_max_def instant_checked_add_def instant_max_def get_index_def get_range_def
  slice_of_def write_range_def copy_at_def measure_overlap_def expiry_insert_def expiry_remove_def bt_get_def Let_def

lemma demo_ip_new: "ip_new 0 demo_ip_limits Reject = Ok demo_ip_start"
  by (simp add: ip_new_def ip_limits_validate_def ip_violation_def expiry_violation_def instant_checked_add_def
      instant_max_def demo_ip_defs)

definition demo_incoming :: "nat \<Rightarrow> incoming" where
  "demo_incoming i =
     (if i = 0
      then \<lparr>in_key = KeyV4 demo_datagram, in_offset = 0, in_end = 8, in_more_fragments = True,
        in_payload = [1, 2, 3, 4, 5, 6, 7, 8], in_reconstruction = IncIpv4 (demo_header 28 0x20 0), in_ecn = NotEct\<rparr>
      else \<lparr>in_key = KeyV4 demo_datagram, in_offset = 8, in_end = 10, in_more_fragments = False,
        in_payload = [9, 10], in_reconstruction = IncIpv4 (demo_header 22 0 1), in_ecn = NotEct\<rparr>)"

lemma demo_validated:
  "validate_fragment demo_first demo_ip_limits = Ok (demo_incoming 0)"
  "validate_fragment demo_second demo_ip_limits = Ok (demo_incoming 1)"
  by (simp_all add: demo_incoming_def demo_ip_defs ip_eval)

lemma demo_ip_push: "ip_push (\<lambda>_ _. True) demo_second 5 demo_ip_start
    = (Ok (PushAccepted \<lparr>fo_key = KeyV4 demo_datagram, fo_disposition = Accepted 2, fo_fragment_count = 1,
        fo_unique_bytes = 2, fo_known_final_length = Some 10\<rparr>), demo_ip_table)"
  unfolding ip_push_def push_with_external_charge_def and_then_reads ip_plan_push_def demo_ip_start_def Let_def ip_reassembler.simps
    demo_validated let_ok.simps
  by (simp add: ip_eval demo_ip_defs demo_incoming_def)

lemma demo_ip_completes:
  "\<exists>o' d r'. ip_push (\<lambda>_ _. True) demo_first 6 demo_ip_table = (Ok (PushCompleted o' d), r') \<and> cd_key d = KeyV4 demo_datagram"
  unfolding ip_push_def push_with_external_charge_def and_then_reads ip_plan_push_def demo_ip_table_def demo_ip_start_def Let_def
    ip_reassembler.simps demo_validated let_ok.simps
  by (simp add: ip_eval demo_ip_defs demo_incoming_def reconstruct_ipv4_eq retained_release_def)

lemma demo_ip_reachable: "ip_reachable demo_ip_limits Reject demo_ip_table"
  using ip_reachable.push [OF ip_reachable.start [OF demo_ip_new] demo_ip_push [unfolded ip_push_def]] .

section \<open>Properties\<close>

text \<open>
  C2: A datagram is reassembled from its fragments in any order. When the fragments of one datagram carry
  pieces of one payload, however they overlap or repeat, in whatever order they arrive, interleaved with
  any fragments of other datagrams, and each of its pushes is accepted, then every push before the one that
  closes the last gap leaves the datagram incomplete, and that one delivers it: the payload, byte for byte,
  behind the rewritten header of the fragment at offset zero, with the congestion marking of all fragments
  together, whatever the overlap policy; the datagram is then gone from the table.
\<close>
theorem ip_datagram_in_any_order:
  assumes "ip_reachable limits policy r" and "bt_get (ir_datagrams r) key = None"
    and "ip_push_all alloc (fs @ [f]) r = (trace, r')" and "all_pushed limits key trace"
    and "\<And>inc. inc \<in> pieces limits key (fs @ [f]) \<Longrightarrow> piece_of pl inc"
    and "covered (pieces limits key fs) \<noteq> {0..<length pl}"
    and "covered (pieces limits key (fs @ [f])) = {0..<length pl}"
  shows "(\<exists>o' d rc. snd (last trace) = Ok (PushCompleted o' d) \<and> cd_key d = key \<and> cd_bytes d = rebuilt rc pl
      \<and> has_header rc \<and> header_from (pieces limits key (fs @ [f])) rc
      \<and> ecn_of_all (in_ecn ` pieces limits key (fs @ [f])) = Ok (reconstruction_ecn rc))
    \<and> list_all (\<lambda>(g, result). incoming_of limits key g \<noteq> None \<longrightarrow> (\<exists>o'. result = Ok (PushAccepted o'))) (butlast trace)
    \<and> bt_get (ir_datagrams r') key = None"
  using ip_any_order [OF ip_reachable_ok [OF assms(1)] assms(2-4) _ assms(6,7)] assms(5)
  by (simp add: delivered_def) blast

definition demo_run :: "(fragment \<times> instant) list" where
  "demo_run = [(demo_second, 5), (demo_first, 6)]"

lemma demo_pieces:
  "pieces demo_ip_limits (KeyV4 demo_datagram) [(demo_second, 5)] = {demo_incoming 1}"
  "pieces demo_ip_limits (KeyV4 demo_datagram) ([(demo_second, 5)] @ [(demo_first, 6)]) = {demo_incoming 0, demo_incoming 1}"
  by (auto simp: incoming_of_def demo_validated demo_incoming_def)

lemma demo_piece_of: "i \<in> {0, 1} \<Longrightarrow> piece_of [1, 2, 3, 4, 5, 6, 7, 8, 9, 10] (demo_incoming i)"
  by (auto simp: piece_of_def demo_incoming_def in_byte_def bytes_at_def map_le_def nth_Cons' split: if_splits)

lemma demo_covered: "dom (in_byte (demo_incoming 0)) = {0..<8}" "dom (in_byte (demo_incoming 1)) = {8..<10}"
  by (simp_all add: demo_incoming_def in_byte_def eval_nat_numeral)

theorem ip_datagram_in_any_order_witness:
  "\<exists>o' d rc r'. ip_push (\<lambda>_ _. True) demo_first 6 demo_ip_table = (Ok (PushCompleted o' d), r')
    \<and> cd_bytes d = rebuilt rc [1, 2, 3, 4, 5, 6, 7, 8, 9, 10] \<and> reconstruction_ecn rc = NotEct
    \<and> bt_get (ir_datagrams r') (KeyV4 demo_datagram) = None"
proof -
  let ?pl = "[1, 2, 3, 4, 5, 6, 7, 8, 9, 10] :: bytes" and ?key = "KeyV4 demo_datagram"
  obtain o' d r' where push: "ip_push (\<lambda>_ _. True) demo_first 6 demo_ip_table = (Ok (PushCompleted o' d), r')"
    using demo_ip_completes by blast
  obtain trace where run: "ip_push_all (\<lambda>_ _. True) ([(demo_second, 5)] @ [(demo_first, 6)]) demo_ip_start = (trace, r')"
    and last: "snd (last trace) = Ok (PushCompleted o' d)" and pushed: "all_pushed demo_ip_limits ?key trace"
    by (simp add: demo_ip_push push all_pushed_def)
  have fresh: "bt_get (ir_datagrams demo_ip_start) ?key = None"
    by (simp add: demo_ip_start_def bt_get_def)
  have pieces: "piece_of ?pl inc" if "inc \<in> pieces demo_ip_limits ?key ([(demo_second, 5)] @ [(demo_first, 6)])" for inc
    using that demo_piece_of unfolding demo_pieces by auto
  have gap: "covered (pieces demo_ip_limits ?key [(demo_second, 5)]) \<noteq> {0..<length ?pl}"
  proof
    assume eq: "covered (pieces demo_ip_limits ?key [(demo_second, 5)]) = {0..<length ?pl}"
    have "0 \<in> {0..<length ?pl}"
      by simp
    then show False
      unfolding eq [symmetric] demo_pieces covered_simps demo_covered by simp
  qed
  have full: "covered (pieces demo_ip_limits ?key ([(demo_second, 5)] @ [(demo_first, 6)])) = {0..<length ?pl}"
    unfolding demo_pieces covered_simps demo_covered by auto
  have ecn: "in_ecn ` {demo_incoming 0, demo_incoming 1} = {NotEct}"
    by (simp add: demo_incoming_def)
  note all = ip_datagram_in_any_order [OF ip_reachable.start [OF demo_ip_new] fresh run pushed pieces gap full]
  from all obtain rc where rc: "cd_bytes d = rebuilt rc ?pl" "ecn_of_all {NotEct} = Ok (reconstruction_ecn rc)"
    unfolding demo_pieces(2) ecn last outcome.inject push_outcome.inject by blast
  have "reconstruction_ecn rc = NotEct"
    using rc(2) by (simp add: ecn_of_all_def)
  then show ?thesis
    using push rc(1) all by blast
qed

text \<open>
  C6: Memory is bounded and the books are exact. In every reachable state the two aggregates are what the
  retained datagrams add up to, plus the table slots ever used; both stay within the aggregate limit, the
  number of datagrams within its limit, and every datagram within its byte and fragment limits, with the
  byte count that of the positions it really holds.
\<close>
theorem ip_memory_bounded:
  assumes "ip_reachable limits policy r"
  shows "ip_aggregate_memory_charge r = (\<Sum>(k, st)\<leftarrow>ir_datagrams r. ds_memory_charge st)
      + DATAGRAM_METADATA_CHARGE * rt_datagram_slots (ir_retained r)
    \<and> ip_aggregate_payload_bytes r = (\<Sum>(k, st)\<leftarrow>ir_datagrams r. ds_unique_bytes st)
    \<and> ip_aggregate_memory_charge r \<le> ip_max_aggregate_bytes limits \<and> ip_aggregate_payload_bytes r \<le> ip_max_aggregate_bytes limits
    \<and> ip_datagram_count r \<le> rt_datagram_slots (ir_retained r) \<and> rt_datagram_slots (ir_retained r) \<le> max_datagrams limits
    \<and> (\<forall>(k, st)\<in>set (ir_datagrams r). ds_unique_bytes st = card (dom (content (ds_ranges st)))
        \<and> ds_unique_bytes st \<le> max_bytes_per_datagram limits \<and> ds_fragment_count st \<le> max_fragments_per_datagram limits)"
proof -
  have ok: "ip_ok limits policy r"
    using assms by (rule ip_reachable_ok)
  then have bt: "btree_ok (ir_datagrams r)"
    by (simp add: ip_ok_def)
  have "ds_unique_bytes st = card (dom (content (ds_ranges st)))
      \<and> ds_unique_bytes st \<le> max_bytes_per_datagram limits \<and> ds_fragment_count st \<le> max_fragments_per_datagram limits"
    if "(k, st) \<in> set (ir_datagrams r)" for k st
  proof -
    have "table_datagrams_ok r" "ir_limits r = limits"
      using ok by (simp_all add: ip_ok_def)
    then have good: "datagram_ok limits k st"
      using that bt_get_mem_iff [OF bt, of k st] by (auto simp: table_datagrams_ok_def)
    have "dom (content (ds_ranges st)) \<subseteq> {0..<max_bytes_per_datagram limits}"
      using good by (auto simp: dom_content datagram_ok_def)
    then have "card (dom (content (ds_ranges st))) \<le> max_bytes_per_datagram limits"
      using card_mono [of "{0..<max_bytes_per_datagram limits}"] by fastforce
    then show ?thesis
      using good by (simp add: datagram_ok_def)
  qed
  then show ?thesis
    using ok map_total_bt_get [OF bt]
    by (auto simp: ip_ok_def accounted_def ip_aggregate_memory_charge_def ip_aggregate_payload_bytes_def ip_datagram_count_def)
qed

theorem ip_memory_bounded_witness:
  "ip_aggregate_memory_charge demo_ip_table = 66 + 4096 \<and> ip_aggregate_memory_charge demo_ip_table \<le> 10000
    \<and> ip_datagram_count demo_ip_table \<le> 2"
  using ip_memory_bounded [OF demo_ip_reachable]
  by (simp add: demo_ip_table_def demo_state_def demo_ip_start_def demo_ip_limits_def DATAGRAM_METADATA_CHARGE_def)

text \<open>
  C10: No operation panics. In no reachable state does an index, slice, subtraction or \<open>expect\<close> of a push
  fail, whatever the fragment, the clock, the external charge and the allocator, and \<open>expire\<close> and \<open>flush\<close>
  always return.
\<close>
theorem ip_never_panics:
  assumes "ip_reachable limits policy r" and "\<And>table. mset (visit table) = mset table"
  shows "fst (push_with_external_charge alloc fragment now external r) \<noteq> Panic
    \<and> (\<exists>retired r'. ip_expire now r = (Ok (retired, r') :: (ip_error, _) outcome))
    \<and> (\<exists>retired r'. ip_flush visit r = (Ok (retired, r') :: (ip_error, _) outcome))"
proof -
  have ok: "ip_ok limits policy r"
    using assms(1) by (rule ip_reachable_ok)
  have "fst (push_with_external_charge alloc fragment now external r) \<noteq> Panic"
    using ip_push_ok(2) [OF ok, of alloc fragment now external] by (metis prod.collapse)
  moreover have "\<exists>retired r'. ip_expire now r = (Ok (retired, r') :: (ip_error, _) outcome)"
    by (rule ip_expire_ok [OF ok]) blast
  moreover have "\<exists>retired r'. ip_flush visit r = (Ok (retired, r') :: (ip_error, _) outcome)"
    by (rule ip_flush_ok [OF ok assms(2)]) blast
  ultimately show ?thesis
    by blast
qed

theorem ip_never_panics_witness:
  "fst (push_with_external_charge (\<lambda>_ _. False) demo_first 6 3 demo_ip_table) \<noteq> Panic
    \<and> (\<exists>retired r'. ip_flush rev demo_ip_table = (Ok (retired, r') :: (ip_error, _) outcome))"
  using ip_never_panics [OF demo_ip_reachable, of rev "\<lambda>_ _. False" demo_first 6 3] by simp

text \<open>
  C8: An accepted push refines the map of bytes. After it the datagram holds the union of what it held and
  what the fragment carries; where both have a byte, the policy \<open>Last\<close> takes the fragment's and the others
  the retained one, and under \<open>Reject\<close> an accepted fragment contradicts nothing; the final length is the one
  the last fragment announces. The datagram is delivered exactly when no byte below its final length is
  missing, and no other datagram changes.
\<close>
theorem ip_push_refines:
  assumes "ip_reachable limits policy r" and "validate_fragment fragment limits = Ok inc"
    and "push_with_external_charge alloc fragment now external r = (Ok outcome, r')"
  shows "(case outcome of
      PushAccepted _ \<Rightarrow>
        retained_of r' (in_key inc) = resolve policy inc (retained_of r (in_key inc))
        \<and> final_of r' (in_key inc) = final_with (final_of r (in_key inc)) inc
        \<and> (\<forall>len. final_of r' (in_key inc) = Some len \<longrightarrow> dom (retained_of r' (in_key inc)) \<subset> {0..<len})
    | PushCompleted _ d \<Rightarrow>
        (\<exists>rc payload. cd_bytes d = rebuilt rc payload \<and> has_header rc \<and> header_ok (in_key inc) rc
          \<and> bytes_at 0 payload = resolve policy inc (retained_of r (in_key inc))
          \<and> final_with (final_of r (in_key inc)) inc = Some (length payload))
        \<and> bt_get (ir_datagrams r') (in_key inc) = None)
    \<and> (policy = Reject \<longrightarrow> conflicts inc (retained_of r (in_key inc)) = {})
    \<and> (\<forall>key. key \<noteq> in_key inc \<longrightarrow> bt_get (ir_datagrams r') key = bt_get (ir_datagrams r) key)"
proof (rule ip_push_outcomes [OF ip_reachable_ok [OF assms(1)] assms(3)])
  fix x
  assume "Ok outcome = (Err x :: (ip_error, push_outcome) outcome)"
  then show ?thesis
    by simp
next
  fix j e st o'
  assume res: "Ok outcome = (Ok (PushAccepted o') :: (ip_error, push_outcome) outcome)"
    and j: "validate_fragment fragment limits = Ok j"
    and get: "bt_get (ir_datagrams r') = (bt_get (ir_datagrams r))(in_key j \<mapsto> st)"
    and kept: "kept_datagram limits policy r j e st"
  have j': "j = inc"
    using j assms(2) by simp
  have now: "retained_of r' (in_key inc) = content (ds_ranges st)" "final_of r' (in_key inc) = ds_final_length st"
    by (simp_all add: retained_of_def final_of_def get j' ranges_of_def)
  have good: "datagram_ok limits (in_key inc) st" and clear: "policy = Reject \<longrightarrow> conflicts inc (retained_of r (in_key inc)) = {}"
    and eqs: "content (ds_ranges st) = resolve policy inc (retained_of r (in_key inc))"
      "ds_final_length st = final_with (final_of r (in_key inc)) inc"
    using kept by (simp_all add: kept_datagram_def j')
  have "\<forall>len. ds_final_length st = Some len \<longrightarrow> dom (content (ds_ranges st)) \<subset> {0..<len}"
    using good unfolding datagram_ok_def psubset_eq by blast
  then show ?thesis
    using res clear eqs now by (auto simp: get j')
next
  fix j e payload o' d
  assume res: "Ok outcome = (Ok (PushCompleted o' d) :: (ip_error, push_outcome) outcome)"
    and j: "validate_fragment fragment limits = Ok j"
    and get: "bt_get (ir_datagrams r') = (bt_get (ir_datagrams r))(in_key j := None)"
    and whole: "whole_datagram policy r j e payload d"
  have "j = inc"
    using j assms(2) by simp
  then show ?thesis
    using res whole get unfolding whole_datagram_def Let_def by auto
qed

theorem ip_push_refines_witness:
  "retained_of demo_ip_table (KeyV4 demo_datagram) = resolve Reject (demo_incoming 1) Map.empty
    \<and> final_of demo_ip_table (KeyV4 demo_datagram) = Some 10"
proof -
  have "retained_of demo_ip_start (KeyV4 demo_datagram) = Map.empty" "in_key (demo_incoming 1) = KeyV4 demo_datagram"
    by (simp_all add: retained_of_def demo_ip_start_def bt_get_def ranges_of_def demo_incoming_def)
  then show ?thesis
    using ip_push_refines [OF ip_reachable.start [OF demo_ip_new] demo_validated(2) demo_ip_push [unfolded ip_push_def]]
    by (simp add: final_with_def demo_incoming_def)
qed

text \<open>
  C11: A refused fragment changes nothing, and a planned push fails for want of memory only. Whatever check
  or allocation fails, before, between or after the statements that write the expiry index, the table, the
  ranges inside it and the aggregates, the reassembler is the one it was before the push. Once the plan is
  made, none of the consistency checks that follow it fails: the error is a refused allocation.
\<close>
theorem ip_failed_push_changes_nothing:
  assumes "ip_reachable limits policy r"
    and "push_with_external_charge alloc fragment now external r = (Err e, r')"
  shows "r' = r \<and> (ip_plan_push alloc fragment now external r = Err e \<or> (\<exists>n. e = IpResource (AllocationFailed n)))"
  by (rule ip_push_outcomes [OF ip_reachable_ok [OF assms(1)] assms(2)]) simp_all

definition demo_far :: fragment where
  "demo_far = FragmentV4 \<lparr>f4_key = demo_datagram, f4_fragment_offset = 2, f4_more_fragments = False,
     f4_header = demo_header 22 0 2, f4_payload = [9, 10]\<rparr>"

definition demo_far_table :: ip_reassembler where
  "demo_far_table = demo_ip_table\<lparr>ir_datagrams := [(KeyV4 demo_datagram, demo_state\<lparr>ds_final_length := Some 18,
     ds_ranges := [\<lparr>rr_start = 16, rr_bytes = \<lparr>dq_items = [9, 10], dq_head = 0, dq_capacity = 2\<rparr>\<rparr>]\<rparr>)]\<rparr>"

lemma demo_far_push: "\<exists>o'. ip_push (\<lambda>_ _. True) demo_far 5 demo_ip_start = (Ok (PushAccepted o'), demo_far_table)"
  by (simp add: ip_eval demo_ip_defs demo_far_def demo_far_table_def)

lemma demo_far_reachable: "ip_reachable demo_ip_limits Reject demo_far_table"
  using demo_far_push ip_reachable.push [OF ip_reachable.start [OF demo_ip_new]] unfolding ip_push_def by blast

lemma demo_refused:
  "fst (ip_push (\<lambda>site _. site \<noteq> AllocDatagram) demo_first 6 demo_ip_table) = Err (IpResource (AllocationFailed 30))"
  "fst (ip_push (\<lambda>site _. site \<noteq> AllocRangeSlot) demo_first 6 demo_far_table) = Err (IpResource (AllocationFailed 64))"
  unfolding ip_push_def push_with_external_charge_def and_then_reads
    ip_plan_push_def demo_far_table_def demo_ip_table_def demo_ip_start_def Let_def ip_reassembler.simps demo_validated let_ok.simps
  by (simp_all add: ip_eval demo_ip_defs demo_incoming_def reconstruct_ipv4_eq retained_release_def)

theorem ip_failed_push_changes_nothing_witness:
  "ip_push (\<lambda>site _. site \<noteq> AllocDatagram) demo_first 6 demo_ip_table = (Err (IpResource (AllocationFailed 30)), demo_ip_table)
    \<and> ip_push (\<lambda>site _. site \<noteq> AllocRangeSlot) demo_first 6 demo_far_table
      = (Err (IpResource (AllocationFailed 64)), demo_far_table)"
proof -
  have "snd (ip_push alloc demo_first 6 r) = r"
    if "fst (ip_push alloc demo_first 6 r) = Err e" and "ip_reachable demo_ip_limits Reject r" for alloc r e
    using ip_failed_push_changes_nothing [OF that(2), of alloc demo_first 6 0 e] that(1)
    by (cases "ip_push alloc demo_first 6 r") (simp add: ip_push_def)
  then show ?thesis
    using demo_refused demo_ip_reachable demo_far_reachable by (simp add: prod_eq_iff)
qed

text \<open>
  C12: A completed IPv4 datagram is well-formed. The bytes a push delivers for an IPv4 key parse as one
  unfragmented datagram whose total length is its own, with the key's identification, protocol, source and
  destination, and whose header checksum verifies; behind the header lies exactly the reassembled payload.
\<close>
theorem ip_completed_ipv4_walks:
  assumes "ip_reachable limits policy r"
    and "push_with_external_charge alloc fragment now external r = (Ok (PushCompleted o' d), r')"
    and "cd_key d = KeyV4 k"
  shows "\<exists>w. ipv4_walk (cd_bytes d) = Ok w \<and> \<not> ipv4_is_fragment w \<and> ipv4_total_length w = length (cd_bytes d)
    \<and> ipv4_identification w = v4_identification k \<and> ipv4_protocol w = v4_protocol k
    \<and> ipv4_of (slice_of (cd_bytes d) 12 16) = v4_source k \<and> ipv4_of (slice_of (cd_bytes d) 16 20) = v4_destination k
    \<and> checksum_parts [take (ipv4_header_length w) (cd_bytes d)] = 0
    \<and> length (drop (ipv4_header_length w) (cd_bytes d)) = cd_final_payload_length d"
proof (rule ip_push_outcomes [OF ip_reachable_ok [OF assms(1)] assms(2)])
  fix j e payload o2 d2
  assume res: "Ok (PushCompleted o' d) = (Ok (PushCompleted o2 d2) :: (ip_error, push_outcome) outcome)"
    and whole: "whole_datagram policy r j e payload d2"
  define rc where "rc = retains (bt_get (ir_datagrams r) (in_key j)) j e"
  have facts: "has_header rc" "header_ok (KeyV4 k) rc" "wire_length rc (length payload) \<le> 65535"
      "cd_bytes d = rebuilt rc payload" "cd_final_payload_length d = length payload"
    using whole res assms(3) unfolding whole_datagram_def Let_def rc_def [symmetric] by auto
  obtain h x where rc: "rc = RecIpv4 (Some h) x" and ok: "ipv4_header_ok k h"
    using facts(1,2) by (cases rc) auto
  have small: "length h + length payload < 65536"
    using facts(3) by (simp add: rc)
  have "length (rebuilt rc payload) = length h + length payload"
    using ok by (simp add: rc ipv4_header_ok_def)
  then show ?thesis
    using rebuilt_ipv4_walks [OF ok small, of x] rebuilt_ipv4_addresses [OF ok small, of x] facts(4,5) rc by auto
qed simp_all

theorem ip_completed_ipv4_walks_witness:
  "\<exists>o' d r' w. ip_push (\<lambda>_ _. True) demo_first 6 demo_ip_table = (Ok (PushCompleted o' d), r')
    \<and> ipv4_walk (cd_bytes d) = Ok w \<and> \<not> ipv4_is_fragment w \<and> ipv4_identification w = 7"
proof -
  obtain o' d r' where push: "ip_push (\<lambda>_ _. True) demo_first 6 demo_ip_table = (Ok (PushCompleted o' d), r')"
      and key: "cd_key d = KeyV4 demo_datagram"
    using demo_ip_completes by blast
  then show ?thesis
    using ip_completed_ipv4_walks [OF demo_ip_reachable push [unfolded ip_push_def] key]
    by (auto simp: demo_datagram_def)
qed

text \<open>
  C14: Expiry is exact. \<open>expire\<close> removes the datagrams whose deadline has passed and no other, reports them
  in the order of their deadlines up to the limit on outcomes, counts the others by family, gives back what
  they were charged, and leaves the deadline index with exactly the deadlines that remain.
\<close>
theorem ip_expire_exact:
  assumes "ip_reachable limits policy r" and "ip_expire now r = (Ok (retired, r') :: (ip_error, _) outcome)"
  shows "bt_get (ir_datagrams r') = (bt_get (ir_datagrams r)) |` (- snd ` due now r)
    \<and> retired = reported (max_retained_outcomes limits)
        (map (\<lambda>k. incomplete_of k (the (bt_get (ir_datagrams r) k)) IdleExpired) (due_keys now r))
    \<and> ip_aggregate_memory_charge r' = (\<Sum>(k, st)\<leftarrow>ir_datagrams r'. ds_memory_charge st)
        + DATAGRAM_METADATA_CHARGE * rt_datagram_slots (ir_retained r)
    \<and> expiry_entries (ir_expiry r') = {(d, k). \<exists>st. bt_get (ir_datagrams r') k = Some st \<and> ds_deadline st = Some d}"
proof -
  obtain r2 where r2: "ip_expire now r = (Ok (reported (max_retained_outcomes limits)
      (map (farewell_of IdleExpired (ir_datagrams r)) (due_keys now r)), r2) :: (ip_error, _) outcome)"
      "ip_ok limits policy r2" "bt_get (ir_datagrams r2) = (bt_get (ir_datagrams r)) |` (- snd ` due now r)"
      "rt_datagram_slots (ir_retained r2) = rt_datagram_slots (ir_retained r)"
    by (rule ip_expire_ok [OF ip_reachable_ok [OF assms(1)]])
  have "r2 = r'" and ret: "retired = reported (max_retained_outcomes limits)
      (map (farewell_of IdleExpired (ir_datagrams r)) (due_keys now r))"
    using r2(1) assms(2) by simp_all
  have table: "btree_ok (ir_datagrams r2)" "accounted (ir_datagrams r2) (ir_retained r2)"
      "mirrors (expiry_entries (ir_expiry r2)) (bt_get (ir_datagrams r2)) ds_deadline"
    using r2(2) by (simp_all add: ip_ok_def)
  have "ip_aggregate_memory_charge r2 = (\<Sum>(k, st)\<leftarrow>ir_datagrams r2. ds_memory_charge st)
      + DATAGRAM_METADATA_CHARGE * rt_datagram_slots (ir_retained r)"
    using table(2) r2(4) by (simp add: ip_aggregate_memory_charge_def accounted_def map_total_bt_get [OF table(1)])
  moreover have "expiry_entries (ir_expiry r2) = {(d, k). \<exists>st. bt_get (ir_datagrams r2) k = Some st \<and> ds_deadline st = Some d}"
    using table(3) by (simp add: mirrors_def)
  ultimately show ?thesis
    using r2(3) ret unfolding \<open>r2 = r'\<close> farewell_of_def by blast
qed

lemma demo_due: "due 20 demo_ip_table = {(15, KeyV4 demo_datagram)}"
  by (auto simp: due_def demo_ip_table_def demo_state_def bt_get_def split: if_splits)

theorem ip_expire_exact_witness:
  "\<exists>retired r'. ip_expire 20 demo_ip_table = (Ok (retired, r') :: (ip_error, _) outcome)
    \<and> bt_get (ir_datagrams r') (KeyV4 demo_datagram) = None
    \<and> rd_outcomes retired = [incomplete_of (KeyV4 demo_datagram) demo_state IdleExpired]"
proof -
  obtain retired r' where run: "ip_expire 20 demo_ip_table = (Ok (retired, r') :: (ip_error, _) outcome)"
    by (rule ip_expire_ok [OF ip_reachable_ok [OF demo_ip_reachable]])
  have "due_keys 20 demo_ip_table = [KeyV4 demo_datagram]"
    by (simp add: due_keys_def demo_due)
  moreover have "bt_get (ir_datagrams demo_ip_table) (KeyV4 demo_datagram) = Some demo_state"
    by (simp add: demo_ip_table_def bt_get_def)
  ultimately show ?thesis
    using ip_expire_exact [OF demo_ip_reachable run] run
    by (simp add: demo_due reported_def demo_ip_limits_def)
qed

text \<open>
  C15: Flushing does not depend on the order of the hash table. Whatever order its iterators visit the entries
  in, \<open>flush\<close> reports the datagrams with the smallest keys, in key order, up to the limit on outcomes, counts
  the rest by family, and leaves an empty table that is charged for its slots only.
\<close>
theorem ip_flush_any_visit:
  assumes "ip_reachable limits policy r" and "\<And>table. mset (visit table) = mset table"
  shows "\<exists>r'. ip_flush visit r = (Ok (reported (max_retained_outcomes limits)
        (map (\<lambda>(k, st). incomplete_of k st EndOfCapture) (ir_datagrams r)), r') :: (ip_error, _) outcome)
    \<and> sorted (map fst (ir_datagrams r)) \<and> ir_datagrams r' = [] \<and> ir_expiry r' = []
    \<and> ip_aggregate_payload_bytes r' = 0
    \<and> ip_aggregate_memory_charge r' = DATAGRAM_METADATA_CHARGE * rt_datagram_slots (ir_retained r)"
proof -
  have ok: "ip_ok limits policy r"
    using assms(1) by (rule ip_reachable_ok)
  obtain r' where r': "ip_flush visit r = (Ok (reported (max_retained_outcomes limits) (map ending (ir_datagrams r)), r') :: (ip_error, _) outcome)"
      "ip_ok limits policy r'" "ir_datagrams r' = []" "rt_payload_bytes (ir_retained r') = 0"
      "rt_memory_charge (ir_retained r') = DATAGRAM_METADATA_CHARGE * rt_datagram_slots (ir_retained r)"
    by (rule ip_flush_ok [OF ok assms(2)])
  have "expiry_entries (ir_expiry r') = {}"
    using r'(2,3) by (simp add: ip_ok_def mirrors_def bt_get_def)
  then have "ir_expiry r' = []"
    by (simp add: expiry_entries_def)
  moreover have "sorted (map fst (ir_datagrams r))"
    using ok by (simp add: ip_ok_def btree_ok_def strict_sorted_imp_sorted)
  moreover have "ending = (\<lambda>(k, st). incomplete_of k st EndOfCapture)"
    by (simp add: ending_def fun_eq_iff)
  ultimately show ?thesis
    using r' by (simp add: ip_aggregate_payload_bytes_def ip_aggregate_memory_charge_def)
qed

theorem ip_flush_any_visit_witness:
  "\<exists>r'. ip_flush rev demo_ip_table = (Ok (reported 1 [incomplete_of (KeyV4 demo_datagram) demo_state EndOfCapture], r')
      :: (ip_error, _) outcome) \<and> ip_aggregate_memory_charge r' = 4096"
  using ip_flush_any_visit [OF demo_ip_reachable, of rev]
  by (auto simp: demo_ip_table_def demo_ip_start_def demo_ip_limits_def DATAGRAM_METADATA_CHARGE_def)

text \<open>
  C24: Congestion markings combine in any order. Merging the markings of the fragments one by one, as each
  arrives, gives the marking of RFC 3168 for the set of them: \<open>Ce\<close> with \<open>NotEct\<close> is an error, otherwise \<open>Ce\<close>
  wins, then \<open>NotEct\<close>, then \<open>Ect0\<close>.
\<close>
theorem ecn_merge_any_order: "ecn_merge_all e es = ecn_of_all (insert e (set es))"
  using ecn_merge_all_set [of "{e}" e es] by (cases e) (simp_all add: ecn_of_all_def)

end
