(* ===== verification/Fragment_Demo.thy ===== *)
theory Fragment_Demo
  imports Fragment_Reassembly Ip_Theorems
begin

text \<open>
  A concrete run: a raw IPv4 frame with a ten-byte payload, cut for an MTU of 28 bytes into two fragments,
  and the reassembler fed with the second one first.
\<close>

definition demo_ipv4_header :: "u8 \<Rightarrow> u8 \<Rightarrow> u8 \<Rightarrow> u8 \<Rightarrow> u8 \<Rightarrow> bytes" where
  "demo_ipv4_header len high low c d = [0x45, 0, 0, len, 0, 7, high, low, 64, 17, c, d, 0, 0, 0, 1, 0, 0, 0, 2]"

definition demo_raw_frame :: "bytes \<Rightarrow> frame" where
  "demo_raw_frame bytes = \<lparr>fr_timestamp = Some 3, fr_captured_length = of_nat (length bytes),
     fr_original_length = of_nat (length bytes), fr_link_type = LinkType 228, fr_interface = None,
     fr_direction = None, fr_bytes = bytes\<rparr>"

definition demo_whole :: frame where
  "demo_whole = demo_raw_frame (demo_ipv4_header 30 0 0 0x7a 0xc6 @ [1, 2, 3, 4, 5, 6, 7, 8, 9, 10])"

definition demo_cut :: "frame list" where
  "demo_cut = [demo_raw_frame (demo_ipv4_header 28 0x20 0 0x5a 0xc8 @ [1, 2, 3, 4, 5, 6, 7, 8]),
     demo_raw_frame (demo_ipv4_header 22 0 1 0x7a 0xcd @ [9, 10])]"

definition demo_fragment_options :: fragment_options where
  "demo_fragment_options = \<lparr>fo_mtu = 28, fo_identification = None, fo_max_fragments = 4, fo_max_output_bytes = 100\<rparr>"

lemmas demo_fragment_defs = demo_ipv4_header_def demo_raw_frame_def demo_whole_def demo_cut_def demo_fragment_options_def

lemmas walk_eval = link_walk_def link_walk_ip_def ip_walk_def ipv4_walk_def ipv4_walk_lengths_def root_protocol_def
  BUILTIN_ROOTS_def is_raw_ip_def LINK_ETHERNET_def first_chunk_def IPV4_MIN_LENGTH_def get_index_def get_from_def
  get_range_def slice_of_def be16_def be_nat_def Let_def

lemma demo_raw_walk:
  assumes "20 \<le> length bytes" and "bytes ! 0 = 0x45"
  shows "link_walk (LinkType 228) bytes = Ok (Some (LinkRawIp (Some 4)))"
    and "link_walk_ip (LinkRawIp (Some 4)) bytes = let_ok (ipv4_walk bytes) (\<lambda>h. Ok (Some (IpV4 h)))"
proof -
  have "bytes \<noteq> []"
    using assms(1) by auto
  then show "link_walk (LinkType 228) bytes = Ok (Some (LinkRawIp (Some 4)))"
    and "link_walk_ip (LinkRawIp (Some 4)) bytes = let_ok (ipv4_walk bytes) (\<lambda>h. Ok (Some (IpV4 h)))"
    using assms by (cases "ipv4_walk bytes"; simp add: link_walk_def link_walk_ip_def ip_walk_def root_protocol_def
        BUILTIN_ROOTS_def is_raw_ip_def LINK_ETHERNET_def get_from_def get_index_def Let_def)+
qed

lemma demo_walks:
  "ipv4_walk (demo_ipv4_header 30 0 0 0x7a 0xc6 @ [1, 2, 3, 4, 5, 6, 7, 8, 9, 10]) = Ok \<lparr>ipv4_header_length = 20,
     ipv4_total_length = 30, ipv4_identification = 7, ipv4_flags_and_offset = 0, ipv4_protocol = 17\<rparr>"
  "ipv4_walk (demo_ipv4_header 28 0x20 0 0x5a 0xc8 @ [1, 2, 3, 4, 5, 6, 7, 8]) = Ok \<lparr>ipv4_header_length = 20,
     ipv4_total_length = 28, ipv4_identification = 7, ipv4_flags_and_offset = 0x2000, ipv4_protocol = 17\<rparr>"
  "ipv4_walk (demo_ipv4_header 22 0 1 0x7a 0xcd @ [9, 10]) = Ok \<lparr>ipv4_header_length = 20,
     ipv4_total_length = 22, ipv4_identification = 7, ipv4_flags_and_offset = 1, ipv4_protocol = 17\<rparr>"
  by (simp_all add: demo_ipv4_header_def walk_eval)

lemma demo_checksums:
  "checksum_parts [demo_ipv4_header 30 0 0 0x7a 0xc6] = 0"
  "checksum_parts [demo_ipv4_header 28 0x20 0 0 0] = 0x5ac8"
  "checksum_parts [demo_ipv4_header 22 0 1 0 0] = 0x7acd"
  by (simp_all add: demo_ipv4_header_def checksum_parts_norm be_nat_def norm16_def)

lemma demo_bytes: "be_bytes 2 23240 = [0x5a, 0xc8]" "be_bytes 2 31437 = [0x7a, 0xcd]"
    "be_bytes 2 28 = [0, 28]" "be_bytes 2 22 = [0, 22]" "be_bytes 2 7 = [0, 7]" "be_bytes 2 0x2000 = [0x20, 0]" "be_bytes 2 (Suc 0) = [0, 1]"
  by (simp_all add: be_bytes_2)

lemma demo_steps:
  fixes ip defines "ip \<equiv> demo_ipv4_header 30 0 0 0x7a 0xc6 @ [1, 2, 3, 4, 5, 6, 7, 8, 9, 10]"
  shows "fragment_step4 ip 20 [] 7 0 28 10 0 = Ok (demo_ipv4_header 28 0x20 0 0x5a 0xc8, 8)"
    and "fragment_step4 ip 20 [] 7 0 28 10 8 = Ok (demo_ipv4_header 22 0 1 0x7a 0xcd, 2)"
proof -
  have first: "fragment_header4 ip 20 [] 0 = Ok (demo_ipv4_header 30 0 0 0x7a 0xc6)"
    and later: "fragment_header4 ip 20 [] 8 = Ok (demo_ipv4_header 30 0 0 0x7a 0xc6)"
    by (simp_all add: ip_def fragment_header4_def demo_ipv4_header_def get_range_def get_index_def slice_of_def
        IPV4_MIN_LENGTH_def Let_def)
  have zeroed: "copy_at (demo_ipv4_header 28 0x20 0 0x7a 0xc6) 10 [0, 0] = demo_ipv4_header 28 0x20 0 0 0"
      "copy_at (demo_ipv4_header 22 0 1 0x7a 0xc6) 10 [0, 0] = demo_ipv4_header 22 0 1 0 0"
    by (simp_all add: demo_ipv4_header_def copy_at_def)
  have fields: "copy_at (copy_at (copy_at (demo_ipv4_header 30 0 0 0x7a 0xc6) 2 [0, a]) 4 [0, 7]) 6 [b, c]
      = demo_ipv4_header a b c 0x7a 0xc6" for a b c
    by (simp add: demo_ipv4_header_def copy_at_def)
  have len: "length (demo_ipv4_header a b c d e) = 20" for a b c d e
    by (simp add: demo_ipv4_header_def)
  show "fragment_step4 ip 20 [] 7 0 28 10 0 = Ok (demo_ipv4_header 28 0x20 0 0x5a 0xc8, 8)"
    by (simp add: fragment_step4_def first len payload_count_def checked_sub_def u16_try_from_def write_range_def fields
        zeroed demo_checksums demo_bytes Let_def)
       (simp add: demo_ipv4_header_def copy_at_def)
  show "fragment_step4 ip 20 [] 7 0 28 10 8 = Ok (demo_ipv4_header 22 0 1 0x7a 0xcd, 2)"
    by (simp add: fragment_step4_def later len payload_count_def checked_sub_def u16_try_from_def write_range_def fields
        zeroed demo_checksums demo_bytes Let_def)
       (simp add: demo_ipv4_header_def copy_at_def)
qed

lemma demo_carries: "carries_ipv4 (LinkRawIp (Some 4)) demo_whole \<lparr>ipv4_header_length = 20, ipv4_total_length = 30,
    ipv4_identification = 7, ipv4_flags_and_offset = 0, ipv4_protocol = 17\<rparr> (demo_ipv4_header 30 0 0 0x7a 0xc6)
    [1, 2, 3, 4, 5, 6, 7, 8, 9, 10]"
  using demo_raw_walk [of "fr_bytes demo_whole"] demo_walks(1)
  by (simp add: carries_ipv4_def demo_whole_def demo_raw_frame_def) (simp add: demo_ipv4_header_def slice_of_def)

lemma frame_new_small:
  assumes "length bs < 4294967296"
  shows "frame_new ts lt bs = Ok \<lparr>fr_timestamp = ts, fr_captured_length = of_nat (length bs),
    fr_original_length = of_nat (length bs), fr_link_type = lt, fr_interface = None, fr_direction = None, fr_bytes = bs\<rparr>"
  using assms by (simp add: frame_new_def try_with_optional_timestamp_def unat_of_nat)

lemma demo_append:
  assumes "length frames < 4" and "retained + (length header + length chunk) \<le> 100"
  shows "append_fragment demo_whole 0 header chunk demo_fragment_options (retained, frames)
    = Ok (retained + (length header + length chunk), frames @ [demo_raw_frame (header @ chunk)])"
proof -
  have "frame_new None (LinkType 228) (header @ chunk) = Ok \<lparr>fr_timestamp = None,
      fr_captured_length = of_nat (length (header @ chunk)), fr_original_length = of_nat (length (header @ chunk)),
      fr_link_type = LinkType 228, fr_interface = None, fr_direction = None, fr_bytes = header @ chunk\<rparr>"
    using assms(2) by (intro frame_new_small) simp
  moreover have "fr_link_type demo_whole = LinkType 228" "fr_timestamp demo_whole = Some 3" "fr_interface demo_whole = None"
      "fr_direction demo_whole = None"
    by (simp_all add: demo_whole_def demo_raw_frame_def)
  ultimately show ?thesis
    using assms
    by (simp add: append_fragment_def demo_fragment_options_def checked_add_def usize_max_def get_range_def LINK_ETHERNET_def
        demo_raw_frame_def Let_def)
qed

lemma demo_fragments: "fragment_frame demo_whole demo_fragment_options = Ok demo_cut"
proof -
  let ?ip = "demo_ipv4_header 30 0 0 0x7a 0xc6 @ [1, 2, 3, 4, 5, 6, 7, 8, 9, 10]"
  define pl :: bytes where "pl = [1, 2, 3, 4, 5, 6, 7, 8, 9, 10]"
  have pl: "length pl = 10" "get_range pl 0 8 = Some [1, 2, 3, 4, 5, 6, 7, 8]" "get_range pl 8 10 = Some [9, 10]"
    by (simp_all add: pl_def get_range_def slice_of_def)
  let ?h = "\<lparr>ipv4_header_length = 20, ipv4_total_length = 30, ipv4_identification = 7, ipv4_flags_and_offset = 0,
    ipv4_protocol = 17\<rparr>"
  have bytes: "fr_bytes demo_whole = ?ip" "fr_link_type demo_whole = LinkType 228"
    by (simp_all add: demo_whole_def demo_raw_frame_def)
  have options: "copied_options ?ip ?h = Ok []"
    by (simp add: copied_options_def copied_loop.simps ipv4_options_def ipv4_options_next_def get_index_def pad_word.simps
        demo_ipv4_header_def IPV4_MIN_LENGTH_def)
  have third: "fragment_loop4 demo_whole 0 ?ip 20 [] 7 0 pl demo_fragment_options 10 acc = Ok (snd acc)" for acc
    by (simp add: fragment_loop4.simps [of _ _ _ _ _ _ _ _ _ 10] pl)
  have len: "length (demo_ipv4_header a b c d e) = 20" for a b c d e
    by (simp add: demo_ipv4_header_def)
  have mtu: "fo_mtu demo_fragment_options = 28"
    by (simp add: demo_fragment_options_def)
  have second: "fragment_loop4 demo_whole 0 ?ip 20 [] 7 0 pl demo_fragment_options 8
      (28, [demo_raw_frame (demo_ipv4_header 28 0x20 0 0x5a 0xc8 @ [1, 2, 3, 4, 5, 6, 7, 8])]) = Ok demo_cut"
    using demo_steps(2) third
    by (simp add: fragment_loop4.simps [of _ _ _ _ _ _ _ _ _ 8] demo_append len pl demo_cut_def mtu)
  have loop: "fragment_loop4 demo_whole 0 ?ip 20 [] 7 0 pl demo_fragment_options 0 (0, []) = Ok demo_cut"
    using demo_steps(1) second
    by (simp add: fragment_loop4.simps [of _ _ _ _ _ _ _ _ _ 0] demo_append len pl mtu)
  have whole: "slice_of ?ip 0 20 = demo_ipv4_header 30 0 0 0x7a 0xc6" "slice_of ?ip 20 30 = pl" "length ?ip = 30"
    by (simp_all add: demo_ipv4_header_def slice_of_def pl_def)
  have "fragment_ipv4 demo_whole 0 ?ip ?h demo_fragment_options = Ok demo_cut"
    unfolding fragment_ipv4_def Let_def
    using options loop whole demo_checksums(1)
    by (simp add: get_range_def demo_fragment_options_def ipv4_reserved_flag_def ipv4_is_fragment_def ipv4_dont_fragment_def)
  moreover have "20 \<le> length ?ip" "?ip ! 0 = 0x45"
    by (simp_all add: demo_ipv4_header_def)
  ultimately show ?thesis
    unfolding fragment_frame_def Let_def bytes
    using demo_raw_walk [of ?ip] demo_walks(1) whole(3)
    by (simp add: demo_fragment_options_def get_from_def demo_whole_def demo_raw_frame_def)
qed

section \<open>Reassembling them\<close>

definition demo_cut_first :: fragment where
  "demo_cut_first = FragmentV4 \<lparr>f4_key = demo_datagram, f4_fragment_offset = 0, f4_more_fragments = True,
     f4_header = demo_ipv4_header 28 0x20 0 0x5a 0xc8, f4_payload = [1, 2, 3, 4, 5, 6, 7, 8]\<rparr>"

definition demo_cut_second :: fragment where
  "demo_cut_second = FragmentV4 \<lparr>f4_key = demo_datagram, f4_fragment_offset = 1, f4_more_fragments = False,
     f4_header = demo_ipv4_header 22 0 1 0x7a 0xcd, f4_payload = [9, 10]\<rparr>"

definition demo_cut_incoming :: "nat \<Rightarrow> incoming" where
  "demo_cut_incoming i = (demo_incoming i)\<lparr>in_reconstruction :=
     IncIpv4 (if i = 0 then demo_ipv4_header 28 0x20 0 0x5a 0xc8 else demo_ipv4_header 22 0 1 0x7a 0xcd)\<rparr>"

lemma demo_read:
  "map (read_ipv4_fragment 0 (LinkRawIp (Some 4))) demo_cut = [Some demo_cut_first, Some demo_cut_second]"
proof -
  have head: "20 \<le> length (demo_ipv4_header a b c d e @ xs)" "(demo_ipv4_header a b c d e @ xs) ! 0 = 0x45" for a b c d e xs
    by (simp_all add: demo_ipv4_header_def)
  show ?thesis
    using demo_walks(2,3) demo_raw_walk(2) [OF head]
    by (simp add: demo_cut_def demo_raw_frame_def read_ipv4_fragment_def observed4_def part_more_def demo_cut_first_def
        demo_cut_second_def key_of_header_def demo_datagram_def Let_def)
       (simp add: demo_ipv4_header_def slice_of_def ipv4_of_def be_nat_def)
qed

lemma demo_cut_validated:
  "validate_fragment demo_cut_first demo_ip_limits = Ok (demo_cut_incoming 0)"
  "validate_fragment demo_cut_second demo_ip_limits = Ok (demo_cut_incoming 1)"
  by (simp_all add: demo_cut_incoming_def demo_incoming_def demo_cut_first_def demo_cut_second_def demo_ipv4_header_def
      demo_ip_defs ip_eval)

lemma demo_cut_push: "\<exists>o'. ip_push (\<lambda>_ _. True) demo_cut_second 5 demo_ip_start = (Ok (PushAccepted o'), demo_ip_table)"
  unfolding ip_push_def push_with_external_charge_def and_then_reads ip_plan_push_def demo_ip_start_def Let_def ip_reassembler.simps
    demo_cut_validated let_ok.simps
  by (simp add: ip_eval demo_ip_defs demo_cut_incoming_def demo_incoming_def)

lemma demo_cut_completes:
  "\<exists>o' d r'. ip_push (\<lambda>_ _. True) demo_cut_first 6 demo_ip_table = (Ok (PushCompleted o' d), r')"
  unfolding ip_push_def push_with_external_charge_def and_then_reads ip_plan_push_def demo_ip_table_def demo_ip_start_def Let_def
    ip_reassembler.simps demo_cut_validated let_ok.simps
  by (simp add: ip_eval demo_ip_defs demo_cut_incoming_def demo_incoming_def demo_ipv4_header_def reconstruct_ipv4_eq
      retained_release_def)

end
