(* ===== verification/Fragment_Demo6.thy ===== *)
theory Fragment_Demo6
  imports Fragment_Reassembly6 Fragment_Demo
begin

text \<open>
  A concrete run: a raw IPv6 frame with a hop-by-hop header and a 26-byte UDP payload, cut for an MTU of 72 bytes
  into two fragments, and the reassembler fed with the second one first.
\<close>

definition demo6_prefix :: "u8 \<Rightarrow> u8 \<Rightarrow> bytes" where
  "demo6_prefix len nh = [0x60, 0x20, 0, 0, 0, len, 0, 64, 0, 0, 0, 0, 0, 0, 0, 0, 0, 0, 0, 0, 0, 0, 0, 1,
     0, 0, 0, 0, 0, 0, 0, 0, 0, 0, 0, 0, 0, 0, 0, 2, nh, 0, 1, 4, 0, 0, 0, 0]"

definition demo6_frame :: "bytes \<Rightarrow> frame" where
  "demo6_frame bytes = (demo_raw_frame bytes)\<lparr>fr_link_type := LinkType 229\<rparr>"

definition demo6_first_payload :: bytes where
  "demo6_first_payload = [0, 1, 0, 2, 0, 26, 0, 0, 1, 2, 3, 4, 5, 6, 7, 8]"

definition demo6_last_payload :: bytes where
  "demo6_last_payload = [11, 12, 13, 14, 15, 16, 17, 18, 19, 20]"

definition demo6_ip :: bytes where
  "demo6_ip = demo6_prefix 34 17 @ demo6_first_payload @ demo6_last_payload"

definition demo6_walked :: ipv6_header where
  "demo6_walked = \<lparr>ipv6_payload_length = 34, ipv6_next_header = 0, ipv6_extensions =
     [\<lparr>ext_protocol = 0, ext_offset = 40, ext_length = 8, ext_next_header = 17, ext_fragment = None\<rparr>],
     ipv6_upper_layer_protocol = 17, ipv6_upper_layer_offset = 48\<rparr>"

definition demo6_cut :: "frame list" where
  "demo6_cut = [demo6_frame ((demo6_prefix 32 44 @ [17, 0, 0, 1, 0, 0, 0, 9]) @ demo6_first_payload),
     demo6_frame ((demo6_prefix 26 44 @ [17, 0, 0, 16, 0, 0, 0, 9]) @ demo6_last_payload)]"

definition demo6_options :: fragment_options where
  "demo6_options = \<lparr>fo_mtu = 72, fo_identification = Some 9, fo_max_fragments = 4, fo_max_output_bytes = 200\<rparr>"

lemma demo6_walk: "ipv6_walk demo6_ip = Ok demo6_walked"
proof -
  define bs where "bs = demo6_ip"
  have fields: "length bs = 74" "bs ! 0 = 0x60" "bs ! 4 = 0" "bs ! 5 = 34" "bs ! 6 = 0" "bs ! 40 = 17" "bs ! 41 = 0"
    by (simp_all add: bs_def demo6_ip_def demo6_prefix_def demo6_first_payload_def demo6_last_payload_def)
  let ?c = "chain_new bs 40 0"
  let ?e = "\<lparr>ext_protocol = 0, ext_offset = 40, ext_length = 8, ext_next_header = 17, ext_fragment = None\<rparr>"
  have "chain_next ?c = (Some (Ok ?e), ?c\<lparr>chain_taken := 1, chain_offset := 48, chain_protocol := 17\<rparr>)"
    using fields
    by (simp add: chain_next_def chain_step_def chain_new_def is_walkable_ipv6_extension_def
        ipv6_extension_header_length_def ext_fragment_offset_def checked_add_def checked_mul_def usize_max_def
        MAX_IPV6_EXTENSIONS_def ip_protocol_defs get_from_def first_chunk_def get_range_def slice_of_def Let_def)
  moreover have "chain_next (?c\<lparr>chain_taken := 1, chain_offset := 48, chain_protocol := 17\<rparr>)
      = (None, ?c\<lparr>chain_taken := 1, chain_offset := 48, chain_protocol := 17\<rparr>)"
    by (simp add: chain_next_def is_walkable_ipv6_extension_def ip_protocol_defs)
  ultimately have "walk_extensions ?c [] = Ok ([?e], ?c\<lparr>chain_taken := 1, chain_offset := 48, chain_protocol := 17\<rparr>)"
    by (simp add: walk_extensions.simps)
  then show ?thesis
    using fields unfolding bs_def [symmetric]
    by (simp add: ipv6_walk_def ipv6_walk_fixed_def ipv6_walk_chain_def first_chunk_def get_range_def slice_of_def
        chain_position_def demo6_walked_def IPV6_LENGTH_def be16_def be_nat_def Let_def)
qed

lemma demo6_link:
  "link_walk (LinkType 229) demo6_ip = Ok (Some (LinkRawIp (Some 6)))"
  "link_walk_ip (LinkRawIp (Some 6)) demo6_ip = Ok (Some (IpV6 demo6_walked))"
proof -
  have "demo6_ip ! 0 = 0x60" "0 < length demo6_ip"
    by (simp_all add: demo6_ip_def demo6_prefix_def)
  then show "link_walk (LinkType 229) demo6_ip = Ok (Some (LinkRawIp (Some 6)))"
    "link_walk_ip (LinkRawIp (Some 6)) demo6_ip = Ok (Some (IpV6 demo6_walked))"
    using demo6_walk by (simp_all add: link_walk_def link_walk_ip_def ip_walk_def root_protocol_def BUILTIN_ROOTS_def
        is_raw_ip_def LINK_ETHERNET_def get_from_def get_index_def Let_def)
qed

lemma demo6_unfragmentable: "unfragmentable 0 (ipv6_extensions demo6_walked) (IPV6_LENGTH, 6) = Ok (48, 40)"
  by (simp add: demo6_walked_def ip_protocol_defs ext_end_def)

lemma demo6_bytes: "be_bytes 2 32 = [0, 32]" "be_bytes 2 26 = [0, 26]" "be_bytes 2 16 = [0, 16]" "be_bytes 2 (Suc 0) = [0, 1]"
    "be_bytes 4 9 = [0, 0, 0, 9]"
proof -
  have four: "(4 :: nat) = Suc (Suc 2)"
    by simp
  show "be_bytes 4 9 = [0, 0, 0, 9]"
    unfolding four be_bytes.simps be_bytes_2 by simp
qed (simp_all add: be_bytes_2)

lemma demo6_steps:
  "fragment_step6 demo6_ip 48 40 9 16 26 0 = Ok (demo6_prefix 32 44 @ [17, 0, 0, 1, 0, 0, 0, 9], 16)"
  "fragment_step6 demo6_ip 48 40 9 16 26 16 = Ok (demo6_prefix 26 44 @ [17, 0, 0, 16, 0, 0, 0, 9], 10)"
proof -
  have ip: "get_range demo6_ip 0 48 = Some (demo6_prefix 34 17)"
    by (simp add: demo6_ip_def get_range_def slice_of_def) (simp add: demo6_prefix_def)
  have field: "(demo6_prefix 34 17)[40 := 44] = demo6_prefix 34 44" "demo6_prefix 34 17 ! 40 = 17" "length (demo6_prefix a b) = 48" for a b
    by (simp_all add: demo6_prefix_def)
  have len: "copy_at (demo6_prefix 34 44) 4 [0, a] = demo6_prefix a 44" for a
    by (simp add: demo6_prefix_def copy_at_def)
  show "fragment_step6 demo6_ip 48 40 9 16 26 0 = Ok (demo6_prefix 32 44 @ [17, 0, 0, 1, 0, 0, 0, 9], 16)"
    "fragment_step6 demo6_ip 48 40 9 16 26 16 = Ok (demo6_prefix 26 44 @ [17, 0, 0, 16, 0, 0, 0, 9], 10)"
    by (simp_all add: fragment_step6_def payload_count_def ip field len get_index_def minus_or_panic_def checked_sub_def u16_try_from_def
        write_range_def demo6_bytes FRAGMENT_def Let_def)
qed

lemma demo6_append:
  assumes "length frames < 4" and "retained + (length header + length chunk) \<le> 200"
  shows "append_fragment (demo6_frame demo6_ip) 0 header chunk demo6_options (retained, frames)
    = Ok (retained + (length header + length chunk), frames @ [demo6_frame (header @ chunk)])"
proof -
  have "frame_new None (LinkType 229) (header @ chunk) = Ok \<lparr>fr_timestamp = None,
      fr_captured_length = of_nat (length (header @ chunk)), fr_original_length = of_nat (length (header @ chunk)),
      fr_link_type = LinkType 229, fr_interface = None, fr_direction = None, fr_bytes = header @ chunk\<rparr>"
    using assms(2) by (intro frame_new_small) simp
  then show ?thesis
    using assms
    by (simp add: append_fragment_def demo6_options_def checked_add_def usize_max_def get_range_def LINK_ETHERNET_def
        demo6_frame_def demo_raw_frame_def Let_def)
qed

lemma demo6_fragments: "fragment_frame (demo6_frame demo6_ip) demo6_options = Ok demo6_cut"
proof -
  define pl where "pl = demo6_first_payload @ demo6_last_payload"
  have len: "length demo6_first_payload = 16" "length demo6_last_payload = 10" "length (demo6_prefix a b) = 48" for a b
    by (simp_all add: demo6_first_payload_def demo6_last_payload_def demo6_prefix_def)
  have pl: "length pl = 26" "get_range pl 0 16 = Some demo6_first_payload" "get_range pl 16 26 = Some demo6_last_payload"
      "get_range demo6_ip 48 74 = Some pl"
    by (simp_all add: pl_def get_range_def slice_of_def len demo6_ip_def)
  let ?loop = "fragment_loop6 (demo6_frame demo6_ip) 0 demo6_ip 48 40 9 16 pl demo6_options"
  have third: "?loop 26 acc = Ok (snd acc)" for acc
    by (simp add: fragment_loop6.simps [of _ _ _ _ _ _ _ _ _ 26] pl)
  have second: "?loop 16 (72, [demo6_frame ((demo6_prefix 32 44 @ [17, 0, 0, 1, 0, 0, 0, 9]) @ demo6_first_payload)]) = Ok demo6_cut"
    using demo6_steps(2) third
    by (simp add: fragment_loop6.simps [of _ _ _ _ _ _ _ _ _ 16] demo6_append len pl demo6_cut_def)
  have loop: "?loop 0 (0, []) = Ok demo6_cut"
    using demo6_steps(1) second by (simp add: fragment_loop6.simps [of _ _ _ _ _ _ _ _ _ 0] demo6_append len pl)
  have "fragment_ipv6 (demo6_frame demo6_ip) 0 demo6_ip demo6_walked demo6_options = Ok demo6_cut"
    unfolding fragment_ipv6_def Let_def demo6_unfragmentable let_ok.simps
    using loop pl(4)
    by (simp add: demo6_walked_def demo6_options_def ipv6_datagram_length_def ipv6_upper_layer_def transport_header_length_def
        minus_or_panic_def checked_sub_def IPV6_LENGTH_def ip_protocol_defs)
  then show ?thesis
    unfolding fragment_frame_def Let_def
    using demo6_link by (simp add: demo6_options_def get_from_def demo6_frame_def demo_raw_frame_def)
qed

section \<open>Reassembling them\<close>

definition demo6_key :: datagram_key where
  "demo6_key = KeyV6 (Ipv6DatagramKey 0 1 2 9)"

definition demo6_first :: fragment where
  "demo6_first = FragmentV6 (fragment6 0 demo6_ip 48 40 9 26 0 demo6_first_payload)"

definition demo6_second :: fragment where
  "demo6_second = FragmentV6 (fragment6 0 demo6_ip 48 40 9 26 16 demo6_last_payload)"

definition demo6_incoming :: "nat \<Rightarrow> incoming" where
  "demo6_incoming i =
     (if i = 0
      then \<lparr>in_key = demo6_key, in_offset = 0, in_end = 16, in_more_fragments = True, in_payload = demo6_first_payload,
        in_reconstruction = IncIpv6 (demo6_prefix 32 44) 40 17, in_ecn = Ect0\<rparr>
      else \<lparr>in_key = demo6_key, in_offset = 16, in_end = 26, in_more_fragments = False, in_payload = demo6_last_payload,
        in_reconstruction = IncIpv6 (demo6_prefix 26 44) 40 17, in_ecn = Ect0\<rparr>)"

definition demo6_table :: ip_reassembler where
  "demo6_table = demo_ip_start\<lparr>ir_datagrams := [(demo6_key,
       \<lparr>ds_ranges = [\<lparr>rr_start = 16, rr_bytes = \<lparr>dq_items = demo6_last_payload, dq_head = 0, dq_capacity = 10\<rparr>\<rparr>],
        ds_unique_bytes = 10, ds_fragment_count = 1, ds_duplicate_fragments = 0, ds_overlap_bytes = 0,
        ds_final_length = Some 26, ds_max_non_final_end = None,
        ds_reconstruction = RecIpv6 (demo6_prefix 26 44) 40 17 Ect0 False,
        ds_last_update = 5, ds_deadline = Some 15, ds_memory_charge = 122\<rparr>)],
     ir_expiry := [((15, demo6_key), ())],
     ir_retained := \<lparr>rt_payload_bytes = 10, rt_memory_charge = 4218, rt_datagram_slots = 1\<rparr>\<rparr>"

lemma demo6_read: "map (read_ipv6_fragment 0 0 48 40) demo6_cut = [demo6_first, demo6_second]"
proof -
  have bounds: "prefix_bounds demo6_ip 48 40"
    by (rule prefix_predecessor(1) [OF demo6_walk demo6_unfragmentable, of 0]) simp
  have same: "fragment_of (demo6_frame demo6_ip) 0 header chunk = demo6_frame (header @ chunk)" for header chunk
    by (simp add: fragment_of_def demo6_frame_def demo_raw_frame_def min_frame_length_def LINK_ETHERNET_def)
  have len: "length demo6_first_payload = 16" "length demo6_last_payload = 10"
    by (simp_all add: demo6_first_payload_def demo6_last_payload_def)
  show ?thesis
    using read_step6 [OF demo6_steps(1) bounds _ _ _ len(1), of 0 "demo6_frame demo6_ip" 0]
      read_step6 [OF demo6_steps(2) bounds _ _ _ len(2), of 0 "demo6_frame demo6_ip" 0]
    by (simp add: demo6_cut_def demo6_first_def demo6_second_def same)
qed

lemma demo6_validated:
  "validate_fragment demo6_first demo_ip_limits = Ok (demo6_incoming 0)"
  "validate_fragment demo6_second demo_ip_limits = Ok (demo6_incoming 1)"
proof -
  note bounds = prefix_predecessor(1) [OF demo6_walk demo6_unfragmentable, of 0, simplified]
    prefix_predecessor(2) [OF demo6_walk demo6_unfragmentable]
  have len: "length demo6_first_payload = 16" "length demo6_last_payload = 10"
    by (simp_all add: demo6_first_payload_def demo6_last_payload_def)
  then have ne: "demo6_first_payload \<noteq> []" "demo6_last_payload \<noteq> []"
    by auto
  have ip: "demo6_ip ! 0 = 0x60" "demo6_ip ! 1 = 0x20" "demo6_ip ! 40 = 17" "take 48 demo6_ip = demo6_prefix 34 17"
    by (simp_all add: demo6_ip_def demo6_prefix_def)
  have prefix: "fragment_prefix demo6_ip 48 40 32 = demo6_prefix 32 44" "fragment_prefix demo6_ip 48 40 26 = demo6_prefix 26 44"
    unfolding fragment_prefix_def ip(4) demo6_bytes by (simp_all add: demo6_prefix_def copy_at_def FRAGMENT_def)
  have key: "key6 0 demo6_ip 9 = demo6_key"
    by (simp add: key6_def demo6_key_def demo6_ip_def demo6_prefix_def slice_of_def ipv6_of_def be_nat_def)
  have piece: "piece6 0 demo6_ip 48 40 9 26 0 demo6_first_payload = demo6_incoming 0"
      "piece6 0 demo6_ip 48 40 9 26 16 demo6_last_payload = demo6_incoming 1"
    using ip(2,3) by (simp_all add: piece6_def demo6_incoming_def len key prefix ecn_from_ipv6_traffic_class_def ecn_from_bits_def)
  show "validate_fragment demo6_first demo_ip_limits = Ok (demo6_incoming 0)"
    unfolding demo6_first_def piece(1) [symmetric]
    by (rule validate_fragment6) (use bounds ip(1) len ne in \<open>simp_all add: demo_ip_limits_def\<close>)
  show "validate_fragment demo6_second demo_ip_limits = Ok (demo6_incoming 1)"
    unfolding demo6_second_def piece(2) [symmetric]
    by (rule validate_fragment6) (use bounds ip(1) len ne in \<open>simp_all add: demo_ip_limits_def\<close>)
qed

lemma demo6_push: "\<exists>o'. ip_push (\<lambda>_ _. True) demo6_second 5 demo_ip_start = (Ok (PushAccepted o'), demo6_table)"
  unfolding ip_push_def push_with_external_charge_def and_then_reads ip_plan_push_def demo_ip_start_def Let_def ip_reassembler.simps
    demo6_validated let_ok.simps
  by (simp add: ip_eval demo_ip_defs demo6_table_def demo6_incoming_def demo6_prefix_def demo6_last_payload_def demo6_key_def
      IPV6_LENGTH_def)

lemma demo6_completes: "\<exists>o' d r'. ip_push (\<lambda>_ _. True) demo6_first 6 demo6_table = (Ok (PushCompleted o' d), r')"
  unfolding ip_push_def push_with_external_charge_def and_then_reads ip_plan_push_def demo6_table_def demo_ip_start_def Let_def
    ip_reassembler.simps demo6_validated let_ok.simps
  by (simp add: ip_eval demo_ip_defs demo6_incoming_def demo6_prefix_def demo6_first_payload_def demo6_last_payload_def
      demo6_key_def reconstruct_ipv6_eq [where z = True] retained_release_def IPV6_LENGTH_def)

end
