(* ===== verification/Fragment_Theorems.thy ===== *)
theory Fragment_Theorems
  imports Fragment_Demo6
begin

text \<open>
  The promises of \<open>transform::fragment\<close>, and of fragmentation and reassembly together.
\<close>

section \<open>Positions\<close>

lemma tiles4_nth:
  assumes "tiles4 mtu header identification n position ps" and "position mod 8 = 0" and "i < length ps"
  defines "q \<equiv> position + length (concat (map part_payload (take i ps)))"
  shows "tile4 mtu header identification n q (ps ! i) \<and> q mod 8 = 0
    \<and> (Suc i < length ps \<longleftrightarrow> q + length (part_payload (ps ! i)) < n)"
  using assms(1-3) unfolding q_def
proof (induction ps arbitrary: position i)
  case (Cons p ps)
  let ?len = "length (part_payload p)"
  have tile: "tile4 mtu header identification n position p" and rest: "tiles4 mtu header identification n (position + ?len) ps"
    using Cons.prems(1) by simp_all
  note h = tile4_header [OF tile]
  have last: "ps = [] \<longleftrightarrow> position + ?len = n"
  proof (cases ps)
    case (Cons p' ps')
    then show ?thesis
      using rest tile4_header(3,4) [of mtu header identification n "position + ?len" p'] by auto
  qed (use rest in simp)
  show ?case
  proof (cases i)
    case 0
    then show ?thesis
      using tile Cons.prems(2) last h(4) by auto
  next
    case (Suc j)
    then have "position + ?len < n"
      using last h(4) Cons.prems(3) by auto
    then have "(position + ?len) mod 8 = 0"
      using h(5) Cons.prems(2) by (simp add: mod_add_eq [symmetric])
    from Cons.IH [OF rest this, of j] show ?thesis
      using Cons.prems(3) by (simp add: Suc add.assoc)
  qed
qed simp

section \<open>Limits\<close>

lemma tiled_same_frame:
  "tiled step frame offset payload position fs \<Longrightarrow> f \<in> set fs \<Longrightarrow> fr_link_type f = fr_link_type frame
    \<and> fr_timestamp f = fr_timestamp frame \<and> fr_interface f = fr_interface frame \<and> fr_direction f = fr_direction frame"
  by (induction fs arbitrary: position) (auto simp: fragment_of_def Let_def)

definition copies_of :: "frame \<Rightarrow> fragment_options \<Rightarrow> frame list \<Rightarrow> bool" where
  "copies_of frame options fs \<longleftrightarrow> fs \<noteq> [] \<and> length fs \<le> fo_max_fragments options
     \<and> total_bytes fs \<le> fo_max_output_bytes options
     \<and> (\<forall>f\<in>set fs. fr_link_type f = fr_link_type frame \<and> fr_timestamp f = fr_timestamp frame
          \<and> fr_interface f = fr_interface frame \<and> fr_direction f = fr_direction frame \<and> (frame_ok frame \<longrightarrow> frame_ok f))"

lemma cut_run_copies:
  assumes "cut_run step frame offset payload options 0 (0, []) fs" and "payload \<noteq> []"
  shows "copies_of frame options fs"
proof -
  note cut = cut_run_start [OF assms(1)]
  have "fs \<noteq> []"
    using cut(2) assms(2) by auto
  then show ?thesis
    using cut tiled_frames_ok [OF cut(2)] tiled_same_frame [OF cut(2)]
    by (auto simp: copies_of_def within_limits_def list_all_iff)
qed

lemma unchanged_copies:
  "unchanged frame options = Ok fs \<Longrightarrow> 1 \<le> fo_max_fragments options \<Longrightarrow> fs = [frame] \<and> copies_of frame options fs"
  by (auto simp: unchanged_def outcome_iff copies_of_def)

lemma fragment_ipv4_copies:
  assumes "fragment_ipv4 frame offset ip h options = Ok fs" and "ipv4_walk ip = Ok h" and "1 \<le> fo_max_fragments options"
  shows "copies_of frame options fs" and "ipv4_total_length h \<le> fo_mtu options \<Longrightarrow> fs = [frame]"
proof -
  have "copies_of frame options fs \<and> (ipv4_total_length h \<le> fo_mtu options \<longrightarrow> fs = [frame])"
  proof (cases "ipv4_total_length h \<le> fo_mtu options")
    case True
    then have "unchanged frame options = Ok fs"
      using assms(1) unfolding fragment_ipv4_def Let_def if_P [OF True] let_ok_Ok_iff by auto
    then show ?thesis
      using unchanged_copies [OF _ assms(3)] by blast
  next
    case False
    let ?pl = "slice_of ip (ipv4_header_length h) (ipv4_total_length h)"
    obtain copied identification where differs: "ipv4_total_length h \<noteq> ipv4_header_length h"
      and loop: "fragment_loop4 frame offset ip (ipv4_header_length h) copied identification (ipv4_flags_and_offset h) ?pl
          options 0 (0, []) = Ok fs"
      using assms(1) unfolding fragment_ipv4_def Let_def if_not_P [OF False] let_ok_Ok_iff ok_or_iff expect_iff ensure_iff
        get_range_iff by auto
    note b = ipv4_walk_lengths_bounds [OF assms(2) [unfolded ipv4_walk_def]]
    have "length ?pl \<noteq> 0"
      using differs b(4,7) by simp
    then have "?pl \<noteq> []"
      unfolding length_0_conv .
    with cut_run_copies [OF fragment_loop4_run [OF loop]] False show ?thesis
      by blast
  qed
  then show "copies_of frame options fs" and "ipv4_total_length h \<le> fo_mtu options \<Longrightarrow> fs = [frame]"
    by blast+
qed

lemma fragment_ipv6_copies:
  assumes "fragment_ipv6 frame offset ip h options = Ok fs" and "ipv6_walk ip = Ok h" and "1 \<le> fo_max_fragments options"
  shows "copies_of frame options fs" and "ipv6_datagram_length h \<le> fo_mtu options \<Longrightarrow> fs = [frame]"
proof -
  have "copies_of frame options fs \<and> (ipv6_datagram_length h \<le> fo_mtu options \<longrightarrow> fs = [frame])"
  proof (cases "ipv6_datagram_length h \<le> fo_mtu options")
    case True
    then have "unchanged frame options = Ok fs"
      using assms(1) unfolding fragment_ipv6_def Let_def if_P [OF True] let_ok_Ok_iff by (auto split: prod.splits simp: outcome_iff)
    then show ?thesis
      using unchanged_copies [OF _ assms(3)] by blast
  next
    case False
    obtain pl pn identification where found: "unfragmentable 0 (ipv6_extensions h) (IPV6_LENGTH, 6) = Ok (pl, pn)"
      and pl: "pl < ipv6_datagram_length h"
      and loop: "fragment_loop6 frame offset ip pl pn identification (fo_mtu options - (pl + 8))
        (slice_of ip pl (ipv6_datagram_length h)) options 0 (0, []) = Ok fs"
      by (rule fragment_ipv6_Ok [OF assms(1,2) False])
    have "length (slice_of ip pl (ipv6_datagram_length h)) \<noteq> 0"
      using pl ipv6_prefix_bounds(5) [OF assms(2) found] by simp
    then have "slice_of ip pl (ipv6_datagram_length h) \<noteq> []"
      unfolding length_0_conv .
    with cut_run_copies [OF fragment_loop6_run [OF loop]] False show ?thesis
      by blast
  qed
  then show "copies_of frame options fs" and "ipv6_datagram_length h \<le> fo_mtu options \<Longrightarrow> fs = [frame]"
    by blast+
qed

lemma fragment_frame_carried:
  assumes "fragment_frame frame options = Ok fs" and "carries_ipv4 link frame h header payload"
  shows "fragment_ipv4 frame (network_offset link) (drop (network_offset link) (fr_bytes frame)) h options = Ok fs"
proof (rule fragment_frame_Ok [OF assms(1)])
  fix link' header'
  assume "link_walk (fr_link_type frame) (fr_bytes frame) = Ok (Some link')"
    and "link_walk_ip link' (fr_bytes frame) = Ok (Some header')"
    and run: "(case header' of
        IpV4 h \<Rightarrow> fragment_ipv4 frame (network_offset link') (drop (network_offset link') (fr_bytes frame)) h options
      | IpV6 h \<Rightarrow> fragment_ipv6 frame (network_offset link') (drop (network_offset link') (fr_bytes frame)) h options) = Ok fs"
  then have "link' = link" "header' = IpV4 h"
    using assms(2) by (auto simp: carries_ipv4_def)
  then show ?thesis
    using run by simp
qed

lemma fragment_frame_carried6:
  assumes "fragment_frame frame options = Ok fs" and "link_walk (fr_link_type frame) (fr_bytes frame) = Ok (Some link)"
    and "link_walk_ip link (fr_bytes frame) = Ok (Some (IpV6 h))"
  shows "fragment_ipv6 frame (network_offset link) (drop (network_offset link) (fr_bytes frame)) h options = Ok fs"
proof (rule fragment_frame_Ok [OF assms(1)])
  fix link' header'
  assume "link_walk (fr_link_type frame) (fr_bytes frame) = Ok (Some link')"
    and "link_walk_ip link' (fr_bytes frame) = Ok (Some header')"
    and run: "(case header' of
        IpV4 h \<Rightarrow> fragment_ipv4 frame (network_offset link') (drop (network_offset link') (fr_bytes frame)) h options
      | IpV6 h \<Rightarrow> fragment_ipv6 frame (network_offset link') (drop (network_offset link') (fr_bytes frame)) h options) = Ok fs"
  then have "link' = link" "header' = IpV6 h"
    using assms(2,3) by auto
  then show ?thesis
    using run by simp
qed

section \<open>Properties\<close>

text \<open>
  C3: Fragmenting an IPv4 frame and reassembling the fragments gives the datagram back. When \<open>fragment\<close>
  cuts a frame that is longer than the MTU, keeping its identification, and the fragments, as their bytes
  read, are pushed once each in any order into a reachable table that does not hold the datagram, and every
  push is accepted, then the last push completes the datagram: the payload byte for byte behind a header
  that equals the original one outside the checksum, verifies, and equals it entirely unless the original
  checksum was stored as all ones; every earlier push leaves the datagram incomplete and the table ends
  without it.
\<close>
theorem fragment_then_reassemble:
  assumes "fragment_frame frame options = Ok fs" and "carries_ipv4 link frame h header payload"
    and "fo_mtu options < ipv4_total_length h"
    and "chosen_identification options (ipv4_identification h) = ipv4_identification h"
    and "ip_reachable limits policy r" and "length payload \<le> max_bytes_per_datagram limits"
    and "bt_get (ir_datagrams r) (KeyV4 (key_of_header sc header (ipv4_identification h))) = None"
    and "mset (map (Some \<circ> fst) run) = mset (map (read_ipv4_fragment sc link) fs)"
    and "ip_push_all alloc run r = (trace, r')" and "list_all (\<lambda>(f, result). \<exists>out. result = Ok out) trace"
  shows "(\<exists>o' d hd'. snd (last trace) = Ok (PushCompleted o' d) \<and> cd_bytes d = hd' @ payload
      \<and> length hd' = length header \<and> (\<forall>i<length header. i \<notin> {10, 11} \<longrightarrow> hd' ! i = header ! i)
      \<and> checksum_parts [hd'] = 0 \<and> (slice_of header 10 12 \<noteq> [0xff, 0xff] \<longrightarrow> hd' = header))
    \<and> list_all (\<lambda>(f, result). \<exists>o'. result = Ok (PushAccepted o')) (butlast trace)
    \<and> bt_get (ir_datagrams r') (KeyV4 (key_of_header sc header (ipv4_identification h))) = None"
proof -
  note cut = fragment_frame_carried [OF assms(1,2)]
  note all = fragments_reassemble [OF assms(2,3) cut assms(4) ip_reachable_ok [OF assms(5)] assms(6) refl assms(7,9,10,8)]
  from all show ?thesis
    by blast
qed

theorem fragment_then_reassemble_witness:
  "\<exists>o1 o2 d table r'. fragment_frame demo_whole demo_fragment_options = Ok demo_cut
    \<and> map (read_ipv4_fragment 0 (LinkRawIp (Some 4))) demo_cut = [Some demo_cut_first, Some demo_cut_second]
    \<and> ip_push (\<lambda>_ _. True) demo_cut_second 5 demo_ip_start = (Ok (PushAccepted o1), table)
    \<and> ip_push (\<lambda>_ _. True) demo_cut_first 6 table = (Ok (PushCompleted o2 d), r')
    \<and> cd_bytes d = fr_bytes demo_whole"
proof -
  let ?h = "\<lparr>ipv4_header_length = 20, ipv4_total_length = 30, ipv4_identification = 7, ipv4_flags_and_offset = 0,
    ipv4_protocol = 17\<rparr>"
  let ?header = "demo_ipv4_header 30 0 0 0x7a 0xc6" and ?pl = "[1, 2, 3, 4, 5, 6, 7, 8, 9, 10] :: bytes"
  let ?run = "[(demo_cut_second, 5), (demo_cut_first, 6)]"
  obtain o1 o2 d r' where push: "ip_push (\<lambda>_ _. True) demo_cut_second 5 demo_ip_start = (Ok (PushAccepted o1), demo_ip_table)"
      "ip_push (\<lambda>_ _. True) demo_cut_first 6 demo_ip_table = (Ok (PushCompleted o2 d), r')"
    using demo_cut_push demo_cut_completes by blast
  then obtain trace where run: "ip_push_all (\<lambda>_ _. True) ?run demo_ip_start = (trace, r')"
    and last: "snd (last trace) = Ok (PushCompleted o2 d)"
    and good: "list_all (\<lambda>(f, result). \<exists>out. result = Ok out) trace"
    by simp
  have long: "fo_mtu demo_fragment_options < ipv4_total_length ?h"
    and keep: "chosen_identification demo_fragment_options (ipv4_identification ?h) = ipv4_identification ?h"
    and fits: "length ?pl \<le> max_bytes_per_datagram demo_ip_limits"
    and fresh: "bt_get (ir_datagrams demo_ip_start) (KeyV4 (key_of_header 0 ?header (ipv4_identification ?h))) = None"
    and perm: "mset (map (Some \<circ> fst) ?run) = mset (map (read_ipv4_fragment 0 (LinkRawIp (Some 4))) demo_cut)"
    by (simp_all add: demo_fragment_options_def chosen_identification_def demo_ip_limits_def demo_ip_start_def bt_get_def demo_read)
  note all = fragment_then_reassemble [OF demo_fragments demo_carries long keep ip_reachable.start [OF demo_ip_new] fits fresh perm
      run good]
  have "slice_of ?header 10 12 \<noteq> [0xff, 0xff]"
    by (simp add: demo_ipv4_header_def slice_of_def)
  then have "cd_bytes d = ?header @ ?pl"
    using all last by auto
  then have "cd_bytes d = fr_bytes demo_whole"
    by (simp add: demo_whole_def demo_raw_frame_def)
  with push have "ip_push (\<lambda>_ _. True) demo_cut_second 5 demo_ip_start = (Ok (PushAccepted o1), demo_ip_table)
      \<and> ip_push (\<lambda>_ _. True) demo_cut_first 6 demo_ip_table = (Ok (PushCompleted o2 d), r')
      \<and> cd_bytes d = fr_bytes demo_whole"
    by simp
  then show ?thesis
    unfolding demo_read using demo_fragments by blast
qed

text \<open>
  C4: Fragmenting an IPv6 frame and reassembling the fragments gives the datagram back, bit for bit. When
  \<open>fragment\<close> cuts a frame that is longer than the MTU, and the fragments, read from their bytes behind the
  unfragmentable part, are pushed once each in any order into a reachable table that does not hold the
  datagram, and every push is accepted, then the last push completes exactly the bytes of the original
  datagram: the rewritten payload length, the restored Next Header field and the congestion bits included.
  Every earlier push leaves the datagram incomplete and the table ends without it.
\<close>
theorem fragment_then_reassemble_ipv6:
  assumes "ip = drop (network_offset link) (fr_bytes frame)"
    and "fragment_frame frame options = Ok fs" and "link_walk (fr_link_type frame) (fr_bytes frame) = Ok (Some link)"
    and "link_walk_ip link (fr_bytes frame) = Ok (Some (IpV6 h))" and "fo_mtu options < ipv6_datagram_length h"
    and "unfragmentable 0 (ipv6_extensions h) (IPV6_LENGTH, 6) = Ok (pl, pn)"
    and "fo_identification options = Some identification"
    and "ip_reachable limits policy r" and "ipv6_datagram_length h - pl \<le> max_bytes_per_datagram limits"
    and "bt_get (ir_datagrams r) (key6 sc ip identification) = None"
    and "mset (map fst run) = mset (map (read_ipv6_fragment sc (network_offset link) pl pn) fs)"
    and "ip_push_all alloc run r = (trace, r')" and "list_all (\<lambda>(f, result). \<exists>out. result = Ok out) trace"
  shows "(\<exists>o' d. snd (last trace) = Ok (PushCompleted o' d) \<and> cd_key d = key6 sc ip identification
      \<and> cd_bytes d = take (ipv6_datagram_length h) ip)
    \<and> list_all (\<lambda>(f, result). \<exists>o'. result = Ok (PushAccepted o')) (butlast trace)
    \<and> bt_get (ir_datagrams r') (key6 sc ip identification) = None"
proof -
  note cut = fragment_frame_carried6 [OF assms(2-4), folded assms(1)]
  have off: "network_offset link \<le> length (fr_bytes frame)"
    using link_walk_prefix(1) [OF assms(3)] .
  have walk: "ipv6_walk ip = Ok h"
    using ip_walk_cases [OF link_walk_ip_inside(2) [OF assms(4)]] unfolding assms(1) by simp
  show ?thesis
    using fragments_reassemble6 [OF walk off cut assms(5-7) ip_reachable_ok [OF assms(8)] assms(9,10,12,13,11)] by blast
qed

theorem fragment_then_reassemble_ipv6_witness:
  "\<exists>o1 o2 d table r'. fragment_frame (demo6_frame demo6_ip) demo6_options = Ok demo6_cut
    \<and> map (read_ipv6_fragment 0 0 48 40) demo6_cut = [demo6_first, demo6_second]
    \<and> ip_push (\<lambda>_ _. True) demo6_second 5 demo_ip_start = (Ok (PushAccepted o1), table)
    \<and> ip_push (\<lambda>_ _. True) demo6_first 6 table = (Ok (PushCompleted o2 d), r')
    \<and> cd_bytes d = demo6_ip"
proof -
  let ?run = "[(demo6_second, 5), (demo6_first, 6)]" and ?link = "LinkRawIp (Some 6)"
  obtain o1 o2 d r' where push: "ip_push (\<lambda>_ _. True) demo6_second 5 demo_ip_start = (Ok (PushAccepted o1), demo6_table)"
      "ip_push (\<lambda>_ _. True) demo6_first 6 demo6_table = (Ok (PushCompleted o2 d), r')"
    using demo6_push demo6_completes by blast
  then obtain trace where run: "ip_push_all (\<lambda>_ _. True) ?run demo_ip_start = (trace, r')"
    and last: "snd (last trace) = Ok (PushCompleted o2 d)"
    and good: "list_all (\<lambda>(f, result). \<exists>out. result = Ok out) trace"
    by simp
  have frame: "fr_link_type (demo6_frame demo6_ip) = LinkType 229" "fr_bytes (demo6_frame demo6_ip) = demo6_ip"
    by (simp_all add: demo6_frame_def demo_raw_frame_def)
  have size: "ipv6_datagram_length demo6_walked = 74" "length demo6_ip = 74"
    by (simp_all add: demo6_walked_def ipv6_datagram_length_def IPV6_LENGTH_def demo6_ip_def demo6_prefix_def
        demo6_first_payload_def demo6_last_payload_def)
  have long: "fo_mtu demo6_options < ipv6_datagram_length demo6_walked" and id: "fo_identification demo6_options = Some 9"
    and fits: "ipv6_datagram_length demo6_walked - 48 \<le> max_bytes_per_datagram demo_ip_limits"
    and fresh: "bt_get (ir_datagrams demo_ip_start) key = None" for key
    by (simp_all add: demo6_options_def size demo_ip_limits_def demo_ip_start_def bt_get_def)
  have perm: "mset (map fst ?run) = mset (map (read_ipv6_fragment 0 (network_offset ?link) 48 40) demo6_cut)"
    by (simp add: demo6_read)
  have links: "link_walk (fr_link_type (demo6_frame demo6_ip)) (fr_bytes (demo6_frame demo6_ip)) = Ok (Some ?link)"
      "link_walk_ip ?link (fr_bytes (demo6_frame demo6_ip)) = Ok (Some (IpV6 demo6_walked))"
    unfolding frame by (fact demo6_link)+
  note all = fragment_then_reassemble_ipv6 [OF refl demo6_fragments links long demo6_unfragmentable id
      ip_reachable.start [OF demo_ip_new] fits fresh perm run good]
  have "cd_bytes d = demo6_ip"
    using all last by (auto simp: frame size)
  with push have "ip_push (\<lambda>_ _. True) demo6_second 5 demo_ip_start = (Ok (PushAccepted o1), demo6_table)
      \<and> ip_push (\<lambda>_ _. True) demo6_first 6 demo6_table = (Ok (PushCompleted o2 d), r') \<and> cd_bytes d = demo6_ip"
    by simp
  then show ?thesis
    unfolding demo6_read using demo6_fragments by blast
qed

text \<open>
  C17: The fragments tile the datagram. When \<open>fragment\<close> cuts an IPv4 frame that is longer than the MTU,
  every frame it returns walks, behind the original link header, to an IPv4 fragment of at most MTU bytes
  whose header verifies, with the chosen identification and the type of service, time to live, protocol and
  addresses of the original; the payloads in order are the original payload, each fragment's offset is
  where its payload starts, every fragment but the last says that more follow and carries a multiple of
  eight bytes.
\<close>
theorem fragment_ipv4_tiles:
  assumes "fragment_frame frame options = Ok fs" and "carries_ipv4 link frame h header payload"
    and "fo_mtu options < ipv4_total_length h"
  shows "\<exists>ps. list_all2 (part_of link) fs ps \<and> concat (map part_payload ps) = payload
    \<and> (\<forall>i<length ps. part_offset (ps ! i) = length (concat (map part_payload (take i ps)))
        \<and> (part_more (ps ! i) \<longleftrightarrow> Suc i < length ps) \<and> (Suc i < length ps \<longrightarrow> length (part_payload (ps ! i)) mod 8 = 0)
        \<and> ipv4_total_length (part_header (ps ! i)) \<le> fo_mtu options \<and> checksum_parts [part_bytes (ps ! i)] = 0
        \<and> ipv4_identification (part_header (ps ! i)) = chosen_identification options (ipv4_identification h)
        \<and> (\<forall>j\<in>{1, 8, 9} \<union> {12..<20}. part_bytes (ps ! i) ! j = header ! j))"
proof -
  let ?id = "chosen_identification options (ipv4_identification h)" and ?n = "length payload"
  obtain ps where ps: "list_all2 (part_of link) fs ps" "tiles4 (fo_mtu options) header ?id ?n 0 ps"
      "concat (map part_payload ps) = payload" and sum: "checksum_parts [header] = 0" "ipv4_flags_and_offset h = 0"
    by (rule fragment_ipv4_parts [OF assms(2,3) fragment_frame_carried [OF assms(1,2)]])
  have fits: "?n < 65536"
    using whole_header(1) [OF assms(2) sum] by (simp add: whole_ipv4_ok_def)
  have part: "part_offset p = q \<and> (part_more p \<longleftrightarrow> s) \<and> (s \<longrightarrow> length (part_payload p) mod 8 = 0)
      \<and> ipv4_total_length (part_header p) \<le> fo_mtu options \<and> checksum_parts [part_bytes p] = 0
      \<and> ipv4_identification (part_header p) = ?id \<and> (\<forall>j\<in>{1, 8, 9} \<union> {12..<20}. part_bytes p ! j = header ! j)"
    if t: "tile4 (fo_mtu options) header ?id ?n q p" and q: "q mod 8 = 0" and s: "s \<longleftrightarrow> q + length (part_payload p) < ?n"
    for p q s
  proof -
    note h = tile4_header [OF t]
    have small: "q < 65536"
      using h(4) fits by linarith
    note b = tile4_bytes [OF t small] and w = fragment_word_fields [OF small]
    have "unat (of_nat (q div 8) :: u16) = q div 8"
      using small by (simp add: unat_of_nat)
    then have "part_offset p = q"
      using q unfolding part_offset_def h(2) w(1) by auto
    then show ?thesis
      using h b s w(2) unfolding part_more_def by auto
  qed
  have zero: "(0 :: nat) mod 8 = 0"
    by simp
  show ?thesis
  proof (intro exI [of _ ps] conjI allI impI)
    fix i
    assume "i < length ps"
    note t = tiles4_nth [OF ps(2) zero this, unfolded add_0]
    note p = part [OF conjunct1 [OF t] conjunct1 [OF conjunct2 [OF t]] conjunct2 [OF conjunct2 [OF t]]]
    from p show "part_offset (ps ! i) = length (concat (map part_payload (take i ps)))"
      and "part_more (ps ! i) \<longleftrightarrow> Suc i < length ps"
      and "ipv4_total_length (part_header (ps ! i)) \<le> fo_mtu options" and "checksum_parts [part_bytes (ps ! i)] = 0"
      and "ipv4_identification (part_header (ps ! i)) = ?id"
      and "\<forall>j\<in>{1, 8, 9} \<union> {12..<20}. part_bytes (ps ! i) ! j = header ! j"
      by blast+
    assume "Suc i < length ps"
    with p show "length (part_payload (ps ! i)) mod 8 = 0"
      by blast
  qed (fact ps)+
qed

theorem fragment_ipv4_tiles_witness:
  "\<exists>ps. list_all2 (part_of (LinkRawIp (Some 4))) demo_cut ps \<and> length ps = 2
    \<and> concat (map part_payload ps) = [1, 2, 3, 4, 5, 6, 7, 8, 9, 10] \<and> part_more (ps ! 0) \<and> \<not> part_more (ps ! 1)
    \<and> part_offset (ps ! 1) mod 8 = 0"
proof -
  have long: "fo_mtu demo_fragment_options < ipv4_total_length \<lparr>ipv4_header_length = 20, ipv4_total_length = 30,
      ipv4_identification = 7, ipv4_flags_and_offset = 0, ipv4_protocol = 17\<rparr>"
    by (simp add: demo_fragment_options_def)
  obtain ps where ps: "list_all2 (part_of (LinkRawIp (Some 4))) demo_cut ps"
      "concat (map part_payload ps) = [1, 2, 3, 4, 5, 6, 7, 8, 9, 10]"
    and at: "\<forall>i<length ps. part_offset (ps ! i) = length (concat (map part_payload (take i ps)))
        \<and> (part_more (ps ! i) \<longleftrightarrow> Suc i < length ps) \<and> (Suc i < length ps \<longrightarrow> length (part_payload (ps ! i)) mod 8 = 0)"
    using fragment_ipv4_tiles [OF demo_fragments demo_carries long] by blast
  have two: "length ps = 2"
    using list_all2_lengthD [OF ps(1)] by (simp add: demo_cut_def)
  have first: "part_more (ps ! 0)" "length (part_payload (ps ! 0)) mod 8 = 0"
    using at [rule_format, of 0] two by simp_all
  have second: "\<not> part_more (ps ! 1)" "part_offset (ps ! 1) = length (part_payload (ps ! 0))"
    using at [rule_format, of 1] two by (cases ps; simp)+
  show ?thesis
    using ps two first second by (intro exI [of _ ps]) simp
qed

text \<open>
  C19: Fragmentation never panics, whatever the frame and the options: every index and subtraction of both
  families stays in range, and both loops end, so a call returns a list of frames or an error.
\<close>
theorem fragment_never_panics: "fragment_frame frame options \<noteq> Panic"
  by (rule fragment_frame_no_panic)

text \<open>
  C18: The output is bounded. A successful call returns at least one and at most \<open>max_fragments\<close> frames, with
  at most \<open>max_output_bytes\<close> bytes together, all of the link type, timestamp, interface and direction of the
  original and each as long as it says; \<open>max_fragments\<close> was between 1 and 8192, and a datagram that fits the
  MTU comes back as it was.
\<close>
theorem fragment_bounded:
  assumes "fragment_frame frame options = Ok fs"
  shows "copies_of frame options fs \<and> 1 \<le> fo_max_fragments options \<and> fo_max_fragments options \<le> 8192
    \<and> (\<exists>link header. link_walk (fr_link_type frame) (fr_bytes frame) = Ok (Some link)
        \<and> link_walk_ip link (fr_bytes frame) = Ok (Some header)
        \<and> (ip_datagram_length header \<le> fo_mtu options \<longrightarrow> fs = [frame]))"
proof -
  obtain link header where options: "1 \<le> fo_max_fragments options" "fo_max_fragments options \<le> 8192"
    and walk: "link_walk (fr_link_type frame) (fr_bytes frame) = Ok (Some link)"
      "link_walk_ip link (fr_bytes frame) = Ok (Some header)"
    and run: "(case header of
        IpV4 h \<Rightarrow> fragment_ipv4 frame (network_offset link) (drop (network_offset link) (fr_bytes frame)) h options
      | IpV6 h \<Rightarrow> fragment_ipv6 frame (network_offset link) (drop (network_offset link) (fr_bytes frame)) h options) = Ok fs"
    by (rule fragment_frame_Ok [OF assms])
  have "copies_of frame options fs \<and> (ip_datagram_length header \<le> fo_mtu options \<longrightarrow> fs = [frame])"
    using ip_walk_cases [OF link_walk_ip_inside(2) [OF walk(2)]] run fragment_ipv4_copies [OF _ _ options(1)]
      fragment_ipv6_copies [OF _ _ options(1)] by auto
  then show ?thesis
    using options walk by blast
qed

theorem fragment_bounded_witness: "copies_of demo_whole demo_fragment_options demo_cut \<and> length demo_cut \<le> 4"
  using fragment_bounded [OF demo_fragments] by (simp add: demo_cut_def)

end
