(* ===== verification/Spec2Isabelle.thy ===== *)
theory Spec2Isabelle
  imports Tcp_Theorems Fragment_Theorems
begin

text \<open>
  Verification of the packet analysis core of PacketcraftR. All paths below are relative to
  \<open>src/crates/packetcraftr-core/src\<close>.

  \<^bold>\<open>The program.\<close> PacketcraftR builds, sends, captures and analyses packets. The part modelled here is the
  machinery that sits between a captured frame and a byte stream, and everything it calls:

  \<^item> the header walker (\<open>protocol/headers.rs\<close>) reads link, VLAN, IPv4 and IPv6 headers out of raw bytes;
  \<^item> the Internet checksum (\<open>protocol/common/checksum.rs\<close>) is computed over lists of slices;
  \<^item> \<open>transform/fragment.rs\<close> cuts a frame (\<open>frame.rs\<close>) into IP fragments, with the walker and the checksum;
  \<^item> the IP reassembler (\<open>analysis/reassembly/ip/\<close>) puts fragments together again, with the walker's
    extension chain, the checksum and the expiry index;
  \<^item> the TCP reassembler (\<open>analysis/reassembly/tcp/\<close>) orders the segments of flows into streams, with serial
    arithmetic (\<open>analysis/serial.rs\<close>), flow keys (\<open>analysis/stream.rs\<close>, \<open>analysis/scope.rs\<close>) and the expiry index
    (\<open>analysis/reassembly/expiry.rs\<close>).

  \<^bold>\<open>How the code is modelled.\<close> A call returns an \<open>outcome\<close>: \<open>Ok\<close>, \<open>Err\<close> or \<open>Panic\<close>; the operator \<open>?\<close> is \<open>let_ok\<close>,
  a failed index, slice, \<open>expect\<close> or overflowing plain addition is \<open>Panic\<close> (\<open>Prelude\<close>). A method that mutates
  \<open>self\<close> takes the state record and returns it with the result. A push into the IP reassembler writes in
  several places and can fail between them, so it is an effect (\<open>Effects\<close>): a sequence of statements in the
  order of the code, which returns the state reached also with an error. The TCP push returns a state with \<open>Ok\<close>
  only: its planning borrows the reassembler, and the commit that follows has no error in the code; nor have
  expire and flush. \<open>usize\<close> and \<open>u64\<close> are naturals with the checked, saturating and panicking operations of the code;
  narrower integers are words. A \<open>BTreeMap\<close> is a sorted association list (\<open>Ordered_Map\<close>); a \<open>HashMap\<close> is one
  too, and where the code iterates over it the order of the visit is an argument (\<open>visit\<close> of \<open>ip_flush\<close>).
  Whether an allocation succeeds is an argument (\<open>alloc\<close>) of every definition that reserves memory. Times
  are naturals in nanoseconds and the reading of the clock is an argument.

  \<^bold>\<open>Theories.\<close>

  \<^item> \<open>Prelude\<close>: machine types, outcomes, checked arithmetic, slices and big-endian bytes. \<open>Effects\<close>: sequences of
    statements that read, write and fail. \<open>Ordered_Map\<close>: the
    contract of an ordered map as a locale, with the sums over a table that the accounting needs, interpreted
    for the sorted association list.
  \<^item> \<open>Serial\<close> (\<open>serial.rs\<close>): comparison and distance of 32-bit sequence numbers. \<open>Checksum\<close>: the accumulator of
    \<open>Checksum::add\<close> and \<open>finish\<close>, equal to the sum of RFC 1071, and that a written checksum verifies. \<open>Keys\<close>:
    flow and datagram keys with their orders, transport checksums. \<open>Expiry\<close> (\<open>expiry.rs\<close>): the deadline index as
    a locale, interpreted on its definitions.
  \<^item> \<open>Headers\<close>, \<open>Header_Walks\<close> (\<open>protocol/headers.rs\<close>, \<open>packet/link.rs\<close>): Ethernet with VLAN tags, IPv4 with options, IPv6
    with its extension chain, link dispatch; a walk succeeds exactly on the bytes of a header, stays inside
    the datagram and never panics.
  \<^item> \<open>Frames\<close> (\<open>frame.rs\<close>, \<open>transform/error.rs\<close>) and \<open>Fragmenter\<close> (\<open>transform/fragment.rs\<close>: \<open>fragment_frame\<close> is
    \<open>fragment\<close>, \<open>fragment_ipv4\<close> and \<open>fragment_ipv6\<close> its two branches with \<open>fragment_loop4\<close> and \<open>fragment_loop6\<close>). \<open>Fragment_Tiles\<close>
    describes what the loops append, \<open>Fragment_Headers\<close> and \<open>Fragment_Ipv4\<close> the headers they write and that they
    walk, \<open>Fragment_Parts\<close> and \<open>Fragment_Whole\<close> the list of parts of a whole call, \<open>Fragment_Frames\<close> that nothing
    panics, \<open>Fragment_Ipv6\<close> the prefix of an IPv6 fragment, \<open>Fragment_Reassembly\<close> and \<open>Fragment_Reassembly6\<close> the way
    through the reassembler, \<open>Fragment_Demo\<close> and \<open>Fragment_Demo6\<close> a concrete run each and \<open>Fragment_Theorems\<close> the
    properties.
  \<^item> \<open>Tcp_Model\<close> (\<open>tcp/model.rs\<close>, \<open>tcp/limits.rs\<close>), \<open>Tcp_History\<close> (\<open>tcp/history.rs\<close>: the ring of delivered bytes refines a
    list), \<open>Tcp_Pages\<close> (\<open>tcp/pages.rs\<close>: the sparse page store refines a partial map), \<open>Tcp_State\<close> (\<open>tcp/state.rs\<close>), \<open>Tcp_Pending\<close>
    (\<open>tcp/pending.rs\<close>, \<open>pending/accounting.rs\<close>), \<open>Tcp_Commit\<close> (\<open>pending/commit.rs\<close>) and \<open>Tcp_Engine\<close> (\<open>tcp/engine.rs\<close>: \<open>tcp_push\<close>,
    \<open>tcp_expire\<close>, \<open>tcp_flush\<close>, \<open>evict_flow\<close>) hold the model. \<open>Tcp_Merge\<close>, \<open>Tcp_Store\<close>, \<open>Tcp_Place\<close>, \<open>Tcp_Flow\<close> and \<open>Tcp_Push\<close> prove each step
    of a push, \<open>Tcp_Refine\<close> the refinement of a flow to a stream with gaps, \<open>Tcp_Reach\<close> the invariant of reachable
    tables, \<open>Tcp_Stream\<close> streams in any order, and \<open>Tcp_Theorems\<close> the properties.
  \<^item> \<open>Ip_Model\<close> (\<open>ip/model.rs\<close>, \<open>ip/limits.rs\<close>, \<open>ip.rs\<close>), \<open>Ip_Validate\<close> (\<open>engine/validation.rs\<close>), \<open>Ip_Merge\<close> (\<open>engine/merge.rs\<close>),
    \<open>Ip_Reconstruct\<close> (\<open>engine/reconstruction.rs\<close>) and \<open>Ip_Engine\<close> (\<open>engine.rs\<close>: \<open>push_with_external_charge\<close>, \<open>ip_expire\<close>, \<open>ip_flush\<close>)
    hold the model. \<open>Ip_Ranges\<close> and \<open>Ip_Union\<close> show that a merge is a union of partial maps decided by the overlap
    policy, \<open>Ip_Charges\<close> and \<open>Ip_Admit\<close> the accounting and the capacity search, \<open>Ip_State\<close>, \<open>Ip_Rebuild\<close>, \<open>Ip_Push\<close>, \<open>Ip_Plan\<close>
    and \<open>Ip_Commit\<close> each step of a push, \<open>Ip_Table\<close> and \<open>Ip_Retire\<close> the invariant of the table under push, expire
    and flush, \<open>Ip_Reach\<close> reachable tables, \<open>Ip_Order\<close> and \<open>Ip_Cut\<close> datagrams in any order, and \<open>Ip_Theorems\<close> the properties.

  \<^bold>\<open>What the theorems show.\<close> For both reassemblers: the data comes out right whatever the order, overlap and
  repetition of what goes in; one push refines the abstract step of a stream or a partial map; in every
  reachable state the books are the exact sums over what is retained and every limit holds; no operation
  panics; a failed push changes nothing; expire and flush remove and report exactly what they should. For
  the walker and the checksum: equivalence with the layout of the headers and with RFC 1071. For
  fragmentation: the fragments tile the datagram, respect every limit, and give it back through the
  reassembler in any order.

  \<^bold>\<open>Bounds and loops.\<close> No fuel is used: every loop is a total function with a termination proof, because each pass
  consumes input (bytes of a slice, items of an extension chain, a remaining payload) or walks a finite
  list. Reachability is by rule induction over the operations (\<open>tcp_reachable\<close>, \<open>ip_reachable\<close>).

  \<^bold>\<open>Not modelled.\<close>

  \<^item> What hands packets to the reassemblers (\<open>analysis/adapter.rs\<close>, the analysis pipeline) reads decoded layers,
    trait objects of an open registry. The round trip through the reassembler therefore reads the fragment's
    metadata off its bytes (\<open>read_ipv4_fragment\<close>, \<open>read_ipv6_fragment\<close>), definitions of the specification and not of
    the code.
  \<^item> The application protocols over streams, the codecs and dissectors in \<open>protocol/\<close>, \<open>build\<close>, \<open>decode\<close>,
    \<open>document\<close>, \<open>expression\<close> and \<open>filter\<close>, the capture file formats, and the other transforms (\<open>transform/rewrite.rs\<close>,
    \<open>transform/fields.rs\<close>, \<open>transform/rules.rs\<close>, \<open>transform/address_map.rs\<close>).
  \<^item> The crates \<open>packetcraftr\<close>, \<open>packetcraftr-cli\<close> and \<open>packetcraftr-netio\<close>: sockets, clocks, threads, command lines and output.
  \<^item> Message texts and error classifications, which are display data, and \<open>serde\<close> serialization.
\<close>

end
